(* ===== verification/Prelude.thy ===== *)
theory Prelude
  imports Main "HOL-Library.Word" "HOL-Library.Multiset"
begin

text \<open>
  Shared vocabulary of the development: the fixed-width integers of the C++ sources, the
  object representation of such integers in memory (what \<open>memcpy\<close> reads and writes on a
  host of either endianness), the network byte order, and the generic lemmas on lists,
  options and words that the component theories use.
\<close>

unbundle bit_operations_syntax

section \<open>Types of the sources\<close>

type_synonym byte = "8 word"
type_synonym u16 = "16 word"
type_synonym u32 = "32 word"
type_synonym u64 = "64 word"

text \<open>
  Collections: \<open>wire\<close> holds the layout equations of the encoders, \<open>inv_simps\<close> the
  definitions of component invariants, \<open>step_simps\<close> the definitions of operations whose
  unfolding is wanted together.
\<close>

named_theorems wire
named_theorems inv_simps
named_theorems step_simps

section \<open>Object representation and network byte order\<close>

text \<open>
  \<open>mem16 le v\<close> and \<open>mem32 le v\<close> are the bytes of an unsigned integer in memory, lowest
  address first, on a little-endian (\<open>le\<close>) or big-endian host. \<open>load16\<close> and \<open>load32\<close>
  are the inverse reading, as in \<open>memcpy(&v, p, 4)\<close>.
\<close>

definition be16 :: "u16 \<Rightarrow> byte list" where
  "be16 v = [ucast (drop_bit 8 v), ucast v]"

definition be32 :: "u32 \<Rightarrow> byte list" where
  "be32 v = [ucast (drop_bit 24 v), ucast (drop_bit 16 v), ucast (drop_bit 8 v), ucast v]"

definition mem16 :: "bool \<Rightarrow> u16 \<Rightarrow> byte list" where
  "mem16 le v = (if le then rev (be16 v) else be16 v)"

definition mem32 :: "bool \<Rightarrow> u32 \<Rightarrow> byte list" where
  "mem32 le v = (if le then rev (be32 v) else be32 v)"

fun of_be16 :: "byte list \<Rightarrow> u16" where
  "of_be16 [a, b] = push_bit 8 (ucast a) OR ucast b"
| "of_be16 _ = 0"

fun of_be32 :: "byte list \<Rightarrow> u32" where
  "of_be32 [a, b, c, d] =
     push_bit 24 (ucast a) OR push_bit 16 (ucast b) OR push_bit 8 (ucast c) OR ucast d"
| "of_be32 _ = 0"

definition load16 :: "bool \<Rightarrow> byte list \<Rightarrow> u16" where
  "load16 le bs = of_be16 (if le then rev bs else bs)"

definition load32 :: "bool \<Rightarrow> byte list \<Rightarrow> u32" where
  "load32 le bs = of_be32 (if le then rev bs else bs)"

text \<open>Byte reversal, which the host's \<open>htons\<close> and \<open>htonl\<close> perform on little-endian hosts.\<close>

definition bswap16 :: "u16 \<Rightarrow> u16" where
  "bswap16 v = of_be16 (rev (be16 v))"

definition bswap32 :: "u32 \<Rightarrow> u32" where
  "bswap32 v = of_be32 (rev (be32 v))"

definition host_htons :: "bool \<Rightarrow> u16 \<Rightarrow> u16" where
  "host_htons le v = (if le then bswap16 v else v)"

definition host_htonl :: "bool \<Rightarrow> u32 \<Rightarrow> u32" where
  "host_htonl le v = (if le then bswap32 v else v)"

section \<open>Buffers\<close>

text \<open>
  \<open>memcpy_at buf off src\<close> overwrites \<open>buf\<close> from \<open>off\<close> on, as \<open>memcpy(&buf[off], src, n)\<close>
  does when the destination is large enough. A read that the sources do not guard and that
  leaves the buffer is the value \<open>Out_Of_Bounds\<close> of an access.
\<close>

definition memcpy_at :: "byte list \<Rightarrow> nat \<Rightarrow> byte list \<Rightarrow> byte list" where
  "memcpy_at buf off src = take off buf @ src @ drop (off + length src) buf"

datatype 'a access = Done 'a | Out_Of_Bounds

definition read_at :: "byte list \<Rightarrow> nat \<Rightarrow> nat \<Rightarrow> byte list access" where
  "read_at buf off n =
     (if off + n \<le> length buf then Done (take n (drop off buf)) else Out_Of_Bounds)"

section \<open>Signed 64-bit results\<close>

text \<open>
  The value of an \<open>int64_t\<close> sum or difference in two's complement. C++ leaves a signed
  overflow undefined; wrapping is what the supported compilers generate, and \<open>i64_id\<close> says
  when no overflow happens and the value is exact.
\<close>

definition i64 :: "int \<Rightarrow> int" where
  "i64 x = signed_take_bit 63 x"

lemma i64_id: "- (2 ^ 63) \<le> x \<Longrightarrow> x < 2 ^ 63 \<Longrightarrow> i64 x = x"
  by (simp add: i64_def signed_take_bit_int_eq_self)

section \<open>Word lemmas\<close>

lemma not_bit_byte [simp]: "8 \<le> n \<Longrightarrow> \<not> bit (b :: byte) n"
  by (auto dest: bit_imp_le_length)

lemma not_bit_u32 [simp]: "32 \<le> n \<Longrightarrow> \<not> bit (w :: u32) n"
  by (auto dest: bit_imp_le_length)

lemma xor_eq_0_iff: "(a :: 'a::len word) XOR b = 0 \<longleftrightarrow> a = b"
  by (auto simp: bit_eq_iff bit_xor_iff)

lemma length_be16 [simp]: "length (be16 v) = 2"
  by (simp add: be16_def)

lemma length_be32 [simp]: "length (be32 v) = 4"
  by (simp add: be32_def)

lemma length_mem16 [simp]: "length (mem16 le v) = 2"
  by (simp add: mem16_def)

lemma length_mem32 [simp]: "length (mem32 le v) = 4"
  by (simp add: mem32_def)

lemma of_be16_be16 [simp]: "of_be16 (be16 v) = v"
  by (rule bit_word_eqI) (auto simp: be16_def bit_simps)

lemma of_be32_be32 [simp]: "of_be32 (be32 v) = v"
proof (rule bit_word_eqI)
  fix n assume "n < LENGTH(32)"
  then consider "n < 8" | "8 \<le> n" "n < 16" | "16 \<le> n" "n < 24" | "24 \<le> n" "n < 32"
    by fastforce
  then show "bit (of_be32 (be32 v)) n = bit v n"
    by cases (auto simp: be32_def bit_simps)
qed

text \<open>Whatever the host's endianness, memory holds the network order after \<open>hton\<close>.\<close>

lemma be16_of_be16 [simp]: "length bs = 2 \<Longrightarrow> be16 (of_be16 bs) = bs"
  by (auto simp: be16_def numeral_2_eq_2 length_Suc_conv bit_simps intro!: bit_word_eqI)

lemma length_2_conv: "length bs = 2 \<longleftrightarrow> (\<exists>a b. bs = [a, b])"
  by (auto simp: numeral_2_eq_2 length_Suc_conv)

lemma length_4_conv: "length bs = 4 \<longleftrightarrow> (\<exists>a b c d. bs = [a, b, c, d])"
  by (auto simp: eval_nat_numeral length_Suc_conv)

lemma be32_of_be32 [simp]: "length bs = 4 \<Longrightarrow> be32 (of_be32 bs) = bs"
  by (auto simp: length_4_conv be32_def bit_simps intro!: bit_word_eqI)

lemma be16_bswap16 [simp]: "be16 (bswap16 v) = rev (be16 v)"
  by (simp add: bswap16_def)

lemma be32_bswap32 [simp]: "be32 (bswap32 v) = rev (be32 v)"
  by (simp add: bswap32_def)

lemma mem16_host_htons [simp]: "mem16 le (host_htons le v) = be16 v"
  by (simp add: mem16_def host_htons_def)

lemma mem32_host_htonl [simp]: "mem32 le (host_htonl le v) = be32 v"
  by (simp add: mem32_def host_htonl_def)

lemma host_ntohs_load [simp]: "length bs = 2 \<Longrightarrow> host_htons le (load16 le bs) = of_be16 bs"
  by (simp add: host_htons_def load16_def bswap16_def)

lemma host_ntohl_load [simp]: "length bs = 4 \<Longrightarrow> host_htonl le (load32 le bs) = of_be32 bs"
  by (simp add: host_htonl_def load32_def bswap32_def)

lemma unat_of_nat_u32: "n < 4294967296 \<Longrightarrow> unat (of_nat n :: u32) = n"
  by (simp add: unat_of_nat take_bit_nat_eq_self_iff)

lemma replicate_numeral: "replicate (numeral k) x = x # replicate (pred_numeral k) x"
  by (simp add: numeral_eq_Suc)

lemma length_memcpy_at [simp]:
  "off + length src \<le> length buf \<Longrightarrow> length (memcpy_at buf off src) = length buf"
  by (simp add: memcpy_at_def)

text \<open>Writing adjacent fields into a fresh buffer lays them out one after the other.\<close>

lemma memcpy_at_0 [wire]: "memcpy_at buf 0 src = src @ drop (length src) buf"
  by (simp add: memcpy_at_def)

lemma memcpy_at_next [wire]:
  "length pre = off \<Longrightarrow> memcpy_at (pre @ buf) off src = pre @ src @ drop (length src) buf"
  by (simp add: memcpy_at_def)

lemma sum_list_map_update:
  fixes f :: "'a \<Rightarrow> 'b::comm_monoid_add"
  assumes "i < length xs"
  shows "sum_list (map f (xs[i := x])) + f (xs ! i) = sum_list (map f xs) + f x"
proof -
  have "sum_list (map f xs) = sum_list (map f (take i xs @ xs ! i # drop (Suc i) xs))"
    using id_take_nth_drop [OF assms] by simp
  then show ?thesis using assms by (simp add: upd_conv_take_nth_drop ac_simps)
qed

end
