(* ===== verification/Byte_Order.thy ===== *)
theory Byte_Order
  imports Prelude
begin

text \<open>
  Class \<open>ByteOrder\<close> of \<open>src/network/codec/codec.cpp\<close>: the flag \<open>g_little_endian\<close> is
  determined once from the host, and the conversions swap bytes when it is set. The host's
  endianness is the parameter \<open>le\<close>. The lemmas show that the flag is the host's
  endianness, that the hand-written 32-bit and 16-bit swaps agree with the C library's
  \<open>htonl\<close> and \<open>htons\<close>, and what the 64-bit swap does to each byte.
\<close>

section \<open>Definitions\<close>

text \<open>\<open>ByteOrder::init\<close>: look at the first byte of \<open>0x1234\<close> in memory.\<close>

definition ByteOrder_init :: "bool \<Rightarrow> bool" where
  "ByteOrder_init le = (hd (mem16 le 0x1234) = 0x34)"

definition is_little_endian :: "bool \<Rightarrow> bool" where
  "is_little_endian g_little_endian = g_little_endian"

definition ByteOrder_htons :: "bool \<Rightarrow> u16 \<Rightarrow> u16" where
  "ByteOrder_htons g v =
     (if \<not> g then v else drop_bit 8 v OR push_bit 8 v)"

definition ByteOrder_ntohs :: "bool \<Rightarrow> u16 \<Rightarrow> u16" where
  "ByteOrder_ntohs g v = ByteOrder_htons g v"

definition ByteOrder_htonl :: "bool \<Rightarrow> u32 \<Rightarrow> u32" where
  "ByteOrder_htonl g v =
     (if \<not> g then v
      else drop_bit 24 (v AND 0xFF000000) OR
           drop_bit 8 (v AND 0x00FF0000) OR
           push_bit 8 (v AND 0x0000FF00) OR
           push_bit 24 (v AND 0x000000FF))"

definition ByteOrder_ntohl :: "bool \<Rightarrow> u32 \<Rightarrow> u32" where
  "ByteOrder_ntohl g v = ByteOrder_htonl g v"

definition ByteOrder_htonll :: "bool \<Rightarrow> u64 \<Rightarrow> u64" where
  "ByteOrder_htonll g v =
     (if \<not> g then v
      else drop_bit 56 (v AND 0xFF00000000000000) OR
           drop_bit 40 (v AND 0x00FF000000000000) OR
           drop_bit 24 (v AND 0x0000FF0000000000) OR
           drop_bit 8 (v AND 0x000000FF00000000) OR
           push_bit 8 (v AND 0x00000000FF000000) OR
           push_bit 24 (v AND 0x0000000000FF0000) OR
           push_bit 40 (v AND 0x000000000000FF00) OR
           push_bit 56 (v AND 0x00000000000000FF))"

definition ByteOrder_ntohll :: "bool \<Rightarrow> u64 \<Rightarrow> u64" where
  "ByteOrder_ntohll g v = ByteOrder_htonll g v"

section \<open>Lemmas\<close>

lemma ByteOrder_init_host [simp]: "ByteOrder_init le = le"
  by (simp add: ByteOrder_init_def mem16_def be16_def)

text \<open>Each mask of the sources selects one byte.\<close>

lemma masks_u32:
  "(0xFF000000 :: u32) = push_bit 24 (mask 8)"
  "(0x00FF0000 :: u32) = push_bit 16 (mask 8)"
  "(0x0000FF00 :: u32) = push_bit 8 (mask 8)"
  "(0x000000FF :: u32) = mask 8"
  by (simp_all add: mask_eq_exp_minus_1)

lemma masks_u64:
  "(0xFF00000000000000 :: u64) = push_bit 56 (mask 8)"
  "(0x00FF000000000000 :: u64) = push_bit 48 (mask 8)"
  "(0x0000FF0000000000 :: u64) = push_bit 40 (mask 8)"
  "(0x000000FF00000000 :: u64) = push_bit 32 (mask 8)"
  "(0x00000000FF000000 :: u64) = push_bit 24 (mask 8)"
  "(0x0000000000FF0000 :: u64) = push_bit 16 (mask 8)"
  "(0x000000000000FF00 :: u64) = push_bit 8 (mask 8)"
  "(0x00000000000000FF :: u64) = mask 8"
  by (simp_all add: mask_eq_exp_minus_1)

lemma ByteOrder_htons_host [simp]: "ByteOrder_htons le v = host_htons le v"
proof (cases le)
  case True
  have "bit (ByteOrder_htons True v) n = bit (bswap16 v) n" if "n < LENGTH(16)" for n
  proof -
    from that consider "n < 8" | "8 \<le> n" "n < 16" by fastforce
    then show ?thesis
      by cases (auto simp: ByteOrder_htons_def bswap16_def be16_def bit_simps
          dest: bit_imp_le_length)
  qed
  with True show ?thesis
    by (auto simp: host_htons_def intro!: bit_word_eqI)
qed (simp add: ByteOrder_htons_def host_htons_def)

lemma ByteOrder_htonl_host [simp]: "ByteOrder_htonl le v = host_htonl le v"
proof (cases le)
  case True
  have "bit (ByteOrder_htonl True v) n = bit (bswap32 v) n" if "n < LENGTH(32)" for n
  proof -
    from that consider "n < 8" | "8 \<le> n" "n < 16" | "16 \<le> n" "n < 24" | "24 \<le> n" "n < 32"
      by fastforce
    then show ?thesis
      by cases (auto simp: ByteOrder_htonl_def masks_u32 bswap32_def be32_def bit_simps)
  qed
  with True show ?thesis
    by (auto simp: host_htonl_def intro!: bit_word_eqI)
qed (simp add: ByteOrder_htonl_def host_htonl_def)

lemma ByteOrder_ntoh_host [simp]:
  "ByteOrder_ntohs le v = host_htons le v" "ByteOrder_ntohl le w = host_htonl le w"
  by (simp_all add: ByteOrder_ntohs_def ByteOrder_ntohl_def)

text \<open>Bit \<open>n\<close> of the swapped 64-bit value is bit \<open>n mod 8\<close> of the mirrored byte.\<close>

lemma bit_ByteOrder_htonll:
  assumes "n < 64"
  shows "bit (ByteOrder_htonll True v) n = bit v (8 * (7 - n div 8) + n mod 8)"
proof -
  define k where "k = n div 8"
  define j where "j = n mod 8"
  have n: "n = 8 * k + j" and j: "j < 8" by (simp_all add: k_def j_def)
  with assms have "k < 8" by simp
  then consider "k = 0" | "k = 1" | "k = 2" | "k = 3" | "k = 4" | "k = 5" | "k = 6" | "k = 7"
    by linarith
  then have "bit (ByteOrder_htonll True v) (8 * k + j) = bit v (8 * (7 - k) + j)"
    using j by cases (auto simp: ByteOrder_htonll_def masks_u64 bit_simps)
  then show ?thesis by (simp add: k_def j_def)
qed

lemma ByteOrder_htonll_involution: "ByteOrder_ntohll g (ByteOrder_htonll g v) = v"
proof (cases g)
  case True
  show ?thesis
  proof (rule bit_word_eqI)
    fix n assume n: "n < LENGTH(64)"
    let ?m = "8 * (7 - n div 8) + n mod 8"
    have m: "?m < 64" "8 * (7 - ?m div 8) + ?m mod 8 = n" using n by auto
    from n show "bit (ByteOrder_ntohll g (ByteOrder_htonll g v)) n = bit v n"
      by (simp add: True ByteOrder_ntohll_def bit_ByteOrder_htonll m)
  qed
qed (simp add: ByteOrder_htonll_def ByteOrder_ntohll_def)

end
