(* ===== verification/Crc32.thy ===== *)
theory Crc32
  imports Prelude
begin

text \<open>
  Class \<open>CRC32\<close> of \<open>src/network/codec/codec.cpp\<close>: the 256-entry table and the
  table-driven checksum. The lemmas relate it to the bit-serial division by the polynomial
  \<open>0xEDB88320\<close> (the reference definition), show that the checksum register is linear
  over exclusive-or and injective in its state, and that changes confined to 32
  consecutive bits are always detected.
\<close>

section \<open>Definitions\<close>

text \<open>One iteration of the inner loop of \<open>init_crc32_table\<close>.\<close>

definition crc_bit :: "u32 \<Rightarrow> u32" where
  "crc_bit c = (if c AND 1 \<noteq> 0 then 0xEDB88320 XOR drop_bit 1 c else drop_bit 1 c)"

definition crc32_entry :: "u32 \<Rightarrow> u32" where
  "crc32_entry i = (crc_bit ^^ 8) i"

definition init_crc32_table :: "u32 list" where
  "init_crc32_table = map (\<lambda>i. crc32_entry (of_nat i)) [0..<256]"

text \<open>The body of the loop of \<open>CRC32::calculate\<close>, over the table.\<close>

definition crc32_update :: "u32 list \<Rightarrow> u32 \<Rightarrow> byte \<Rightarrow> u32" where
  "crc32_update crc32_table crc b =
     crc32_table ! unat ((crc XOR ucast b) AND 0xFF) XOR drop_bit 8 crc"

definition crc32_calculate :: "byte list \<Rightarrow> u32" where
  "crc32_calculate data =
     foldl (crc32_update init_crc32_table) 0xFFFFFFFF data XOR 0xFFFFFFFF"

definition crc32_verify :: "byte list \<Rightarrow> u32 \<Rightarrow> bool" where
  "crc32_verify data expected = (crc32_calculate data = expected)"

text \<open>One byte through the register that the table entries describe.\<close>

definition crc_feed :: "u32 \<Rightarrow> byte \<Rightarrow> u32" where
  "crc_feed s b = (crc_bit ^^ 8) (s XOR ucast b)"

definition crc_run :: "u32 \<Rightarrow> byte list \<Rightarrow> u32" where
  "crc_run s bs = foldl crc_feed s bs"

text \<open>
  Reference: the bit-serial shift register of the standard. The message is fed bit by bit,
  least significant first; when the bit shifted out differs from the message bit, the
  generator polynomial \<open>0x04C11DB7\<close>, with its bits in reverse order, is added.
\<close>

definition generator :: u32 where
  "generator = foldl (\<lambda>r i. push_bit 1 r OR of_bool (bit (0x04C11DB7 :: u32) i)) 0 [0..<32]"

definition serial_bit :: "u32 \<Rightarrow> bool \<Rightarrow> u32" where
  "serial_bit s b = (if bit s 0 \<noteq> b then drop_bit 1 s XOR generator else drop_bit 1 s)"

definition message_bits :: "byte list \<Rightarrow> bool list" where
  "message_bits bs = concat (map (\<lambda>b. map (bit b) [0..<8]) bs)"

definition crc_reference :: "byte list \<Rightarrow> u32" where
  "crc_reference bs = foldl serial_bit 0xFFFFFFFF (message_bits bs) XOR 0xFFFFFFFF"

definition bytes_xor :: "byte list \<Rightarrow> byte list \<Rightarrow> byte list" where
  "bytes_xor xs ys = map2 (XOR) xs ys"

section \<open>The register is linear and injective\<close>

lemma crc_bit_alt: "crc_bit c = (if bit c 0 then 0xEDB88320 else 0) XOR drop_bit 1 c"
  by (simp add: crc_bit_def bit_0 and_one_eq odd_iff_mod_2_eq_one)

lemma crc_bit_0 [simp]: "crc_bit 0 = 0"
  by (simp add: crc_bit_alt)

lemma crc_bit_xor: "crc_bit (a XOR b) = crc_bit a XOR crc_bit b"
  by (auto simp: crc_bit_alt drop_bit_xor bit_xor_iff xor.assoc xor.left_commute)

lemma crc_bit_inj0: "crc_bit c = 0 \<longleftrightarrow> c = 0"
proof
  assume z: "crc_bit c = 0"
  have "\<not> bit c 0"
  proof
    assume "bit c 0"
    then have "bit (crc_bit c) 31" 
      by (auto simp: crc_bit_alt bit_xor_iff bit_drop_bit_eq dest: bit_imp_le_length)
    with z show False by simp
  qed
  moreover from this z have "drop_bit 1 c = 0" by (simp add: crc_bit_alt)
  then have "bit (drop_bit 1 c) n = bit 0 n" for n by simp
  then have "\<not> bit c (Suc n)" for n by (simp add: bit_drop_bit_eq)
  ultimately have "\<not> bit c n" for n by (cases n) auto
  then show "c = 0" by (auto intro: bit_word_eqI)
qed simp

lemma crc_bit_iter_0 [simp]: "(crc_bit ^^ n) 0 = 0"
  by (induction n) auto

lemma crc_bit_iter_xor: "(crc_bit ^^ n) (a XOR b) = (crc_bit ^^ n) a XOR (crc_bit ^^ n) b"
  by (induction n) (auto simp: crc_bit_xor)

lemma crc_bit_iter_inj0: "(crc_bit ^^ n) c = 0 \<longleftrightarrow> c = 0"
  by (induction n) (auto simp: crc_bit_inj0)

text \<open>As long as the low bits are clear the register only shifts.\<close>

lemma crc_bit_iter_shift:
  "(\<And>i. i < n \<Longrightarrow> \<not> bit c i) \<Longrightarrow> (crc_bit ^^ n) c = drop_bit n c"
proof (induction n)
  case (Suc n)
  then have "(crc_bit ^^ n) c = drop_bit n c" by simp
  moreover have "\<not> bit (drop_bit n c) 0" using Suc.prems by (simp add: bit_drop_bit_eq)
  ultimately show ?case by (simp add: crc_bit_alt [of "drop_bit n c"])
qed simp

lemma crc_feed_0 [simp]: "crc_feed 0 0 = 0"
  by (simp add: crc_feed_def)

lemma crc_feed_xor: "crc_feed (s XOR t) (a XOR b) = crc_feed s a XOR crc_feed t b"
proof -
  have "(s XOR t) XOR ucast (a XOR b) = (s XOR ucast a) XOR (t XOR ucast b)"
    by (auto simp: bit_simps intro!: bit_word_eqI)
  then show ?thesis by (simp add: crc_feed_def crc_bit_iter_xor)
qed

lemma crc_run_Nil [simp]: "crc_run s [] = s"
  by (simp add: crc_run_def)

lemma crc_run_Cons [simp]: "crc_run s (b # bs) = crc_run (crc_feed s b) bs"
  by (simp add: crc_run_def)

lemma crc_run_append [simp]: "crc_run s (xs @ ys) = crc_run (crc_run s xs) ys"
  by (simp add: crc_run_def)

lemma crc_run_xor:
  "length xs = length ys \<Longrightarrow>
   crc_run (s XOR t) (bytes_xor xs ys) = crc_run s xs XOR crc_run t ys"
  by (induction xs ys arbitrary: s t rule: list_induct2) (auto simp: bytes_xor_def crc_feed_xor)

text \<open>Feeding zero bytes is injective, so a non-zero register stays non-zero.\<close>

lemma crc_run_zeros_inj0: "crc_run s (replicate n 0) = 0 \<longleftrightarrow> s = 0"
  by (induction n arbitrary: s) (auto simp: crc_feed_def crc_bit_iter_inj0)

lemma crc_run_0_zeros [simp]: "crc_run 0 (replicate n 0) = 0"
  by (simp add: crc_run_zeros_inj0)

lemma bytes_xor_same [simp]: "bytes_xor xs xs = replicate (length xs) 0"
  by (induction xs) (auto simp: bytes_xor_def)

lemma bytes_xor_append:
  "length xs = length ys \<Longrightarrow>
   bytes_xor (xs @ us) (ys @ vs) = bytes_xor xs ys @ bytes_xor us vs"
  by (simp add: bytes_xor_def)

lemma length_bytes_xor [simp]: "length (bytes_xor xs ys) = min (length xs) (length ys)"
  by (simp add: bytes_xor_def)

lemma bytes_xor_eq0:
  "length xs = length ys \<Longrightarrow> bytes_xor xs ys = replicate (length xs) 0 \<longleftrightarrow> xs = ys"
  by (induction xs ys rule: list_induct2) (auto simp: bytes_xor_def xor_eq_0_iff)

section \<open>The table-driven loop computes the reference checksum\<close>

lemma init_crc32_table_nth: "i < 256 \<Longrightarrow> init_crc32_table ! i = crc32_entry (of_nat i)"
  by (simp add: init_crc32_table_def)

lemma and_FF_lookup:
  "init_crc32_table ! unat ((x :: u32) AND 0xFF) = (crc_bit ^^ 8) (x AND 0xFF)"
proof -
  have "x AND 0xFF \<le> 0xFF" by (rule word_and_le1)
  then have "unat (x AND 0xFF) < 256" by (simp add: word_le_nat_alt)
  then show ?thesis by (simp add: init_crc32_table_nth crc32_entry_def)
qed

lemma crc32_update_feed: "crc32_update init_crc32_table crc b = crc_feed crc b"
proof -
  let ?x = "crc XOR ucast b"
  have low: "(0xFF :: u32) = mask 8" by (simp add: mask_eq_exp_minus_1)
  have split: "?x = (?x AND 0xFF) XOR (?x AND NOT 0xFF)"
    unfolding low by (auto simp: bit_simps intro!: bit_word_eqI)
  have "(crc_bit ^^ 8) (?x AND NOT 0xFF) = drop_bit 8 (?x AND NOT 0xFF)"
    by (rule crc_bit_iter_shift) (auto simp: low bit_simps)
  also have "\<dots> = drop_bit 8 crc"
    by (rule bit_word_eqI, subst low)
      (use not_bit_u32 not_le in \<open>fastforce simp: bit_simps\<close>)
  finally have high: "(crc_bit ^^ 8) (?x AND NOT 0xFF) = drop_bit 8 crc" .
  have "crc_feed crc b = (crc_bit ^^ 8) (?x AND 0xFF) XOR (crc_bit ^^ 8) (?x AND NOT 0xFF)"
    unfolding crc_feed_def crc_bit_iter_xor [symmetric] split [symmetric] ..
  then show ?thesis unfolding crc32_update_def and_FF_lookup high by simp
qed

lemma crc32_calculate_run: "crc32_calculate bs = crc_run 0xFFFFFFFF bs XOR 0xFFFFFFFF"
  by (simp add: crc32_calculate_def crc_run_def crc32_update_feed [abs_def])

lemma crc32_eq_iff:
  "length xs = length ys \<Longrightarrow>
   crc32_calculate xs = crc32_calculate ys \<longleftrightarrow> crc_run 0 (bytes_xor xs ys) = 0"
proof -
  assume len: "length xs = length ys"
  have "crc32_calculate xs = crc32_calculate ys \<longleftrightarrow>
        crc_run 0xFFFFFFFF xs XOR crc_run 0xFFFFFFFF ys = 0"
    by (auto simp: crc32_calculate_run xor_eq_0_iff bit_eq_iff bit_simps)
  with crc_run_xor [OF len, of "0xFFFFFFFF" "0xFFFFFFFF"] show ?thesis by simp
qed

section \<open>Evaluation\<close>

text \<open>Equations that let the simplifier run the checksum on literals, innermost first.\<close>

lemma crc_iter8_eq:
  "(crc_bit ^^ 8) c =
     crc_bit (crc_bit (crc_bit (crc_bit (crc_bit (crc_bit (crc_bit (crc_bit c)))))))"
  by (simp add: eval_nat_numeral)

lemmas crc_eval = crc32_calculate_run crc_feed_def crc_iter8_eq
  crc_bit_def [of "numeral n"] crc_bit_def [of 1] for n

text \<open>The standard check value of CRC-32 (ASCII digits 1 to 9).\<close>

lemma crc32_check_value:
  "crc32_calculate [0x31, 0x32, 0x33, 0x34, 0x35, 0x36, 0x37, 0x38, 0x39] = 0xCBF43926"
  by (simp add: crc_eval)

section \<open>The serial register\<close>

lemma generator_eq: "generator = 0xEDB88320"
  by (simp add: generator_def upt_rec)

lemma serial_bit_crc: "serial_bit s b = crc_bit (s XOR of_bool b)"
proof -
  have "drop_bit 1 (s XOR of_bool b) = drop_bit 1 s" by (auto simp: bit_simps intro!: bit_word_eqI)
  then show ?thesis by (simp add: serial_bit_def crc_bit_alt generator_eq bit_xor_iff xor.commute)
qed

text \<open>Feeding the bits one by one leaves the unread bits of the byte to be added.\<close>

lemma serial_bits:
  "(crc_bit ^^ n) (s XOR w) = foldl serial_bit s (map (bit w) [0..<n]) XOR drop_bit n w"
proof (induction n)
  case (Suc n)
  let ?r = "foldl serial_bit s (map (bit w) [0..<n])" and ?u = "drop_bit n w"
  have bits: "bit (?u AND NOT 1) k = (0 < k \<and> bit ?u k)" for k
    unfolding bit_and_iff bit_not_iff bit_1_iff by (auto dest: bit_imp_possible_bit)
  have u: "?u = of_bool (bit w n) XOR (?u AND NOT 1)"
  proof (rule bit_word_eqI)
    fix k assume "k < LENGTH(32)"
    show "bit ?u k = bit (of_bool (bit w n) XOR (?u AND NOT 1)) k"
      unfolding bit_xor_iff bits by (cases k) (auto simp: bit_simps)
  qed
  have "drop_bit 1 (?u AND NOT 1) = drop_bit (Suc n) w"
  proof (rule bit_word_eqI)
    fix m assume "m < LENGTH(32)"
    show "bit (drop_bit 1 (?u AND NOT 1)) m = bit (drop_bit (Suc n) w) m"
      unfolding bit_drop_bit_eq [of 1] comp_apply bits by (simp add: bit_drop_bit_eq)
  qed
  then have even: "crc_bit (?u AND NOT 1) = drop_bit (Suc n) w"
    by (simp only: crc_bit_alt bits) simp
  have "(crc_bit ^^ Suc n) (s XOR w) = crc_bit (?r XOR ?u)" using Suc by simp
  also have "\<dots> = crc_bit ((?r XOR of_bool (bit w n)) XOR (?u AND NOT 1))" by (subst u) (simp only: xor.assoc)
  also have "\<dots> = serial_bit ?r (bit w n) XOR drop_bit (Suc n) w" by (simp only: crc_bit_xor [of _ "?u AND NOT 1"] even serial_bit_crc)
  finally show ?case by simp
qed simp

lemma serial_byte: "foldl serial_bit s (map (bit b) [0..<8]) = crc_feed s b"
proof -
  have "drop_bit 8 (ucast b :: u32) = 0" by (auto simp: bit_simps intro!: bit_word_eqI)
  moreover have "map (bit (ucast b :: u32)) [0..<8] = map (bit b) [0..<8]" by (auto simp: bit_simps)
  ultimately show ?thesis using serial_bits [of 8 s "ucast b"] by (simp only: crc_feed_def xor.right_neutral)
qed

lemma serial_run: "foldl serial_bit s (message_bits bs) = crc_run s bs"
  by (induction bs arbitrary: s) (simp_all add: message_bits_def serial_byte del: upt_rec_numeral)

section \<open>Bursts of up to 32 bits\<close>

lemma xor_right_inj: "(x :: u32) XOR z = y XOR z \<Longrightarrow> x = y"
  by (metis xor.right_neutral xor_self_eq xor.assoc)

text \<open>The register is linear in the message bits; bits that are zero on the zero register leave it zero.\<close>

lemma serial_bit_xor: "serial_bit (s XOR t) (a = (\<not> b)) = serial_bit s a XOR serial_bit t b"
proof -
  have "(s XOR t) XOR of_bool (a = (\<not> b)) = (s XOR of_bool a) XOR (t XOR of_bool b)"
    by (cases a; cases b) (simp_all add: xor.assoc xor.commute xor.left_commute)
  then show ?thesis by (simp only: serial_bit_crc crc_bit_xor)
qed

lemma serial_xor:
  "length as = length bs \<Longrightarrow>
   foldl serial_bit (s XOR t) (map2 (\<lambda>a b. a = (\<not> b)) as bs) = foldl serial_bit s as XOR foldl serial_bit t bs"
  by (induction as bs arbitrary: s t rule: list_induct2) (simp_all add: serial_bit_xor)

lemma serial_zeros: "foldl serial_bit s (replicate n False) = (crc_bit ^^ n) s"
  by (induction n arbitrary: s) (simp_all add: serial_bit_crc funpow_swap1)

text \<open>Up to 32 bits on the zero register act as one word shifted through it, so none of them is lost.\<close>

lemma serial_word: "length d \<le> 32 \<Longrightarrow> foldl serial_bit 0 d = (crc_bit ^^ length d) (horner_sum of_bool 2 d)"
proof -
  assume len: "length d \<le> 32"
  let ?w = "horner_sum of_bool 2 d :: u32"
  have "map (bit ?w) [0..<length d] = d" by (rule nth_equalityI) (use len in \<open>auto simp: bit_horner_sum_bit_iff\<close>)
  moreover have "drop_bit (length d) ?w = 0"
    by (rule bit_word_eqI) (simp add: bit_drop_bit_eq bit_horner_sum_bit_iff)
  ultimately show ?thesis using serial_bits [of "length d" 0 ?w] by simp
qed

lemma serial_short_inj0:
  assumes "length d \<le> 32" "foldl serial_bit 0 d = 0" "i < length d"
  shows "\<not> d ! i"
proof -
  have "(horner_sum of_bool 2 d :: u32) = 0" using assms(1,2) by (simp add: serial_word crc_bit_iter_inj0)
  then have "\<not> bit (horner_sum of_bool 2 d :: u32) i" by simp
  with assms(1,3) show ?thesis by (simp add: bit_horner_sum_bit_iff)
qed

lemma serial_detects_window:
  assumes "length w = length w'" "length w \<le> 32"
    and "foldl serial_bit s (p @ w @ q) = foldl serial_bit s (p @ w' @ q)"
  shows "w = w'"
proof (rule nth_equalityI [OF assms(1)])
  let ?d = "map2 (\<lambda>a b. a = (\<not> b)) w w'"
  have same: "map2 (\<lambda>a b. a = (\<not> b)) xs xs = replicate (length xs) False" for xs :: "bool list"
    by (induction xs) simp_all
  have "foldl serial_bit 0 (map2 (\<lambda>a b. a = (\<not> b)) (p @ w @ q) (p @ w' @ q)) = 0"
    using serial_xor [of "p @ w @ q" "p @ w' @ q" s s] assms(1,3) by simp
  then have "(crc_bit ^^ length q) (foldl serial_bit 0 ?d) = 0"
    using assms(1) by (simp add: same serial_zeros)
  then have "foldl serial_bit 0 ?d = 0" by (simp add: crc_bit_iter_inj0)
  then show "w ! i = w' ! i" if "i < length w" for i
    using serial_short_inj0 [of ?d i] assms(1,2) that by simp
qed

section \<open>Properties\<close>

text \<open>C8: The table-driven \<open>CRC32::calculate\<close> computes the bit-serial CRC-32 remainder of
  every byte string.\<close>

theorem crc32_matches_reference: "crc32_calculate data = crc_reference data"
  by (simp add: crc32_calculate_run crc_reference_def serial_run)

text \<open>C13: \<open>CRC32::verify\<close> refuses every message that differs from the checksummed one inside
  a window of at most 32 consecutive bits, in the order in which the register takes them (least significant bit of
  each byte first), wherever the window lies, across byte boundaries too, and whatever surrounds it.\<close>

theorem crc32_verify_detects_bursts:
  assumes "message_bits xs = p @ w @ q" "message_bits ys = p @ w' @ q"
    and "length w = length w'" "length w \<le> 32" "w \<noteq> w'"
  shows "\<not> crc32_verify ys (crc32_calculate xs)"
proof
  assume "crc32_verify ys (crc32_calculate xs)"
  then have "foldl serial_bit 0xFFFFFFFF (p @ w' @ q) = foldl serial_bit 0xFFFFFFFF (p @ w @ q)"
    using assms(1,2) serial_run [of "0xFFFFFFFF" xs] serial_run [of "0xFFFFFFFF" ys] xor_right_inj
    by (simp add: crc32_verify_def crc32_calculate_run)
  with serial_detects_window [of w w' "0xFFFFFFFF" p q] assms(3-5) show False by simp
qed

text \<open>A burst of 32 bits from bit 1 of the first byte on, which touches five bytes.\<close>

theorem crc32_verify_detects_bursts_witness:
  "\<not> crc32_verify [0xFE, 0xFF, 0xFF, 0xFF, 1] (crc32_calculate [0, 0, 0, 0, 0])"
  by (rule crc32_verify_detects_bursts [where p = "[False]" and w = "replicate 32 False" and w' = "replicate 32 True"
        and q = "replicate 7 False"]) (simp_all add: message_bits_def upt_rec replicate_numeral)

end
