(* ===== verification/Tables.thy ===== *)
theory Tables
  imports Prelude "HOL-Library.AList"
begin

text \<open>
  The hash tables of the sources. A \<open>std::unordered_map\<close> is an association list with
  distinct keys: lookup, \<open>operator[]\<close> assignment and \<open>erase\<close> are those of the library's
  association lists, and the position of an entry in the list stands for the iteration order,
  which C++ leaves open; results about iterations are stated up to that order. The locale
  \<open>handler_table\<close> is the interface of the framework's registries (\<open>Router\<close>, the handler
  table of \<open>Codec\<close>, \<open>ProtoRegistry\<close>, the descriptor table of \<open>EventLoop\<close>).
\<close>

section \<open>Unordered maps\<close>

type_synonym ('k, 'v) umap = "('k \<times> 'v) list"

abbreviation um_find :: "('k, 'v) umap \<Rightarrow> 'k \<Rightarrow> 'v option" where
  "um_find \<equiv> map_of"

abbreviation um_set :: "'k \<Rightarrow> 'v \<Rightarrow> ('k, 'v) umap \<Rightarrow> ('k, 'v) umap" where
  "um_set \<equiv> AList.update"

abbreviation um_erase :: "'k \<Rightarrow> ('k, 'v) umap \<Rightarrow> ('k, 'v) umap" where
  "um_erase \<equiv> AList.delete"

abbreviation um_wf :: "('k, 'v) umap \<Rightarrow> bool" where
  "um_wf m \<equiv> distinct (map fst m)"

lemma um_find_set [simp]: "um_find (um_set k v m) k' = (if k' = k then Some v else um_find m k')"
  by (simp add: update_conv')

lemma um_find_erase [simp]: "um_find (um_erase k m) k' = (if k' = k then None else um_find m k')"
  by (simp add: delete_conv')

lemma um_wf_set [simp]: "um_wf m \<Longrightarrow> um_wf (um_set k v m)"
  by (rule distinct_update)

lemma um_wf_erase [simp]: "um_wf m \<Longrightarrow> um_wf (um_erase k m)"
  by (rule distinct_delete)

lemma um_find_mem: "um_wf m \<Longrightarrow> um_find m k = Some v \<longleftrightarrow> (k, v) \<in> set m"
  by simp

lemma um_set_mem: "um_wf m \<Longrightarrow> p \<in> set (um_set k v m) \<longleftrightarrow> p = (k, v) \<or> (fst p \<noteq> k \<and> p \<in> set m)"
  using um_find_mem [of "um_set k v m" "fst p" "snd p"] um_find_mem [of m "fst p" "snd p"]
  by (cases p) (auto split: if_splits)

lemma um_erase_mem: "p \<in> set (um_erase k m) \<longleftrightarrow> fst p \<noteq> k \<and> p \<in> set m"
  by (auto simp: AList.delete_eq)

lemma length_um_set: "length (um_set k v m) = (if um_find m k = None then Suc (length m) else length m)"
  by (induction m) auto

lemma length_um_wf: "um_wf m \<Longrightarrow> length m = card (fst ` set m)"
  by (metis distinct_card length_map set_map)

lemma um_erase_keys: "fst ` set (um_erase k m) = fst ` set m - {k}"
  by (auto simp: um_erase_mem image_iff)

lemma length_um_erase: "um_wf m \<Longrightarrow> length (um_erase k m) = (if um_find m k = None then length m else length m - 1)"
  by (auto simp: length_um_wf um_erase_keys map_of_eq_None_iff card_Diff_singleton image_iff dest: map_of_SomeD)

text \<open>Updating the value of a key that is present keeps the keys and their order.\<close>

lemma um_set_keys: "um_find m k \<noteq> None \<Longrightarrow> map fst (um_set k v m) = map fst m"
  by (induction m) auto

section \<open>Registries\<close>

datatype ('k, 'h) table_op = Reg 'k 'h | Unreg 'k

fun replay :: "('k \<Rightarrow> 'h \<Rightarrow> 't \<Rightarrow> 't) \<Rightarrow> ('k \<Rightarrow> 't \<Rightarrow> 't) \<Rightarrow> ('k, 'h) table_op list \<Rightarrow> 't \<Rightarrow> 't" where
  "replay put del [] t = t"
| "replay put del (Reg k h # ops) t = replay put del ops (put k h t)"
| "replay put del (Unreg k # ops) t = replay put del ops (del k t)"

text \<open>What the last operation on a key made of it, starting from \<open>old\<close>.\<close>

fun settled :: "'k \<Rightarrow> 'h option \<Rightarrow> ('k, 'h) table_op list \<Rightarrow> 'h option" where
  "settled k old [] = old"
| "settled k old (Reg k' h # ops) = settled k (if k' = k then Some h else old) ops"
| "settled k old (Unreg k' # ops) = settled k (if k' = k then None else old) ops"

locale handler_table =
  fixes find :: "'t \<Rightarrow> 'k \<Rightarrow> 'h option"
    and put :: "'k \<Rightarrow> 'h \<Rightarrow> 't \<Rightarrow> 't"
    and del :: "'k \<Rightarrow> 't \<Rightarrow> 't"
  assumes find_put: "find (put k h t) k' = (if k' = k then Some h else find t k')"
    and find_del: "find (del k t) k' = (if k' = k then None else find t k')"
begin

lemma find_replay: "find (replay put del ops t) k = settled k (find t k) ops"
proof (induction ops arbitrary: t)
  case (Cons x ops)
  then show ?case by (cases x) (simp_all add: find_put find_del)
qed simp

lemma put_put_commute: "k \<noteq> k' \<Longrightarrow> find (put k h (put k' h' t)) = find (put k' h' (put k h t))"
  by (auto simp: fun_eq_iff find_put)

lemma replay_other_keys:
  assumes "\<forall>op\<in>set ops. (case op of Reg k' _ \<Rightarrow> k' \<noteq> k | Unreg k' \<Rightarrow> k' \<noteq> k)"
  shows "find (replay put del ops t) k = find t k"
proof -
  have "settled k old ops = old" for old
    using assms by (induction ops) (auto split: table_op.splits)
  then show ?thesis by (simp add: find_replay)
qed

end

end
