(* ===== verification/Codec.thy ===== *)
theory Codec
  imports Byte_Order Crc32 Tables
begin

text \<open>
  Class \<open>Codec\<close>, struct \<open>Packet\<close> and class \<open>ProtoRegistry\<close> of
  \<open>src/network/codec/codec.h\<close> and \<open>codec.cpp\<close>: the framed protocol
  \<open>[length:4][version:1][crc32:4][seq:4][cmd:2][data:N]\<close>, its encoder, and the streaming
  decoder with its resynchronisation loop. The lemmas give the exact byte layout of an
  encoded packet, what the decoder accepts and returns, that it always terminates and keeps
  a bounded buffer, and exactly when it accepts the encoder's own output.
\<close>

section \<open>Data\<close>

definition PROTOCOL_VERSION :: byte where "PROTOCOL_VERSION = 1"
definition HEADER_SIZE :: nat where "HEADER_SIZE = 4 + 1 + 4 + 4 + 2"
definition MAX_PACKET_SIZE :: nat where "MAX_PACKET_SIZE = 10 * 1024 * 1024"

lemma HEADER_SIZE_eq [simp]: "HEADER_SIZE = 15"
  by (simp add: HEADER_SIZE_def)

lemma MAX_PACKET_SIZE_eq [simp]: "MAX_PACKET_SIZE = 10485760"
  by (simp add: MAX_PACKET_SIZE_def)

record packet_header =
  h_length :: u32
  h_version :: byte
  h_crc32 :: u32
  h_seq :: u32
  h_cmd :: u16

record codec_packet =
  k_seq :: u32
  k_cmd :: u16
  k_data :: "byte list"

record 'h codec =
  c_buffer :: "byte list"
  c_handlers :: "u16 \<rightharpoonup> 'h"
  c_next_seq :: u32

section \<open>Encoder\<close>

definition Codec_new :: "'h codec" where
  "Codec_new = \<lparr>c_buffer = [], c_handlers = Map.empty, c_next_seq = 1\<rparr>"

definition register_handler :: "u16 \<Rightarrow> 'h \<Rightarrow> 'h codec \<Rightarrow> 'h codec" where
  "register_handler cmd h c = c\<lparr>c_handlers := (c_handlers c)(cmd \<mapsto> h)\<rparr>"

definition unregister_handler :: "u16 \<Rightarrow> 'h codec \<Rightarrow> 'h codec" where
  "unregister_handler cmd c = c\<lparr>c_handlers := (c_handlers c)(cmd := None)\<rparr>"

definition clear_buffer :: "'h codec \<Rightarrow> 'h codec" where
  "clear_buffer c = c\<lparr>c_buffer := []\<rparr>"

text \<open>
  \<open>Codec::encode\<close>. The constructor has run \<open>ByteOrder::init\<close> on the host \<open>le\<close>. The
  checksum is taken before the header fields are written, over the bytes from offset 5 on.
\<close>

definition codec_encode :: "bool \<Rightarrow> u16 \<Rightarrow> byte list \<Rightarrow> u32 \<Rightarrow> byte list access" where
  "codec_encode le cmd data seq =
     (let g = ByteOrder_init le;
          out = replicate HEADER_SIZE 0 @ data;
          total_len = (of_nat (HEADER_SIZE + length data) :: u32)
      in case read_at out (4 + 1) (unat (total_len - 4 - 1)) of
           Out_Of_Bounds \<Rightarrow> Out_Of_Bounds
         | Done covered \<Rightarrow>
             let crc = crc32_calculate covered;
                 length_be = ByteOrder_htonl g total_len;
                 crc_be = ByteOrder_htonl g crc;
                 seq_be = ByteOrder_htonl g seq;
                 cmd_be = ByteOrder_htons g cmd;
                 out = memcpy_at out 0 (mem32 le length_be);
                 out = out[4 := PROTOCOL_VERSION];
                 out = memcpy_at out 5 (mem32 le crc_be);
                 out = memcpy_at out 9 (mem32 le seq_be);
                 out = memcpy_at out 13 (mem16 le cmd_be)
             in Done out)"

section \<open>Decoder\<close>

text \<open>\<open>memcpy(&hdr, buffer, HEADER_SIZE)\<close> into the packed struct, then the swaps.\<close>

definition read_header :: "bool \<Rightarrow> byte list \<Rightarrow> packet_header" where
  "read_header le buf =
     (let g = ByteOrder_init le in
      \<lparr>h_length = ByteOrder_ntohl g (load32 le (take 4 buf)),
       h_version = buf ! 4,
       h_crc32 = ByteOrder_ntohl g (load32 le (take 4 (drop 5 buf))),
       h_seq = ByteOrder_ntohl g (load32 le (take 4 (drop 9 buf))),
       h_cmd = ByteOrder_ntohs g (load16 le (take 2 (drop 13 buf)))\<rparr>)"

text \<open>
  The loop of \<open>Codec::try_decode\<close>: the packet found, if any, and the new buffer. A
  checksum mismatch drops one byte and tries again.
\<close>

function try_decode :: "bool \<Rightarrow> byte list \<Rightarrow> codec_packet option \<times> byte list" where
  "try_decode le buf =
     (if length buf < HEADER_SIZE then (None, buf)
      else let total_len = ByteOrder_ntohl (ByteOrder_init le) (load32 le (take 4 buf)) in
        if unat total_len < HEADER_SIZE \<or> unat total_len > MAX_PACKET_SIZE then (None, [])
        else if length buf < unat total_len then (None, buf)
        else let hdr = read_header le buf;
                 crc = crc32_calculate (take (unat (total_len - 4 - 1)) (drop (4 + 1) buf))
             in if crc \<noteq> h_crc32 hdr then try_decode le (drop 1 buf)
                else let body = (if unat total_len > HEADER_SIZE
                                 then take (unat (total_len - of_nat HEADER_SIZE))
                                        (drop HEADER_SIZE buf)
                                 else [])
                     in (Some \<lparr>k_seq = h_seq hdr, k_cmd = h_cmd hdr, k_data = body\<rparr>,
                         drop (unat total_len) buf))"
  by pat_completeness auto
termination
  by (relation "measure (length \<circ> snd)") auto

declare try_decode.simps [simp del]

definition codec_decode :: "bool \<Rightarrow> byte list \<Rightarrow> 'h codec \<Rightarrow> codec_packet option \<times> 'h codec" where
  "codec_decode le buf c =
     (let (r, b) = try_decode le (c_buffer c @ buf) in (r, c\<lparr>c_buffer := b\<rparr>))"

definition decode_packet :: "bool \<Rightarrow> byte list \<Rightarrow> 'h codec \<Rightarrow> codec_packet option \<times> 'h codec" where
  "decode_packet le buf c = codec_decode le buf c"

section \<open>Packet\<close>

definition Packet_encode :: "bool \<Rightarrow> codec_packet \<Rightarrow> byte list access" where
  "Packet_encode le p = codec_encode le (k_cmd p) (k_data p) (k_seq p)"

definition Packet_decode :: "bool \<Rightarrow> byte list \<Rightarrow> codec_packet \<Rightarrow> bool \<times> codec_packet" where
  "Packet_decode le raw p =
     (case fst (codec_decode le raw (Codec_new :: unit codec)) of
        None \<Rightarrow> (False, p)
      | Some q \<Rightarrow> (True, p\<lparr>k_seq := k_seq q, k_cmd := k_cmd q, k_data := k_data q\<rparr>))"

section \<open>ProtoRegistry\<close>

text \<open>Messages are opaque (\<open>void*\<close>); a deserializer writes through the pointer it is given.\<close>

record 'm proto_registry =
  serializers :: "string \<rightharpoonup> ('m \<Rightarrow> byte list)"
  deserializers :: "string \<rightharpoonup> ('m \<Rightarrow> byte list \<Rightarrow> bool \<times> 'm)"

definition register_serializer ::
  "string \<Rightarrow> ('m \<Rightarrow> byte list) \<Rightarrow> 'm proto_registry \<Rightarrow> 'm proto_registry" where
  "register_serializer type_name s r = r\<lparr>serializers := (serializers r)(type_name \<mapsto> s)\<rparr>"

definition register_deserializer ::
  "string \<Rightarrow> ('m \<Rightarrow> byte list \<Rightarrow> bool \<times> 'm) \<Rightarrow> 'm proto_registry \<Rightarrow> 'm proto_registry" where
  "register_deserializer type_name d r = r\<lparr>deserializers := (deserializers r)(type_name \<mapsto> d)\<rparr>"

definition registry_serialize :: "'m proto_registry \<Rightarrow> string \<Rightarrow> 'm \<Rightarrow> byte list option" where
  "registry_serialize r type_name msg =
     (case serializers r type_name of None \<Rightarrow> None | Some s \<Rightarrow> Some (s msg))"

definition registry_deserialize ::
  "'m proto_registry \<Rightarrow> string \<Rightarrow> 'm \<Rightarrow> byte list \<Rightarrow> bool \<times> 'm" where
  "registry_deserialize r type_name msg data =
     (case deserializers r type_name of None \<Rightarrow> (False, msg) | Some d \<Rightarrow> d msg data)"

section \<open>The tables as registries\<close>

interpretation ct: handler_table c_handlers register_handler unregister_handler
  by unfold_locales (simp_all add: register_handler_def unregister_handler_def)

section \<open>Layout of an encoded packet\<close>

definition crc_at_encode :: "byte list \<Rightarrow> u32" where
  "crc_at_encode data = crc32_calculate (replicate 10 0 @ data)"

definition wire_frame :: "u16 \<Rightarrow> byte list \<Rightarrow> u32 \<Rightarrow> u32 \<Rightarrow> byte list" where
  "wire_frame cmd data seq crc =
     be32 (of_nat (15 + length data)) @ [1] @ be32 crc @ be32 seq @ be16 cmd @ data"

text \<open>The ten header bytes that the checksum covers.\<close>

definition checked_header :: "u32 \<Rightarrow> u32 \<Rightarrow> u16 \<Rightarrow> byte list" where
  "checked_header crc seq cmd = be32 crc @ be32 seq @ be16 cmd"

lemma length_checked_header [simp]: "length (checked_header crc seq cmd) = 10"
  by (simp add: checked_header_def)

lemma take4_checked_header [simp]: "take 4 (checked_header crc seq cmd) = be32 crc"
  by (simp add: checked_header_def)

lemma unat_total_len:
  "15 + n < 2 ^ 32 \<Longrightarrow> unat (of_nat (15 + n) :: u32) = 15 + n"
  by (rule unat_of_nat_u32) simp

lemma unat_total_len_minus_5:
  "15 + n < 2 ^ 32 \<Longrightarrow> unat (of_nat (15 + n) - 4 - 1 :: u32) = 10 + n"
proof -
  assume a: "15 + n < 2 ^ 32"
  have "(of_nat (15 + n) - 4 - 1 :: u32) = of_nat (10 + n)" by simp
  then show ?thesis using a unat_of_nat_u32 [of "10 + n"] by simp
qed

lemma codec_encode_layout [wire]:
  assumes "15 + length data < 2 ^ 32"
  shows "codec_encode le cmd data seq = Done (wire_frame cmd data seq (crc_at_encode data))"
proof -
  have rep: "replicate 15 (0 :: byte) = replicate 5 0 @ replicate 10 0"
    by (simp flip: replicate_add)
  have upd: "(replicate 11 (0 :: byte))[0 := 1] = 1 # replicate 10 0"
    by (simp add: eval_nat_numeral)
  have "read_at (replicate 15 0 @ data) 5 (10 + length data) = Done (replicate 10 0 @ data)"
    by (simp add: read_at_def rep)
  then show ?thesis
    using unat_total_len_minus_5 [OF assms]
    by (simp add: codec_encode_def Let_def crc_at_encode_def wire_frame_def memcpy_at_def
        PROTOCOL_VERSION_def list_update_append upd del: of_nat_add)
qed

section \<open>What the decoder accepts\<close>

text \<open>
  A frame the decoder accepts: its length field is its own length, within the limits, and
  the checksum of everything from offset 5 on, the checksum field included, is the value of
  the checksum field.
\<close>

definition valid_frame :: "byte list \<Rightarrow> codec_packet \<Rightarrow> bool" where
  "valid_frame f p \<longleftrightarrow>
     15 \<le> length f \<and> length f \<le> MAX_PACKET_SIZE \<and>
     unat (of_be32 (take 4 f)) = length f \<and>
     crc32_calculate (drop 5 f) = of_be32 (take 4 (drop 5 f)) \<and>
     k_seq p = of_be32 (take 4 (drop 9 f)) \<and>
     k_cmd p = of_be16 (take 2 (drop 13 f)) \<and>
     k_data p = drop 15 f"

lemma unat_sub_literals:
  "15 \<le> unat (t :: u32) \<Longrightarrow> unat (t - 5) = unat t - 5"
  "15 \<le> unat (t :: u32) \<Longrightarrow> unat (t - 15) = unat t - 15"
  by (simp_all add: unat_sub word_le_nat_alt)

text \<open>One turn of the loop in terms of the bytes, for either endianness.\<close>

lemma try_decode_unfold:
  "try_decode le buf =
     (if length buf < 15 then (None, buf)
      else let t = unat (of_be32 (take 4 buf)) in
        if t < 15 \<or> MAX_PACKET_SIZE < t then (None, [])
        else if length buf < t then (None, buf)
        else if crc32_calculate (take (t - 5) (drop 5 buf)) \<noteq> of_be32 (take 4 (drop 5 buf))
             then try_decode le (drop 1 buf)
             else (Some \<lparr>k_seq = of_be32 (take 4 (drop 9 buf)),
                         k_cmd = of_be16 (take 2 (drop 13 buf)),
                         k_data = take (t - 15) (drop 15 buf)\<rparr>, drop t buf))"
proof (cases "length buf < 15")
  case False
  then have loads:
    "host_htonl le (load32 le (take 4 buf)) = of_be32 (take 4 buf)"
    "read_header le buf =
       \<lparr>h_length = of_be32 (take 4 buf), h_version = buf ! 4,
        h_crc32 = of_be32 (take 4 (drop 5 buf)), h_seq = of_be32 (take 4 (drop 9 buf)),
        h_cmd = of_be16 (take 2 (drop 13 buf))\<rparr>"
    by (simp_all add: read_header_def)
  show ?thesis
  proof (cases "unat (of_be32 (take 4 buf)) < 15")
    case True
    with False show ?thesis
      by (subst try_decode.simps) (simp add: loads Let_def)
  next
    case ge: False
    with False show ?thesis
      by (subst try_decode.simps)
        (simp add: loads Let_def unat_sub_literals)
  qed
qed (simp add: try_decode.simps)

lemma try_decode_short [simp]: "length buf < 15 \<Longrightarrow> try_decode le buf = (None, buf)"
  by (simp add: try_decode_unfold)

lemma try_decode_valid:
  assumes "valid_frame f p"
  shows "try_decode le (f @ rest) = (Some p, rest)"
proof -
  have p: "p = \<lparr>k_seq = of_be32 (take 4 (drop 9 f)), k_cmd = of_be16 (take 2 (drop 13 f)),
               k_data = drop 15 f\<rparr>"
    using assms by (simp add: valid_frame_def)
  have len: "15 \<le> length f" "length f \<le> MAX_PACKET_SIZE" "unat (of_be32 (take 4 f)) = length f"
    and crc: "crc32_calculate (drop 5 f) = of_be32 (take 4 (drop 5 f))"
    using assms by (simp_all add: valid_frame_def)
  show ?thesis
    by (subst try_decode_unfold) (use len crc in \<open>simp add: p Let_def\<close>)
qed

lemma try_decode_prefix:
  assumes "valid_frame f p" "k < length f"
  shows "try_decode le (take k f) = (None, take k f)"
  using assms by (subst try_decode_unfold) (auto simp: valid_frame_def Let_def min_def)

text \<open>Whatever is returned was a valid frame, preceded by skipped bytes.\<close>

lemma try_decode_Some:
  "try_decode le buf = (Some p, rest) \<Longrightarrow>
   \<exists>skipped f. buf = skipped @ f @ rest \<and> valid_frame f p"
proof (induction buf rule: length_induct)
  case (1 buf)
  define t where "t = unat (of_be32 (take 4 buf))"
  note unf = try_decode_unfold [of le buf, folded t_def, unfolded Let_def]
  from "1.prems" have len: "15 \<le> length buf" "15 \<le> t" "t \<le> MAX_PACKET_SIZE" "t \<le> length buf"
    unfolding unf by (auto split: if_splits)
  show ?case
  proof (cases "crc32_calculate (take (t - 5) (drop 5 buf)) = of_be32 (take 4 (drop 5 buf))")
    case True
    with "1.prems" len have
      "p = \<lparr>k_seq = of_be32 (take 4 (drop 9 buf)), k_cmd = of_be16 (take 2 (drop 13 buf)),
            k_data = take (t - 15) (drop 15 buf)\<rparr>" "rest = drop t buf"
      unfolding unf by auto
    with True len have "valid_frame (take t buf) p \<and> buf = [] @ take t buf @ rest"
      by (auto simp: valid_frame_def t_def min_def drop_take)
    then show ?thesis by blast
  next
    case False
    with len "1.prems" have "try_decode le (drop 1 buf) = (Some p, rest)"
      unfolding unf by auto
    moreover have "length (drop 1 buf) < length buf" using len by simp
    ultimately obtain skipped f where "drop 1 buf = skipped @ f @ rest" "valid_frame f p"
      using "1.IH" by blast
    then have "buf = (take 1 buf @ skipped) @ f @ rest"
      by (metis append.assoc append_take_drop_id)
    with \<open>valid_frame f p\<close> show ?thesis by blast
  qed
qed

text \<open>
  The three ways in which a buffer does not start with a valid frame: its length field is out of
  range, the frame is not complete yet, or it is complete and its checksum is wrong.
\<close>

definition length_field :: "byte list \<Rightarrow> nat" where
  "length_field b = unat (of_be32 (take 4 b))"

definition bad_length :: "byte list \<Rightarrow> bool" where
  "bad_length b \<longleftrightarrow> 15 \<le> length b \<and> (length_field b < 15 \<or> MAX_PACKET_SIZE < length_field b)"

definition incomplete :: "byte list \<Rightarrow> bool" where
  "incomplete b \<longleftrightarrow> length b < 15 \<or>
     15 \<le> length_field b \<and> length_field b \<le> MAX_PACKET_SIZE \<and> length b < length_field b"

definition bad_checksum :: "byte list \<Rightarrow> bool" where
  "bad_checksum b \<longleftrightarrow> \<not> bad_length b \<and> \<not> incomplete b \<and> (\<forall>f p rest. b = f @ rest \<longrightarrow> \<not> valid_frame f p)"

text \<open>How the search ends at the first position that it does not skip.\<close>

inductive search_ends :: "byte list \<Rightarrow> codec_packet option \<Rightarrow> byte list \<Rightarrow> bool" where
  found: "valid_frame f p \<Longrightarrow> search_ends (f @ rest) (Some p) rest"
| waits: "incomplete b \<Longrightarrow> search_ends b None b"
| cleared: "bad_length b \<Longrightarrow> search_ends b None []"

lemma valid_frame_prefix:
  "b = f @ rest \<Longrightarrow> valid_frame f p \<Longrightarrow> \<not> bad_length b \<and> \<not> incomplete b"
  by (auto simp: bad_length_def incomplete_def length_field_def valid_frame_def)

lemma complete_frame:
  assumes "\<not> bad_length b" "\<not> incomplete b"
    and "crc32_calculate (take (length_field b - 5) (drop 5 b)) = of_be32 (take 4 (drop 5 b))"
  shows "\<exists>p. valid_frame (take (length_field b) b) p"
proof -
  have "15 \<le> length_field b" "length_field b \<le> length b" "length_field b \<le> MAX_PACKET_SIZE" "15 \<le> length b"
    using assms(1,2) by (auto simp: bad_length_def incomplete_def)
  then have "valid_frame (take (length_field b) b) \<lparr>k_seq = of_be32 (take 4 (drop 9 b)), k_cmd = of_be16 (take 2 (drop 13 b)),
      k_data = take (length_field b - 15) (drop 15 b)\<rparr>"
    using assms(3) by (auto simp: valid_frame_def length_field_def min_def drop_take)
  then show ?thesis by blast
qed

lemma bad_checksum_iff:
  "bad_checksum b \<longleftrightarrow> \<not> bad_length b \<and> \<not> incomplete b \<and>
     crc32_calculate (take (length_field b - 5) (drop 5 b)) \<noteq> of_be32 (take 4 (drop 5 b))"
proof -
  have "crc32_calculate (take (length_field b - 5) (drop 5 b)) = of_be32 (take 4 (drop 5 b))"
    if "b = f @ rest" "valid_frame f p" for f p rest
    using that by (auto simp: valid_frame_def length_field_def)
  then show ?thesis
    using complete_frame [of b] append_take_drop_id [of "length_field b" b] unfolding bad_checksum_def by metis
qed

lemma try_decode_bad_checksum: "bad_checksum b \<Longrightarrow> try_decode le b = try_decode le (drop 1 b)"
proof -
  assume b: "bad_checksum b"
  then have "15 \<le> length b" "15 \<le> length_field b" "length_field b \<le> MAX_PACKET_SIZE" "length_field b \<le> length b"
    by (auto simp: bad_checksum_def bad_length_def incomplete_def)
  moreover have "crc32_calculate (take (length_field b - 5) (drop 5 b)) \<noteq> of_be32 (take 4 (drop 5 b))"
    using b by (simp add: bad_checksum_iff)
  ultimately show ?thesis by (subst try_decode_unfold) (simp add: length_field_def)
qed

lemma try_decode_ends: "search_ends b r rest \<Longrightarrow> try_decode le b = (r, rest)"
proof (induction rule: search_ends.induct)
  case (waits b)
  then show ?case by (subst try_decode_unfold) (auto simp: incomplete_def length_field_def)
next
  case (cleared b)
  then show ?case by (subst try_decode_unfold) (auto simp: bad_length_def length_field_def)
qed (rule try_decode_valid)

lemma try_decode_skips:
  "\<forall>j<i. bad_checksum (drop j b) \<Longrightarrow> try_decode le b = try_decode le (drop i b)"
proof (induction i)
  case (Suc i)
  then have "try_decode le b = try_decode le (drop i b)" "bad_checksum (drop i b)" by simp_all
  then show ?case by (simp add: try_decode_bad_checksum)
qed simp

lemma search_finishes: "\<exists>i r rest. (\<forall>j<i. bad_checksum (drop j b)) \<and> search_ends (drop i b) r rest"
proof (induction b rule: length_induct)
  case (1 b)
  show ?case
  proof (cases "bad_checksum b")
    case True
    then have "b \<noteq> []" by (auto simp: bad_checksum_def incomplete_def)
    with "1.IH" obtain i r rest where i: "\<forall>j<i. bad_checksum (drop j (drop 1 b))" "search_ends (drop i (drop 1 b)) r rest"
      by (metis diff_less length_drop length_greater_0_conv zero_less_one)
    have "bad_checksum (drop j b)" if "j < Suc i" for j using that True i(1) by (cases j) auto
    with i(2) show ?thesis by (intro exI [of _ "Suc i"]) auto
  next
    case False
    then have "\<exists>r rest. search_ends b r rest"
      unfolding bad_checksum_def by (metis found waits cleared)
    then show ?thesis by (intro exI [of _ 0]) simp
  qed
qed

section \<open>The buffer stays bounded\<close>

lemma try_decode_None_bound:
  "try_decode le buf = (None, rest) \<Longrightarrow> length rest < MAX_PACKET_SIZE"
proof (induction buf rule: length_induct)
  case (1 buf)
  define t where "t = unat (of_be32 (take 4 buf))"
  note unf = try_decode_unfold [of le buf, folded t_def, unfolded Let_def]
  have IH: "length rest < MAX_PACKET_SIZE"
    if "try_decode le (drop 1 buf) = (None, rest)" "buf \<noteq> []"
    using "1.IH" [rule_format, of "drop 1 buf"] that by simp
  show ?case
    using "1.prems" IH unfolding unf by (cases "buf = []") (auto split: if_splits)
qed

section \<open>Decoding the encoder's own output\<close>

lemma wire_frame_parts:
  assumes "15 + length data < 2 ^ 32"
  shows "length (wire_frame cmd data seq crc) = 15 + length data"
    and "unat (of_be32 (take 4 (wire_frame cmd data seq crc))) = 15 + length data"
    and "of_be32 (take 4 (drop 5 (wire_frame cmd data seq crc))) = crc"
    and "of_be32 (take 4 (drop 9 (wire_frame cmd data seq crc))) = seq"
    and "of_be16 (take 2 (drop 13 (wire_frame cmd data seq crc))) = cmd"
    and "drop 15 (wire_frame cmd data seq crc) = data"
    and "drop 5 (wire_frame cmd data seq crc) = checked_header crc seq cmd @ data"
  using unat_total_len [OF assms]
  by (simp_all add: wire_frame_def checked_header_def del: of_nat_add)

text \<open>
  The checksum is taken over ten zero bytes at encoding and over the filled-in checksum,
  sequence and command fields at decoding. The two agree exactly when those ten bytes leave
  no remainder.
\<close>

lemma crc_at_encode_agrees:
  "crc32_calculate (checked_header crc seq cmd @ data) = crc_at_encode data
   \<longleftrightarrow> crc_run 0 (checked_header crc seq cmd) = 0"
proof -
  let ?h = "checked_header crc seq cmd"
  have hx: "bytes_xor ?h (replicate 10 0) = ?h"
    by (rule nth_equalityI) (simp_all add: bytes_xor_def)
  have "crc32_calculate (?h @ data) = crc_at_encode data \<longleftrightarrow>
        crc_run 0 (bytes_xor (?h @ data) (replicate 10 0 @ data)) = 0"
    unfolding crc_at_encode_def by (rule crc32_eq_iff) simp
  also have "\<dots> \<longleftrightarrow> crc_run (crc_run 0 ?h) (replicate (length data) 0) = 0"
    by (simp add: bytes_xor_append hx)
  finally show ?thesis by (simp only: crc_run_zeros_inj0)
qed

lemma valid_frame_wire:
  assumes "15 + length data \<le> MAX_PACKET_SIZE"
  shows "valid_frame (wire_frame cmd data seq (crc_at_encode data)) p \<longleftrightarrow>
    p = \<lparr>k_seq = seq, k_cmd = cmd, k_data = data\<rparr> \<and>
    crc_run 0 (checked_header (crc_at_encode data) seq cmd) = 0"
proof -
  have lt: "15 + length data < 2 ^ 32" using assms by simp
  show ?thesis
    unfolding valid_frame_def wire_frame_parts [OF lt]
    using assms by (cases p) (auto simp: crc_at_encode_agrees)
qed

lemma try_decode_rest_length:
  assumes "try_decode le buf = (Some p, rest)"
  shows "length rest + 15 + length (k_data p) \<le> length buf"
proof -
  from try_decode_Some [OF assms] obtain skipped f
    where "buf = skipped @ f @ rest" "valid_frame f p" by blast
  then show ?thesis by (auto simp: valid_frame_def)
qed

lemma try_decode_encoded_iff:
  fixes cmd :: u16 and seq :: u32
  assumes "15 + length data \<le> MAX_PACKET_SIZE"
  defines "f \<equiv> wire_frame cmd data seq (crc_at_encode data)"
  shows "try_decode le (f @ rest) = (Some \<lparr>k_seq = seq, k_cmd = cmd, k_data = data\<rparr>, rest) \<longleftrightarrow>
    crc_run 0 (checked_header (crc_at_encode data) seq cmd) = 0" (is "?L \<longleftrightarrow> ?R")
proof
  assume ?R
  then show ?L using valid_frame_wire [OF assms(1)] unfolding f_def by (blast intro: try_decode_valid)
next
  assume L: ?L
  have lt: "15 + length data < 2 ^ 32" using assms(1) by simp
  from try_decode_Some [OF L] obtain skipped g
    where eq: "f @ rest = skipped @ g @ rest"
      and g: "valid_frame g \<lparr>k_seq = seq, k_cmd = cmd, k_data = data\<rparr>" by blast
  have "length g = 15 + length data" using g by (auto simp: valid_frame_def)
  moreover have "length f = 15 + length data" unfolding f_def by (rule wire_frame_parts [OF lt])
  ultimately have "skipped = []" using arg_cong [OF eq, of length] by simp
  with eq g have "valid_frame f \<lparr>k_seq = seq, k_cmd = cmd, k_data = data\<rparr>" by simp
  then show ?R unfolding f_def valid_frame_wire [OF assms(1)] ..
qed

section \<open>Feeding a stream in pieces\<close>

text \<open>Successive calls of \<open>Codec::decode\<close>, with the result of each call, and the packets among the results.\<close>

fun decode_calls :: "bool \<Rightarrow> byte list list \<Rightarrow> 'h codec \<Rightarrow> codec_packet option list \<times> 'h codec" where
  "decode_calls le [] c = ([], c)"
| "decode_calls le (x # xs) c =
     (let (r, c') = codec_decode le x c; (rs, c'') = decode_calls le xs c' in (r # rs, c''))"

definition decoded :: "codec_packet option list \<Rightarrow> codec_packet list" where
  "decoded rs = List.map_filter (\<lambda>r. r) rs"

lemma decoded_simps [simp]:
  "decoded [] = []" "decoded (None # rs) = decoded rs" "decoded (Some p # rs) = p # decoded rs"
  "decoded (rs @ rs') = decoded rs @ decoded rs'"
  by (simp_all add: decoded_def map_filter_def)

lemma length_decode_calls: "length (fst (decode_calls le xs c)) = length xs"
  by (induction xs arbitrary: c) (simp_all add: split_beta Let_def)

lemma decode_calls_append:
  "decode_calls le (us @ vs) c =
     (let (r, c') = decode_calls le us c; (s, c'') = decode_calls le vs c' in (r @ s, c''))"
  by (induction us arbitrary: c) (auto simp: Let_def split: prod.splits)

text \<open>One call on a stream of frames returns the next packet if its frame is complete, and nothing else.\<close>

lemma codec_decode_next:
  assumes "valid_frame f p" "c_buffer c @ x @ rest = f @ others"
  shows "codec_decode le x c =
    (if length f \<le> length (c_buffer c @ x)
     then (Some p, c\<lparr>c_buffer := drop (length f) (c_buffer c @ x)\<rparr>) else (None, c\<lparr>c_buffer := c_buffer c @ x\<rparr>))"
proof (cases "length f \<le> length (c_buffer c @ x)")
  case True
  have "(c_buffer c @ x) @ rest = f @ others" using assms(2) by simp
  with True have "c_buffer c @ x = f @ drop (length f) (c_buffer c @ x)" by (metis append_eq_append_conv_if append_take_drop_id)
  then have "try_decode le (c_buffer c @ x) = (Some p, drop (length f) (c_buffer c @ x))"
    using try_decode_valid [OF assms(1)] by metis
  with True show ?thesis by (simp only: codec_decode_def) simp
next
  case False
  have "(c_buffer c @ x) @ rest = f @ others" using assms(2) by simp
  with False have "c_buffer c @ x = take (length (c_buffer c @ x)) f"
    by (metis append_eq_append_conv_if nle_le)
  then have "try_decode le (c_buffer c @ x) = (None, c_buffer c @ x)"
    using try_decode_prefix [OF assms(1)] False by (metis not_le)
  with False show ?thesis by (simp only: codec_decode_def) simp
qed

lemma decode_calls_stream:
  assumes "list_all2 valid_frame fs ps" "c_buffer c @ concat xs @ unsent = concat fs" "decode_calls le xs c = (rs, c')"
  shows "decoded rs = take (length (decoded rs)) ps \<and> c_buffer c' @ unsent = concat (drop (length (decoded rs)) fs) \<and>
    (\<forall>i<length xs. rs ! i = None \<longrightarrow> length (decoded (take i rs)) < length fs \<longrightarrow>
      length (c_buffer c @ concat (take (Suc i) xs)) < length (concat (take (Suc (length (decoded (take i rs)))) fs)))"
  using assms
proof (induction xs arbitrary: c fs ps rs)
  case (Cons x xs)
  obtain r c1 rs1 where r: "codec_decode le x c = (r, c1)" "decode_calls le xs c1 = (rs1, c')" "rs = r # rs1"
    using Cons.prems(3) by (auto simp: Let_def split: prod.splits)
  show ?case
  proof (cases fs)
    case Nil
    then have "c_buffer c = []" "x = []" "concat xs = []" "unsent = []" "ps = []" using Cons.prems(1,2) by auto
    then have "r = None" "c_buffer c1 = []" using r(1) by (auto simp: codec_decode_def)
    with Cons.IH [of "[]" "[]" c1 rs1] Nil r \<open>c_buffer c = []\<close> \<open>concat xs = []\<close> \<open>unsent = []\<close> \<open>ps = []\<close> show ?thesis by simp
  next
    case (Cons f fs')
    then obtain p ps' where ps: "ps = p # ps'" "valid_frame f p" "list_all2 valid_frame fs' ps'"
      using Cons.prems(1) by (auto simp: list_all2_Cons1)
    have stream: "c_buffer c @ x @ concat xs @ unsent = f @ concat fs'" using Cons.prems(2) Cons by simp
    note nxt = codec_decode_next [OF ps(2) stream, of le]
    show ?thesis
    proof (cases "length f \<le> length (c_buffer c @ x)")
      case True
      then have r1: "r = Some p" "c1 = c\<lparr>c_buffer := drop (length f) (c_buffer c @ x)\<rparr>" using nxt r(1) by simp_all
      have all: "c_buffer c @ x = f @ c_buffer c1"
        using stream True r1(2) by (metis append.assoc append_eq_append_conv_if append_take_drop_id codec.select_convs(1) codec.surjective codec.update_convs(1))
      then have "c_buffer c1 @ concat xs @ unsent = concat fs'" using stream by (metis append.assoc same_append_eq)
      moreover have "length (c_buffer c) + length x = length f + length (c_buffer c1)"
        using arg_cong [OF all, of length] by simp
      ultimately show ?thesis using Cons.IH [OF ps(3) _ r(2)] Cons ps(1) r(3) r1(1)
        by (auto simp: less_Suc_eq_0_disj simp flip: add.assoc)
    next
      case False
      then have r1: "r = None" "c1 = c\<lparr>c_buffer := c_buffer c @ x\<rparr>" using nxt r(1) by simp_all
      then have "c_buffer c1 @ concat xs @ unsent = concat fs" using Cons.prems(2) by simp
      from Cons.IH [OF Cons.prems(1) this r(2)] False Cons r(3) r1 show ?thesis
        by (auto simp: less_Suc_eq_0_disj)
    qed
  qed
qed simp

text \<open>Calls without new bytes return the packets that are still in the buffer, one each.\<close>

lemma decode_calls_rest:
  assumes "list_all2 valid_frame fs ps" "c_buffer c = concat fs" "length ps \<le> n"
  shows "decoded (fst (decode_calls le (replicate n []) c)) = ps \<and> c_buffer (snd (decode_calls le (replicate n []) c)) = []"
  using assms
proof (induction n arbitrary: c fs ps)
  case (Suc n)
  show ?case
  proof (cases fs)
    case Nil
    with Suc.prems have "codec_decode le [] c = (None, c)" by (simp add: codec_decode_def)
    with Suc.IH [of fs ps c] Nil Suc.prems show ?thesis by (simp add: split_beta Let_def)
  next
    case (Cons f fs')
    then obtain p ps' where ps: "ps = p # ps'" "valid_frame f p" "list_all2 valid_frame fs' ps'"
      using Suc.prems(1) by (auto simp: list_all2_Cons1)
    have "codec_decode le [] c = (Some p, c\<lparr>c_buffer := concat fs'\<rparr>)"
      using codec_decode_next [OF ps(2), of c "[]" "[]" "concat fs'" le] Suc.prems(2) Cons by simp
    with Suc.IH [OF ps(3), of "c\<lparr>c_buffer := concat fs'\<rparr>"] Suc.prems(3) ps(1) show ?thesis
      by (simp add: split_beta Let_def)
  qed
qed simp

section \<open>Properties\<close>

text \<open>\<open>Codec::encode\<close> lays out length, version, checksum, sequence number and command in
  network byte order followed by the payload, on hosts of either endianness; the checksum
  field holds the CRC-32 of ten zero bytes followed by the payload.\<close>

theorem codec_encode_wire_format:
  assumes "15 + length data < 2 ^ 32"
  shows "codec_encode le cmd data seq =
    Done (be32 (of_nat (15 + length data)) @ [PROTOCOL_VERSION] @
          be32 (crc32_calculate (replicate 10 0 @ data)) @ be32 seq @ be16 cmd @ data)"
  using codec_encode_layout [OF assms]
  by (simp add: wire_frame_def crc_at_encode_def PROTOCOL_VERSION_def)

theorem codec_encode_wire_format_witness:
  "codec_encode True 0x1001 [] 7 =
    Done ([0, 0, 0, 15, 1] @ be32 (crc32_calculate (replicate 10 0)) @ [0, 0, 0, 7, 16, 1])"
  using codec_encode_wire_format [of "[]" True "0x1001" 7]
  by (simp add: be32_def be16_def PROTOCOL_VERSION_def)

text \<open>C11: \<open>Codec::try_decode\<close> finds the first frame. It moves byte by byte over complete frames with a wrong
  checksum, and over nothing else, to the first position that is not one; if a valid frame starts there, its packet
  is returned and exactly the bytes behind it are kept, if a frame there is not complete, nothing is returned and
  everything from there on is kept, and if the length field there is out of range, nothing is returned
  and the buffer is cleared.\<close>

theorem try_decode_finds_first:
  "try_decode le buf = (r, rest) \<longleftrightarrow>
     (\<exists>i. (\<forall>j<i. bad_checksum (drop j buf)) \<and> search_ends (drop i buf) r rest)"
proof
  assume "try_decode le buf = (r, rest)"
  moreover obtain i r' rest' where i: "\<forall>j<i. bad_checksum (drop j buf)" "search_ends (drop i buf) r' rest'"
    using search_finishes by blast
  ultimately show "\<exists>i. (\<forall>j<i. bad_checksum (drop j buf)) \<and> search_ends (drop i buf) r rest"
    using try_decode_skips [OF i(1), of le] try_decode_ends [OF i(2), of le] by auto
qed (use try_decode_skips try_decode_ends in metis)

text \<open>A valid frame: payload \<open>[235, 98, 83, 142]\<close> with zero checksum, sequence and command.\<close>

lemma valid_frame_example:
  "valid_frame ([0, 0, 0, 19, 1] @ replicate 10 0 @ [235, 98, 83, 142])
     \<lparr>k_seq = 0, k_cmd = 0, k_data = [235, 98, 83, 142]\<rparr>"
  by (simp add: valid_frame_def crc_eval replicate_numeral)

text \<open>A frame with a wrong checksum is given up by one byte, and what is left is too short for a header.\<close>

theorem try_decode_finds_first_witness:
  "try_decode True ([0, 0, 0, 15, 1] @ replicate 10 0) = (None, [0, 0, 15, 1] @ replicate 10 0)"
proof -
  let ?b = "[0, 0, 0, 15, 1] @ replicate 10 0 :: byte list"
  have "bad_checksum ?b"
    by (simp add: bad_checksum_iff bad_length_def incomplete_def length_field_def crc_eval replicate_numeral)
  moreover have "search_ends (drop 1 ?b) None (drop 1 ?b)" by (rule waits) (simp add: incomplete_def)
  ultimately have "\<exists>i. (\<forall>j<i. bad_checksum (drop j ?b)) \<and> search_ends (drop i ?b) None (drop 1 ?b)"
    by (intro exI [of _ 1]) auto
  then have "try_decode True ?b = (None, drop 1 ?b)" by (simp only: try_decode_finds_first)
  then show ?thesis by simp
qed

text \<open>After a call that returns no packet the decoder holds less than
  \<open>MAX_PACKET_SIZE\<close> bytes, whatever it was fed: input cannot grow the buffer without bound.\<close>

theorem codec_decode_bounded_buffer:
  assumes "codec_decode le buf c = (None, c')"
  shows "length (c_buffer c') < MAX_PACKET_SIZE"
  using assms try_decode_None_bound
  by (fastforce simp: codec_decode_def Let_def split: prod.splits)

theorem codec_decode_bounded_buffer_witness:
  "length (c_buffer (Codec_new\<lparr>c_buffer := [1, 2]\<rparr> :: unit codec)) < MAX_PACKET_SIZE"
  by (rule codec_decode_bounded_buffer [of True "[1, 2]" "Codec_new"])
    (simp add: codec_decode_def Codec_new_def)

text \<open>C5: A stream of valid frames in pieces. However the bytes of the frames are cut, each call of
  \<open>Codec::decode\<close> returns at most one packet, and together they return the packets of the first frames, in
  order and each once; what is buffered then, and what is still to come, are the other frames. A call
  returns nothing only if the next frame is not complete yet, so a piece that completes several frames leaves
  all but the first of them to the following calls. When all bytes have been fed, as
  many further calls without bytes as there are frames return every packet that is left.\<close>

theorem codec_decode_reassembles:
  assumes "list_all2 valid_frame fs ps" "concat xs @ unsent = concat fs" "c_buffer c = []"
    and "decode_calls le xs c = (rs, c')"
  shows "length rs = length xs \<and>
    (\<exists>k. decoded rs = take k ps \<and> length (decoded rs) = k \<and> c_buffer c' @ unsent = concat (drop k fs)) \<and>
    (\<forall>i<length xs. rs ! i = None \<longrightarrow> length (decoded (take i rs)) < length fs \<longrightarrow>
      length (concat (take (Suc i) xs)) < length (concat (take (Suc (length (decoded (take i rs)))) fs))) \<and>
    (unsent = [] \<longrightarrow> decoded (fst (decode_calls le (xs @ replicate (length fs) []) c)) = ps)"
proof (intro conjI)
  note stream = decode_calls_stream [OF assms(1) _ assms(4), of unsent] 
  show "length rs = length xs" using length_decode_calls [of le xs c] assms(4) by simp
  show "\<exists>k. decoded rs = take k ps \<and> length (decoded rs) = k \<and> c_buffer c' @ unsent = concat (drop k fs)"
    using stream assms(2,3) by simp
  show "\<forall>i<length xs. rs ! i = None \<longrightarrow> length (decoded (take i rs)) < length fs \<longrightarrow>
      length (concat (take (Suc i) xs)) < length (concat (take (Suc (length (decoded (take i rs)))) fs))"
    using stream assms(2,3) by simp
  show "unsent = [] \<longrightarrow> decoded (fst (decode_calls le (xs @ replicate (length fs) []) c)) = ps"
  proof
    assume "unsent = []"
    let ?k = "length (decoded rs)"
    have k: "decoded rs = take ?k ps" "c_buffer c' = concat (drop ?k fs)" using stream assms(2,3) \<open>unsent = []\<close> by simp_all
    have "list_all2 valid_frame (drop ?k fs) (drop ?k ps)" using assms(1) by (rule list_all2_dropI)
    then have "decoded (fst (decode_calls le (replicate (length fs) []) c')) = drop ?k ps"
      using decode_calls_rest [OF _ k(2)] list_all2_lengthD [OF assms(1)] by simp
    then have "decoded (fst (decode_calls le (xs @ replicate (length fs) []) c)) = decoded rs @ drop ?k ps"
      using assms(4) by (simp add: decode_calls_append split_beta Let_def)
    then show "decoded (fst (decode_calls le (xs @ replicate (length fs) []) c)) = ps" using k(1) by (metis append_take_drop_id)
  qed
qed

text \<open>Two frames of which the second piece holds the end of the first and all of the second.\<close>

theorem codec_decode_reassembles_witness:
  defines "f \<equiv> [0, 0, 0, 19, 1] @ replicate 10 0 @ [235, 98, 83, 142 :: byte]"
    and "p \<equiv> \<lparr>k_seq = 0, k_cmd = 0, k_data = [235, 98, 83, 142 :: byte]\<rparr>"
  shows "decoded (fst (decode_calls True ([take 7 f, drop 7 f @ f] @ replicate 2 []) (Codec_new :: unit codec))) = [p, p]"
proof -
  have "list_all2 valid_frame [f, f] [p, p]" using valid_frame_example by (simp add: f_def p_def)
  moreover have "concat [take 7 f, drop 7 f @ f] @ [] = concat [f, f]" by (simp only: concat.simps append_take_drop_id append_Nil2 append_assoc [symmetric])
  moreover have "c_buffer (Codec_new :: unit codec) = []" by (simp add: Codec_new_def)
  moreover obtain rs c' where "decode_calls True [take 7 f, drop 7 f @ f] (Codec_new :: unit codec) = (rs, c')" by fastforce
  ultimately have "decoded (fst (decode_calls True ([take 7 f, drop 7 f @ f] @ replicate (length [f, f]) []) (Codec_new :: unit codec))) = [p, p]"
    using codec_decode_reassembles [of "[f, f]" "[p, p]" "[take 7 f, drop 7 f @ f]" "[]" "Codec_new :: unit codec" True rs c'] by blast
  then show ?thesis by (simp only: list.size numeral_2_eq_2 One_nat_def add_Suc_right add_0_right)
qed

text \<open>C10: The decoder accepts what the encoder produced exactly when the ten bytes of
  checksum, sequence number and command leave no CRC remainder: the encoder takes the
  checksum before it fills those bytes in, the decoder after.\<close>

theorem codec_roundtrip_iff:
  assumes "15 + length data \<le> MAX_PACKET_SIZE"
  shows "(\<exists>out. codec_encode le cmd data seq = Done out \<and>
            try_decode le (out @ rest) = (Some \<lparr>k_seq = seq, k_cmd = cmd, k_data = data\<rparr>, rest)) \<longleftrightarrow>
         crc_run 0 (be32 (crc32_calculate (replicate 10 0 @ data)) @ be32 seq @ be16 cmd) = 0"
proof -
  have "15 + length data < 2 ^ 32" using assms by simp
  then show ?thesis
    using try_decode_encoded_iff [OF assms, of le cmd seq rest]
    by (simp only: codec_encode_layout crc_at_encode_def checked_header_def access.inject
        simp_thms ex_simps)
qed

theorem codec_roundtrip_iff_witness:
  "\<not> (\<exists>out. codec_encode True 1 [] 0 = Done out \<and>
        try_decode True (out @ []) = (Some \<lparr>k_seq = 0, k_cmd = 1, k_data = []\<rparr>, []))"
  by (subst codec_roundtrip_iff) (simp_all add: crc_eval be32_def be16_def replicate_numeral)

text \<open>Round trip counterexample: \<open>Packet::decode\<close> rejects the bytes that
  \<open>Packet::encode\<close> produced for command 1 with an empty payload.\<close>

theorem packet_roundtrip_fails:
  "\<exists>out. Packet_encode True \<lparr>k_seq = 0, k_cmd = 1, k_data = []\<rparr> = Done out \<and>
         fst (Packet_decode True out p) = False"
proof -
  define f where "f = wire_frame 1 [] 0 (crc_at_encode [])"
  have "crc_at_encode [] = 0xE38A6876"
    by (simp add: crc_at_encode_def crc_eval replicate_numeral)
  then have f: "f = [0, 0, 0, 15, 1, 0xE3, 0x8A, 0x68, 0x76, 0, 0, 0, 0, 0, 1]"
    by (simp add: f_def wire_frame_def be32_def be16_def)
  have "fst (try_decode True f) = None"
    unfolding f by (subst try_decode_unfold) (simp add: crc_eval)
  then show ?thesis
    by (auto simp: Packet_encode_def Packet_decode_def codec_encode_layout codec_decode_def
        Codec_new_def f_def split: prod.splits)
qed

end
