(* ===== verification/Packet.thy ===== *)
theory Packet
  imports Prelude
begin

text \<open>
  Namespace \<open>framework::protocol\<close> (\<open>src/network/protocol/packet.h\<close> and \<open>packet.cpp\<close>):
  the length-prefixed frame \<open>[length:4][cmd:2][data:N]\<close> that \<open>TcpConnection\<close> and
  \<open>TcpClient\<close> exchange. The host's endianness is the parameter \<open>le\<close>; all results are
  the same for both values unless a lemma says otherwise. A read past the received bytes is
  \<open>Out_Of_Bounds\<close>, an incomplete frame (\<open>return false\<close>) is \<open>Done None\<close>.
\<close>

section \<open>Data and operations\<close>

definition CMD_HEARTBEAT :: u16 where "CMD_HEARTBEAT = 0x0001"
definition CMD_LOGIN :: u16 where "CMD_LOGIN = 0x0002"
definition CMD_LOGOUT :: u16 where "CMD_LOGOUT = 0x0003"
definition CMD_DATA :: u16 where "CMD_DATA = 0x0004"

record proto_packet =
  p_cmd :: u16
  p_data :: "byte list"

definition proto_packet_new :: "u16 \<Rightarrow> byte list \<Rightarrow> proto_packet" where
  "proto_packet_new c d = \<lparr>p_cmd = c, p_data = d\<rparr>"

definition proto_encode :: "bool \<Rightarrow> proto_packet \<Rightarrow> byte list" where
  "proto_encode le pkt =
     (let total_len = (of_nat (4 + 2 + length (p_data pkt)) :: u32);
          len_be = host_htonl le total_len;
          cmd_be = host_htons le (p_cmd pkt);
          buf = replicate (4 + 2 + length (p_data pkt)) 0;
          buf = memcpy_at buf 0 (mem32 le len_be);
          buf = memcpy_at buf 4 (mem16 le cmd_be)
      in if p_data pkt \<noteq> [] then memcpy_at buf 6 (p_data pkt) else buf)"

text \<open>
  \<open>parse_header\<close> copies two bytes into an uninitialised 32-bit variable; \<open>junk\<close> stands
  for the two bytes of it that are never written.
\<close>

definition parse_header :: "bool \<Rightarrow> byte list \<Rightarrow> byte list \<Rightarrow> (u32 \<times> u16) option" where
  "parse_header le junk data =
     (if length data < 6 then None
      else let len_be = load32 le (take 4 data);
               cmd_be = load32 le (take 2 (drop 4 data) @ junk)
           in Some (host_htonl le len_be, host_htons le (ucast cmd_be)))"

definition peek_packet_length :: "bool \<Rightarrow> byte list \<Rightarrow> u32" where
  "peek_packet_length le data =
     (if length data < 4 then 0 else host_htonl le (load32 le (take 4 data)))"

definition decode_from :: "bool \<Rightarrow> byte list \<Rightarrow> (proto_packet \<times> nat) option access" where
  "decode_from le data =
     (if length data < 4 then Done None
      else let total_len = peek_packet_length le data in
        if total_len = 0 then Done None
        else if length data < unat total_len then Done None
        else case read_at data 4 2 of
          Out_Of_Bounds \<Rightarrow> Out_Of_Bounds
        | Done cmd_be \<Rightarrow>
            let cmd = host_htons le (load16 le cmd_be);
                data_len = unat (total_len - 6)
            in if 0 < data_len
               then case read_at data 6 data_len of
                 Out_Of_Bounds \<Rightarrow> Out_Of_Bounds
               | Done body \<Rightarrow> Done (Some (\<lparr>p_cmd = cmd, p_data = body\<rparr>, unat total_len))
               else Done (Some (\<lparr>p_cmd = cmd, p_data = []\<rparr>, unat total_len)))"

definition proto_decode :: "bool \<Rightarrow> byte list \<Rightarrow> (proto_packet \<times> nat) option access" where
  "proto_decode le buf = decode_from le buf"

text \<open>Payloads for which the 32-bit length field does not wrap.\<close>

definition encodable :: "proto_packet \<Rightarrow> bool" where
  "encodable pkt \<longleftrightarrow> 6 + length (p_data pkt) < 2 ^ 32"

section \<open>Layout\<close>

lemma proto_packet_eta [simp]: "\<lparr>p_cmd = p_cmd p, p_data = p_data p\<rparr> = p"
  by (cases p) simp

lemma proto_encode_layout [wire]:
  "proto_encode le pkt = be32 (of_nat (6 + length (p_data pkt))) @ be16 (p_cmd pkt) @ p_data pkt"
  by (simp add: proto_encode_def Let_def memcpy_at_def)

lemma length_proto_encode [simp]: "length (proto_encode le pkt) = 6 + length (p_data pkt)"
  by (simp add: wire)

lemma peek_packet_length_be:
  "4 \<le> length bs \<Longrightarrow> peek_packet_length le bs = of_be32 (take 4 bs)"
  by (simp add: peek_packet_length_def)

lemma unat_sub_6: "6 \<le> unat (t :: u32) \<Longrightarrow> unat (t - 6) = unat t - 6"
  by (subst unat_sub) (auto simp: word_le_nat_alt)

text \<open>A complete frame with a valid length field is decoded from its own bytes only.\<close>

lemma decode_from_frame:
  assumes "4 \<le> length bs" "t = of_be32 (take 4 bs)" "6 \<le> unat t" "unat t \<le> length bs"
  shows "decode_from le bs =
    Done (Some (\<lparr>p_cmd = of_be16 (take 2 (drop 4 bs)), p_data = take (unat t - 6) (drop 6 bs)\<rparr>,
      unat t))"
proof -
  have "t \<noteq> 0" using assms(3) by auto
  then show ?thesis
    using assms by (auto simp: decode_from_def peek_packet_length_be read_at_def unat_sub_6 Let_def)
qed

lemma decode_from_short: "length bs < 4 \<Longrightarrow> decode_from le bs = Done None"
  by (simp add: decode_from_def)

lemma decode_from_incomplete:
  "4 \<le> length bs \<Longrightarrow> length bs < unat (of_be32 (take 4 bs)) \<Longrightarrow> decode_from le bs = Done None"
  by (simp add: decode_from_def peek_packet_length_be Let_def)

lemma decode_from_zero:
  "4 \<le> length bs \<Longrightarrow> of_be32 (take 4 bs) = 0 \<Longrightarrow> decode_from le bs = Done None"
  by (simp add: decode_from_def peek_packet_length_be Let_def)

text \<open>A length field of 1 to 5 makes the decoder read outside any buffer below 4 GiB.\<close>

lemma decode_from_underflow:
  assumes "4 \<le> length bs" "t = of_be32 (take 4 bs)" "0 < unat t" "unat t < 6"
    "unat t \<le> length bs" "length bs < 2 ^ 32"
  shows "decode_from le bs = Out_Of_Bounds"
proof -
  have t0: "t \<noteq> 0" using assms(3) by auto
  have "unat (t - 6) = 2 ^ 32 + unat t - 6"
    using assms(3,4) by (subst unat_sub_if') (simp add: word_le_nat_alt)
  then show ?thesis
    using assms t0 by (auto simp: decode_from_def peek_packet_length_be read_at_def Let_def)
qed

section \<open>Round trip\<close>

lemma take4_encode [simp]: "take 4 (proto_encode le pkt) = be32 (of_nat (6 + length (p_data pkt)))"
  by (simp add: wire)

lemma unat_len_field:
  "encodable pkt \<Longrightarrow>
   unat (6 + of_nat (length (p_data pkt)) :: u32) = 6 + length (p_data pkt)"
  using unat_of_nat_u32 [of "6 + length (p_data pkt)"] by (simp add: encodable_def)

lemma decode_from_encode:
  assumes "encodable pkt"
  shows "decode_from le (proto_encode le' pkt @ rest) =
    Done (Some (pkt, length (proto_encode le' pkt)))"
  by (subst decode_from_frame [OF _ refl])
    (simp_all add: unat_len_field [OF assms] wire)

lemma decode_from_strict_prefix:
  assumes "encodable pkt" "k < length (proto_encode le' pkt)"
  shows "decode_from le (take k (proto_encode le' pkt)) = Done None"
proof (cases "k < 4")
  case False
  have "take 4 (take k (proto_encode le' pkt)) = be32 (of_nat (6 + length (p_data pkt)))"
    using False by (simp add: min_def del: of_nat_add)
  then show ?thesis
    using assms(2) False
    by (intro decode_from_incomplete) (simp_all add: unat_len_field [OF assms(1)])
qed (simp add: decode_from_short)

section \<open>Progress and bounds of a successful decode\<close>

lemma decode_from_Some:
  assumes "decode_from le bs = Done (Some (pkt, n))"
  shows "0 < n" "n \<le> length bs" "n = unat (of_be32 (take 4 bs))"
proof -
  from assms have len: "4 \<le> length bs" by (auto simp: decode_from_def split: if_splits)
  define t where "t = of_be32 (take 4 bs)"
  from assms len have "t \<noteq> 0 \<and> unat t \<le> length bs \<and> n = unat t"
    by (auto simp: decode_from_def peek_packet_length_be Let_def t_def
        split: if_splits access.splits)
  then show "0 < n" "n \<le> length bs" "n = unat (of_be32 (take 4 bs))"
    by (auto simp: t_def unat_gt_0)
qed

section \<open>Properties\<close>

text \<open>C12: Whatever follows it in the buffer, an encoded packet is decoded to itself and
  exactly its own bytes are reported as consumed, also between hosts of different
  endianness; every proper prefix of it is reported as incomplete.\<close>

theorem packet_roundtrip:
  assumes "encodable pkt"
  shows "decode_from le (proto_encode le' pkt @ rest) =
           Done (Some (pkt, length (proto_encode le' pkt))) \<and>
         (\<forall>k < length (proto_encode le' pkt).
           decode_from le (take k (proto_encode le' pkt)) = Done None)"
  using decode_from_encode [OF assms] decode_from_strict_prefix [OF assms] by blast

theorem packet_roundtrip_witness:
  "decode_from True (proto_encode False \<lparr>p_cmd = 2, p_data = [1, 2, 3]\<rparr> @ [9]) =
     Done (Some (\<lparr>p_cmd = 2, p_data = [1, 2, 3]\<rparr>, 9)) \<and>
   decode_from True (take 8 (proto_encode False \<lparr>p_cmd = 2, p_data = [1, 2, 3]\<rparr>)) = Done None"
  using packet_roundtrip [of "\<lparr>p_cmd = 2, p_data = [1, 2, 3]\<rparr>" True False "[9]"]
  by (simp add: encodable_def)

text \<open>C39: On every buffer below 4 GiB, \<open>decode_from\<close> reads outside the buffer exactly when
  the length field is between 1 and 5 and not larger than the buffer: no check guards the
  subtraction \<open>total_len - 6\<close> or the read of the command.\<close>

theorem decode_from_out_of_bounds_iff:
  assumes "4 \<le> length bs" "length bs < 2 ^ 32"
  shows "decode_from le bs = Out_Of_Bounds \<longleftrightarrow>
    0 < unat (of_be32 (take 4 bs)) \<and> unat (of_be32 (take 4 bs)) < 6 \<and>
    unat (of_be32 (take 4 bs)) \<le> length bs"
proof -
  define t where "t = unat (of_be32 (take 4 bs))"
  consider "t = 0" | "length bs < t" | "6 \<le> t" "t \<le> length bs" | "0 < t" "t < 6" "t \<le> length bs"
    by linarith
  then show ?thesis
  proof cases
    case 1
    then show ?thesis
      using assms decode_from_zero [of bs le] by (simp add: t_def unat_eq_0)
  next
    case 2
    then show ?thesis using assms decode_from_incomplete [of bs le] by (simp add: t_def)
  next
    case 3
    then show ?thesis using assms decode_from_frame [OF _ refl, of bs le] by (simp add: t_def)
  next
    case 4
    then show ?thesis using assms decode_from_underflow [OF _ refl, of bs le] by (simp add: t_def)
  qed
qed

theorem decode_from_out_of_bounds_iff_witness:
  "decode_from True [0, 0, 0, 5, 0, 2, 0] = Out_Of_Bounds"
  by (subst decode_from_out_of_bounds_iff) simp_all

text \<open>\<open>parse_header\<close> returns the length field on every host and, on a little-endian host,
  the command; on a big-endian host the command it returns is whatever the uninitialised
  half of its local variable holds.\<close>

theorem parse_header_command:
  assumes "6 \<le> length data" "length junk = 2"
  shows "parse_header True junk data = Some (of_be32 (take 4 data), of_be16 (take 2 (drop 4 data))) \<and>
         parse_header False junk data = Some (of_be32 (take 4 data), of_be16 junk)"
proof -
  obtain a b where ab: "take 2 (drop 4 data) = [a, b]"
    using assms(1) length_2_conv [of "take 2 (drop 4 data)"] by auto
  obtain c d where cd: "junk = [c, d]"
    using assms(2) by (auto simp: length_2_conv)
  have le: "host_htons True (ucast (load32 True [a, b, c, d])) = of_be16 [a, b]"
    by (auto simp: host_htons_def bswap16_def be16_def load32_def bit_simps intro!: bit_word_eqI)
  have be: "ucast (load32 False [a, b, c, d]) = of_be16 [c, d]"
    by (auto simp: load32_def bit_simps intro!: bit_word_eqI)
  show ?thesis
    using assms by (simp add: parse_header_def ab cd le) (simp add: host_htons_def be)
qed

theorem parse_header_command_witness:
  "parse_header False [7, 8] [0, 0, 0, 6, 0, 2] = Some (6, 0x0708)"
  using parse_header_command [of "[0, 0, 0, 6, 0, 2]" "[7, 8]"] by simp

end
