(* ===== verification/Router.thy ===== *)
theory Router
  imports Tables Packet
begin

text \<open>
  Class \<open>Router\<close> (\<open>src/business/router/router.h\<close> and \<open>router.cpp\<close>): the table from command
  words to business handlers. A handler runs while \<open>route\<close> holds the router's mutex, which is
  not recursive: what a handler does to the router itself is given by \<open>calls_back\<close>, and a
  handler that calls back never returns (\<open>Deadlock\<close>).
\<close>

section \<open>State and operations\<close>

record 'h router =
  r_handlers :: "(u16, 'h) umap"

datatype 'a locked = Finished 'a | Deadlock

definition Router_new :: "'h router" where
  "Router_new = \<lparr>r_handlers = []\<rparr>"

definition router_reg :: "u16 \<Rightarrow> 'h \<Rightarrow> 'h router \<Rightarrow> 'h router" where
  "router_reg cmd h r = r\<lparr>r_handlers := um_set cmd h (r_handlers r)\<rparr>"

definition router_unreg :: "u16 \<Rightarrow> 'h router \<Rightarrow> 'h router" where
  "router_unreg cmd r = r\<lparr>r_handlers := um_erase cmd (r_handlers r)\<rparr>"

text \<open>The calls of business handlers that one \<open>route\<close> makes.\<close>

definition route :: "('h \<Rightarrow> bool) \<Rightarrow> int \<Rightarrow> proto_packet \<Rightarrow> 'h router \<Rightarrow> ('h \<times> int \<times> byte list) list locked" where
  "route calls_back session_id pkt r =
     (case um_find (r_handlers r) (p_cmd pkt) of
        None \<Rightarrow> Finished []
      | Some h \<Rightarrow> if calls_back h then Deadlock else Finished [(h, session_id, p_data pkt)])"

definition router_has :: "u16 \<Rightarrow> 'h router \<Rightarrow> bool" where
  "router_has cmd r \<longleftrightarrow> um_find (r_handlers r) cmd \<noteq> None"

section \<open>The router as a registry\<close>

interpretation rt: handler_table "\<lambda>r. um_find (r_handlers r)" router_reg router_unreg
  by unfold_locales (simp_all add: router_reg_def router_unreg_def)

text \<open>
  After any history of registrations, a packet is handed to the handler that was
  registered last for its command, exactly once and with the packet's session and data, and
  to nobody when the command was never registered or unregistered since. The router locks up
  exactly when that handler calls back into it.
\<close>

theorem route_last_registered:
  "route calls_back sid pkt (replay router_reg router_unreg ops Router_new) =
    (case settled (p_cmd pkt) None ops of
       None \<Rightarrow> Finished []
     | Some h \<Rightarrow> if calls_back h then Deadlock else Finished [(h, sid, p_data pkt)])"
  by (simp add: route_def rt.find_replay Router_new_def)

lemma router_has_settled:
  "router_has cmd (replay router_reg router_unreg ops Router_new) \<longleftrightarrow> settled cmd None ops \<noteq> None"
  by (simp add: router_has_def rt.find_replay Router_new_def)

end
