(* ===== verification/Locks.thy ===== *)
theory Locks
  imports Prelude
begin

text \<open>
  Classes \<open>LockGuard\<close> (\<open>src/base/lock/mutex.h\<close>) and \<open>ConditionVariable\<close>
  (\<open>src/base/lock/condition.h\<close>), with the semantics of \<open>std::mutex\<close> and
  \<open>std::condition_variable\<close> that they wrap. Threads run programs whose statements are scopes with a
  guard and notifications; the body of a scope is a list of single memory accesses and of calls
  of the condition variable, and the steps of all threads interleave. The theorems justify
  the other theories, which treat a scope under a mutex as one step.
\<close>

section \<open>Programs and states\<close>

text \<open>
  \<open>Relock\<close> is a second guard for the mutex that the thread holds already. \<open>Wait_Once\<close> and
  \<open>Wait_Until\<close> are the two overloads of \<open>wait\<close>.
\<close>

datatype 's action =
    Act "'s \<Rightarrow> 's"
  | Wait_Once
  | Wait_Until "'s \<Rightarrow> bool"
  | Notify bool
  | Relock

datatype 's stmt = Guarded "'s action list" | Signal bool

text \<open>
  What a thread is about to do: outside every scope, inside one with the rest of its body,
  asleep on the condition variable, or woken and in need of the mutex.
\<close>

datatype 's thread =
    Outside "'s stmt list"
  | Inside "'s action list" "'s stmt list"
  | Asleep "'s action list" "'s stmt list"
  | Woken "'s action list" "'s stmt list"

record 's lock_state =
  owner :: "nat option"
  shared :: 's
  threads :: "nat \<Rightarrow> 's thread"

definition lock_init :: "(nat \<Rightarrow> 's stmt list) \<Rightarrow> 's \<Rightarrow> 's lock_state" where
  "lock_init ps x = \<lparr>owner = None, shared = x, threads = (\<lambda>t. Outside (ps t))\<rparr>"

section \<open>Operations\<close>

text \<open>The constructor of the guard blocks (\<open>None\<close>) while the mutex has an owner.\<close>

definition guard_lock :: "nat \<Rightarrow> 's lock_state \<Rightarrow> 's lock_state option" where
  "guard_lock t s = (case owner s of None \<Rightarrow> Some (s\<lparr>owner := Some t\<rparr>) | Some _ \<Rightarrow> None)"

definition guard_unlock :: "'s lock_state \<Rightarrow> 's lock_state" where
  "guard_unlock s = s\<lparr>owner := None\<rparr>"

definition set_thread :: "nat \<Rightarrow> 's thread \<Rightarrow> 's lock_state \<Rightarrow> 's lock_state" where
  "set_thread t th s = s\<lparr>threads := (threads s)(t := th)\<rparr>"

text \<open>\<open>cv_.wait(lock)\<close> gives up the mutex and falls asleep in one step.\<close>

definition cv_sleep :: "nat \<Rightarrow> 's action list \<Rightarrow> 's stmt list \<Rightarrow> 's lock_state \<Rightarrow> 's lock_state" where
  "cv_sleep t as p s = set_thread t (Asleep as p) (guard_unlock s)"

fun wake_thread :: "'s thread \<Rightarrow> 's thread" where
  "wake_thread (Asleep as p) = Woken as p"
| "wake_thread th = th"

definition sleepers :: "'s lock_state \<Rightarrow> nat set" where
  "sleepers s = {t. \<exists>as p. threads s t = Asleep as p}"

definition cv_wake :: "nat set \<Rightarrow> 's lock_state \<Rightarrow> 's lock_state" where
  "cv_wake K s = s\<lparr>threads := (\<lambda>t. if t \<in> K then wake_thread (threads s t) else threads s t)\<rparr>"

text \<open>
  The threads that \<open>notify_one\<close> (\<open>all\<close> false) or \<open>notify_all\<close> may wake: one sleeper if there is any,
  or all of them.
\<close>

definition notifies :: "bool \<Rightarrow> nat set \<Rightarrow> 's lock_state \<Rightarrow> bool" where
  "notifies all K s \<longleftrightarrow>
     (if all \<or> sleepers s = {} then K = sleepers s else (\<exists>k\<in>sleepers s. K = {k}))"

inductive lock_step :: "nat \<Rightarrow> 's lock_state \<Rightarrow> 's lock_state \<Rightarrow> bool" for t s where
  enter: "threads s t = Outside (Guarded as # p) \<Longrightarrow> guard_lock t s = Some s' \<Longrightarrow>
    lock_step t s (set_thread t (Inside as p) s')"
| act: "threads s t = Inside (Act f # as) p \<Longrightarrow>
    lock_step t s (set_thread t (Inside as p) (s\<lparr>shared := f (shared s)\<rparr>))"
| leave: "threads s t = Inside [] p \<Longrightarrow> lock_step t s (set_thread t (Outside p) (guard_unlock s))"
| wait_once: "threads s t = Inside (Wait_Once # as) p \<Longrightarrow> lock_step t s (cv_sleep t as p s)"
| wait_pass: "threads s t = Inside (Wait_Until c # as) p \<Longrightarrow> c (shared s) \<Longrightarrow>
    lock_step t s (set_thread t (Inside as p) s)"
| wait_sleep: "threads s t = Inside (Wait_Until c # as) p \<Longrightarrow> \<not> c (shared s) \<Longrightarrow>
    lock_step t s (cv_sleep t (Wait_Until c # as) p s)"
| wake_up: "threads s t = Asleep as p \<Longrightarrow> lock_step t s (cv_wake {t} s)"
| regain: "threads s t = Woken as p \<Longrightarrow> guard_lock t s = Some s' \<Longrightarrow>
    lock_step t s (set_thread t (Inside as p) s')"
| notify: "threads s t = Inside (Notify all # as) p \<Longrightarrow> notifies all K s \<Longrightarrow>
    lock_step t s (cv_wake K (set_thread t (Inside as p) s))"
| signal: "threads s t = Outside (Signal all # p) \<Longrightarrow> notifies all K s \<Longrightarrow>
    lock_step t s (cv_wake K (set_thread t (Outside p) s))"

inductive_cases lock_stepE: "lock_step t s s'"

inductive lock_reach :: "(nat \<Rightarrow> 's stmt list) \<Rightarrow> 's \<Rightarrow> nat \<Rightarrow> 's lock_state \<Rightarrow> bool" for ps x where
  init: "lock_reach ps x 0 (lock_init ps x)"
| step: "lock_reach ps x n s \<Longrightarrow> lock_step t s s' \<Longrightarrow> lock_reach ps x (Suc n) s'"

lemmas lock_simps = guard_lock_def guard_unlock_def set_thread_def cv_sleep_def

section \<open>Mutual exclusion\<close>

definition inside :: "'s thread \<Rightarrow> bool" where
  "inside th \<longleftrightarrow> (\<exists>as p. th = Inside as p)"

lemma inside_simps [simp]:
  "\<not> inside (Outside p)" "inside (Inside as p)" "\<not> inside (Asleep as p)" "\<not> inside (Woken as p)"
  "inside (wake_thread th) = inside th"
  by (auto simp: inside_def) (cases th; auto)+

definition exclusive :: "'s lock_state \<Rightarrow> bool" where
  "exclusive s \<longleftrightarrow> (\<forall>t. inside (threads s t) \<longleftrightarrow> owner s = Some t)"

lemma guard_wake_simps [simp]:
  "owner (cv_wake K s) = owner s" "shared (cv_wake K s) = shared s"
  "inside (threads (cv_wake K s) t) = inside (threads s t)"
  by (simp_all add: cv_wake_def)

lemma insideI: "threads s t = Inside as p \<Longrightarrow> inside (threads s t)"
  by simp

lemma not_insideI: "threads s t = Outside p \<Longrightarrow> \<not> inside (threads s t)"
  by simp

lemma exclusive_step: "lock_step t s s' \<Longrightarrow> exclusive s \<Longrightarrow> exclusive s'"
  by (erule lock_stepE)
    (auto simp: exclusive_def lock_simps split: option.splits if_splits dest: insideI not_insideI)

lemma exclusive_reach: "lock_reach ps x n s \<Longrightarrow> exclusive s"
proof (induction rule: lock_reach.induct)
  case init
  show ?case by (simp add: exclusive_def lock_init_def)
qed (rule exclusive_step)

section \<open>Programs that do not wait\<close>

text \<open>
  A scope is plain if its body only accesses memory and notifies; \<open>acts\<close> are its accesses
  and \<open>bodies\<close> those of the scopes of a program.
\<close>

fun plain_action :: "'s action \<Rightarrow> bool" where
  "plain_action (Act f) = True"
| "plain_action (Notify all) = True"
| "plain_action _ = False"

fun acts :: "'s action list \<Rightarrow> ('s \<Rightarrow> 's) list" where
  "acts [] = []"
| "acts (Act f # as) = f # acts as"
| "acts (_ # as) = acts as"

fun plain :: "'s stmt list \<Rightarrow> bool" where
  "plain [] = True"
| "plain (Guarded as # p) = (list_all plain_action as \<and> plain p)"
| "plain (Signal all # p) = plain p"

fun bodies :: "'s stmt list \<Rightarrow> ('s \<Rightarrow> 's) list list" where
  "bodies [] = []"
| "bodies (Guarded as # p) = acts as # bodies p"
| "bodies (Signal all # p) = bodies p"

definition run_acts :: "('s \<Rightarrow> 's) list \<Rightarrow> 's \<Rightarrow> 's" where
  "run_acts fs x = fold (\<lambda>f. f) fs x"

text \<open>A serial execution: whole bodies, each with the thread that it belongs to.\<close>

definition run_serial :: "(nat \<times> ('s \<Rightarrow> 's) list) list \<Rightarrow> 's \<Rightarrow> 's" where
  "run_serial h x = fold (\<lambda>(t, fs). run_acts fs) h x"

definition of_thread :: "nat \<Rightarrow> (nat \<times> 'a) list \<Rightarrow> 'a list" where
  "of_thread t h = map snd (filter (\<lambda>u. fst u = t) h)"

lemma run_acts_simps [simp]:
  "run_acts [] x = x" "run_acts (fs @ gs) x = run_acts gs (run_acts fs x)" "run_acts [f] x = f x"
  by (simp_all add: run_acts_def)

lemma run_serial_simps [simp]:
  "run_serial [] x = x" "run_serial (h @ [(t, fs)]) x = run_acts fs (run_serial h x)"
  by (simp_all add: run_serial_def)

lemma of_thread_simps [simp]:
  "of_thread t [] = []" "of_thread t (h @ [(u, y)]) = of_thread t h @ (if u = t then [y] else [])"
  by (simp_all add: of_thread_def)

text \<open>
  The bodies a thread has still to complete, the first of them with the accesses \<open>fs\<close> that it has
  made already.
\<close>

fun pending :: "('s \<Rightarrow> 's) list \<Rightarrow> 's thread \<Rightarrow> ('s \<Rightarrow> 's) list list" where
  "pending fs (Outside p) = bodies p"
| "pending fs (Inside as p) = (fs @ acts as) # bodies p"
| "pending fs (Asleep as p) = (fs @ acts as) # bodies p"
| "pending fs (Woken as p) = (fs @ acts as) # bodies p"

fun plain_thread :: "'s thread \<Rightarrow> bool" where
  "plain_thread (Outside p) = plain p"
| "plain_thread (Inside as p) = (list_all plain_action as \<and> plain p)"
| "plain_thread _ = False"

text \<open>
  The state of the shared object: the bodies \<open>h\<close> completed so far, one after the other, then the
  accesses \<open>fs\<close> of the owner.
\<close>

definition serial_upto :: "(nat \<Rightarrow> 's stmt list) \<Rightarrow> 's \<Rightarrow> (nat \<times> ('s \<Rightarrow> 's) list) list \<Rightarrow> ('s \<Rightarrow> 's) list \<Rightarrow>
    's lock_state \<Rightarrow> bool" where
  "serial_upto ps x h fs s \<longleftrightarrow> exclusive s \<and> (\<forall>t. plain_thread (threads s t)) \<and>
     shared s = run_acts fs (run_serial h x) \<and> (owner s = None \<longrightarrow> fs = []) \<and>
     (\<forall>t. of_thread t h @ pending fs (threads s t) = bodies (ps t))"

lemma plain_not_asleep: "\<forall>t. plain_thread (threads s t) \<Longrightarrow> sleepers s = {}"
  unfolding sleepers_def by (simp, metis plain_thread.simps(3))

lemma wake_none [simp]: "cv_wake {} s = s"
  by (simp add: cv_wake_def)

lemma pending_outside: "\<not> inside th \<Longrightarrow> plain_thread th \<Longrightarrow> pending fs th = pending gs th"
  by (cases th) auto

text \<open>The obligations that one step of thread \<open>t\<close> leaves: its own and the shared state.\<close>

lemma serial_uptoI:
  assumes "serial_upto ps x h fs s" "lock_step t s s'" "plain_thread th"
    and "threads s' = (threads s)(t := th)" "shared s' = run_acts fs' (run_serial h' x)"
    and "owner s' = None \<longrightarrow> fs' = []" "of_thread t h' @ pending fs' th = bodies (ps t)"
    and "\<And>u. u \<noteq> t \<Longrightarrow> of_thread u h' = of_thread u h \<and> (fs' = fs \<or> \<not> inside (threads s u))"
  shows "serial_upto ps x h' fs' s'"
  unfolding serial_upto_def
proof (intro conjI allI)
  show "exclusive s'" using assms(1,2) exclusive_step by (auto simp: serial_upto_def)
  show "plain_thread (threads s' u)" for u using assms(1,3,4) by (simp add: serial_upto_def)
  show "of_thread u h' @ pending fs' (threads s' u) = bodies (ps u)" for u
  proof (cases "u = t")
    case False
    then have "pending fs' (threads s u) = pending fs (threads s u)"
      using assms(1,8) pending_outside by (metis serial_upto_def)
    then show ?thesis using assms(1,4,8) False by (simp add: serial_upto_def)
  qed (simp add: assms(4,7))
qed (use assms(5,6) in auto)

lemma serial_upto_step:
  assumes "serial_upto ps x h fs s" "lock_step t s s'"
  shows "\<exists>h' fs'. serial_upto ps x h' fs' s'"
proof -
  have t: "plain_thread (threads s t)" "of_thread t h @ pending fs (threads s t) = bodies (ps t)"
    "shared s = run_acts fs (run_serial h x)" "owner s = None \<Longrightarrow> fs = []" "sleepers s = {}"
    "\<And>u. inside (threads s u) \<longleftrightarrow> owner s = Some u"
    using assms(1) plain_not_asleep by (auto simp: serial_upto_def exclusive_def)
  note I = serial_uptoI [OF assms]
  from assms(2) show ?thesis
  proof cases
    case (enter as p s1)
    with t have "fs = []" "s1 = s\<lparr>owner := Some t\<rparr>" by (auto simp: guard_lock_def split: option.splits)
    with enter t show ?thesis by (intro exI [of _ h] exI [of _ "[]"] I) (auto simp: lock_simps)
  next
    case (act f as p)
    with t have "owner s = Some t" by (metis inside_simps(2))
    with act t show ?thesis by (intro exI [of _ h] exI [of _ "fs @ [f]"] I) (auto simp: lock_simps)
  next
    case (leave p)
    with t have "owner s = Some t" by (metis inside_simps(2))
    with leave t show ?thesis by (intro exI [of _ "h @ [(t, fs)]"] exI [of _ "[]"] I) (auto simp: lock_simps)
  next
    case (notify all as p K)
    then have "K = {}" using t(5) by (simp add: notifies_def)
    with notify t show ?thesis by (intro exI [of _ h] exI [of _ fs] I) (auto simp: lock_simps)
  next
    case (signal all p K)
    then have "K = {}" using t(5) by (simp add: notifies_def)
    with signal t show ?thesis by (intro exI [of _ h] exI [of _ fs] I) (auto simp: lock_simps)
  qed (use t(1) in auto)
qed

lemma serial_upto_reach:
  assumes "lock_reach ps x n s" "\<And>t. plain (ps t)"
  shows "\<exists>h fs. serial_upto ps x h fs s"
  using assms(1)
proof induction
  case init
  have "serial_upto ps x [] [] (lock_init ps x)"
    by (simp add: serial_upto_def exclusive_def lock_init_def assms(2))
  then show ?case by blast
next
  case (step n s t s')
  then obtain h fs where "serial_upto ps x h fs s" by blast
  from serial_upto_step [OF this step.hyps(2)] show ?case .
qed

section \<open>Progress\<close>

fun stmt_work :: "'s stmt \<Rightarrow> nat" where
  "stmt_work (Guarded as) = 2 + length as"
| "stmt_work (Signal all) = 1"

lemma stmt_work_pos [simp]: "0 < stmt_work st" "stmt_work st \<noteq> 0"
  by (cases st; simp)+

fun thread_work :: "'s thread \<Rightarrow> nat" where
  "thread_work (Outside p) = sum_list (map stmt_work p)"
| "thread_work (Inside as p) = 1 + length as + sum_list (map stmt_work p)"
| "thread_work (Asleep as p) = 0"
| "thread_work (Woken as p) = 0"

definition lock_work :: "nat \<Rightarrow> 's lock_state \<Rightarrow> nat" where
  "lock_work m s = (\<Sum>t<m. thread_work (threads s t))"

lemma thread_work_step:
  assumes "serial_upto ps x h fs s" "lock_step t s s'"
  shows "\<exists>th. threads s' = (threads s)(t := th) \<and> thread_work (threads s t) = Suc (thread_work th)"
proof -
  have t: "plain_thread (threads s t)" "sleepers s = {}"
    using assms(1) plain_not_asleep by (auto simp: serial_upto_def)
  from assms(2) show ?thesis
    using t by cases (auto simp: lock_simps notifies_def split: option.splits)
qed

lemma idle_threads_reach:
  assumes "lock_reach ps x n s" "\<And>t. m \<le> t \<Longrightarrow> ps t = []" "m \<le> t"
  shows "threads s t = Outside []"
  using assms(1)
proof induction
  case (step n s u s')
  show ?case
  proof (cases "u = t")
    case True
    with step show ?thesis by (auto elim: lock_stepE)
  next
    case False
    with step.hyps(2) step.IH show ?thesis
      by (elim lock_stepE) (auto simp: lock_simps cv_wake_def split: option.splits)
  qed
qed (simp add: lock_init_def assms(2,3))

lemma lock_work_step:
  assumes "serial_upto ps x h fs s" "lock_step t s s'" "\<And>t. m \<le> t \<Longrightarrow> threads s t = Outside []"
  shows "lock_work m s = Suc (lock_work m s')"
proof -
  obtain th where th: "threads s' = (threads s)(t := th)" "thread_work (threads s t) = Suc (thread_work th)"
    using thread_work_step [OF assms(1,2)] by blast
  have "t < m" using assms(3) [of t] th(2) by (cases "m \<le> t") auto
  then have "lock_work m s = thread_work (threads s t) + (\<Sum>u\<in>{..<m} - {t}. thread_work (threads s u))"
    "lock_work m s' = thread_work th + (\<Sum>u\<in>{..<m} - {t}. thread_work (threads s u))"
    by (simp_all add: lock_work_def th(1) sum.remove [where x = t])
  then show ?thesis using th(2) by simp
qed

lemma lock_work_reach:
  assumes "lock_reach ps x n s" "\<And>t. plain (ps t)" "\<And>t. m \<le> t \<Longrightarrow> ps t = []"
  shows "n + lock_work m s = lock_work m (lock_init ps x)"
  using assms(1)
proof induction
  case (step n s t s')
  obtain h fs where "serial_upto ps x h fs s" using serial_upto_reach [OF step.hyps(1) assms(2)] by blast
  from lock_work_step [OF this step.hyps(2), of m] idle_threads_reach [OF step.hyps(1) assms(3)] step.IH
  show ?case by simp
qed simp

text \<open>A thread inside a plain scope can always take its next step, and one outside can if the mutex is free.\<close>

lemma plain_inside_steps:
  assumes "threads s t = Inside as p" "list_all plain_action as" "sleepers s = {}"
  shows "\<exists>s'. lock_step t s s'"
proof (cases as)
  case Nil
  then show ?thesis using assms(1) lock_step.leave by blast
next
  case (Cons a as')
  then show ?thesis
  proof (cases a)
    case (Notify all)
    have "notifies all {} s" using assms(3) by (simp add: notifies_def)
    with Notify Cons assms(1) show ?thesis using lock_step.notify by blast
  next
    case (Act f)
    with Cons assms(1) show ?thesis using lock_step.act by blast
  qed (use assms(2) Cons in auto)
qed

lemma plain_outside_steps:
  assumes "threads s t = Outside (st # p)" "owner s = None" "sleepers s = {}"
  shows "\<exists>s'. lock_step t s s'"
proof (cases st)
  case (Guarded as)
  have "guard_lock t s = Some (s\<lparr>owner := Some t\<rparr>)" using assms(2) by (simp add: guard_lock_def)
  with Guarded assms(1) show ?thesis using lock_step.enter by blast
next
  case (Signal all)
  have "notifies all {} s" using assms(3) by (simp add: notifies_def)
  with Signal assms(1) show ?thesis using lock_step.signal by blast
qed

lemma serial_progress:
  assumes "serial_upto ps x h fs s" "0 < lock_work m s"
  shows "\<exists>t s'. lock_step t s s'"
proof -
  have s: "\<And>t. plain_thread (threads s t)" "sleepers s = {}" "\<And>u. inside (threads s u) \<longleftrightarrow> owner s = Some u"
    using assms(1) plain_not_asleep by (auto simp: serial_upto_def exclusive_def)
  show ?thesis
  proof (cases "owner s")
    case (Some t)
    then obtain as p where "threads s t = Inside as p" using s(3) [of t] by (auto simp: inside_def)
    then show ?thesis using plain_inside_steps [of s t as p] s(1) [of t] s(2) by auto
  next
    case None
    obtain t where t: "0 < thread_work (threads s t)"
      using assms(2) by (metis (no_types, lifting) lock_work_def sum.neutral not_gr_zero)
    then obtain st p where "threads s t = Outside (st # p)"
      using s(1) [of t] s(3) [of t] None by (cases "threads s t"; simp) (metis list.exhaust list.map(1) sum_list.Nil less_irrefl)
    then show ?thesis using plain_outside_steps None s(2) by blast
  qed
qed

text \<open>A scope that runs without interruption.\<close>

lemma inside_runs:
  "lock_reach ps x n s \<Longrightarrow> threads s t = Inside (map Act fs) p \<Longrightarrow>
   lock_reach ps x (n + length fs) (s\<lparr>shared := run_acts fs (shared s), threads := (threads s)(t := Inside [] p)\<rparr>)"
proof (induction fs arbitrary: n s)
  case Nil
  then have "(threads s)(t := Inside [] p) = threads s" by (metis fun_upd_triv list.simps(8))
  with Nil show ?case by simp
next
  case (Cons f fs)
  let ?s = "set_thread t (Inside (map Act fs) p) (s\<lparr>shared := f (shared s)\<rparr>)"
  have "lock_step t s ?s" using Cons.prems(2) by (intro lock_step.act) simp
  from Cons.IH [OF lock_reach.step [OF Cons.prems(1) this]] show ?case
    by (simp add: set_thread_def run_acts_def cong: if_cong)
qed

lemma scope_runs:
  assumes "lock_reach ps x n s" "owner s = None" "threads s t = Outside (Guarded (map Act fs) # p)"
  shows "lock_reach ps x (n + length fs + 2)
    (s\<lparr>shared := run_acts fs (shared s), threads := (threads s)(t := Outside p)\<rparr>)"
proof -
  let ?s = "set_thread t (Inside (map Act fs) p) (s\<lparr>owner := Some t\<rparr>)"
  have "lock_step t s ?s" using assms(2,3) by (intro lock_step.enter) (simp_all add: guard_lock_def)
  from inside_runs [OF lock_reach.step [OF assms(1) this], of t fs p]
  have "lock_reach ps x (Suc n + length fs) (?s\<lparr>shared := run_acts fs (shared s), threads := (threads ?s)(t := Inside [] p)\<rparr>)"
    (is "lock_reach _ _ _ ?r") by (simp add: set_thread_def)
  moreover have "lock_step t ?r (set_thread t (Outside p) (guard_unlock ?r))" by (intro lock_step.leave) simp
  ultimately have "lock_reach ps x (Suc (Suc n + length fs)) (set_thread t (Outside p) (guard_unlock ?r))" by (rule lock_reach.step)
  moreover have "set_thread t (Outside p) (guard_unlock ?r) = s\<lparr>shared := run_acts fs (shared s), threads := (threads s)(t := Outside p)\<rparr>"
    using assms(2) by (cases s) (simp add: set_thread_def guard_unlock_def)
  ultimately show ?thesis by simp
qed

section \<open>Objects with guarded operations\<close>

text \<open>A history of bodies that come from operations is a history of operations.\<close>

lemma history_lift:
  assumes "\<And>t. of_thread t h @ r t = map g (q t)"
  shows "\<exists>h'. h = map (apsnd g) h' \<and> (\<forall>t. of_thread t h' @ drop (length (of_thread t h)) (q t) = q t)"
  using assms
proof (induction h arbitrary: r rule: rev_induct)
  case Nil
  then show ?case by (auto intro: exI [of _ "[]"])
next
  case (snoc y h)
  obtain u b where y: "y = (u, b)" by fastforce
  have "of_thread t h @ (if t = u then b # r t else r t) = map g (q t)" for t
    using snoc.prems [of t] by (auto simp: y)
  from snoc.IH [OF this] obtain h' where
    h': "h = map (apsnd g) h'" "\<And>t. of_thread t h' @ drop (length (of_thread t h)) (q t) = q t" by blast
  let ?k = "length (of_thread u h)"
  have m: "map g (q u) = of_thread u h @ b # r u" using snoc.prems [of u] by (simp add: y)
  then have k: "?k < length (q u)" by (metis add_Suc_right length_Cons length_append length_map less_add_Suc1)
  then have "g (q u ! ?k) = b" using m by (metis nth_append_length nth_map)
  moreover have "drop ?k (q u) = q u ! ?k # drop (Suc ?k) (q u)" using k by (simp add: Cons_nth_drop_Suc)
  ultimately show ?case
    using h'(1) h'(2) [of u] h'(2)
    by (intro exI [of _ "h' @ [(u, q u ! ?k)]"]) (auto simp: y)
qed

text \<open>What a thread has left is the end of its program.\<close>

fun left_of :: "'s thread \<Rightarrow> 's stmt list" where
  "left_of (Outside p) = p"
| "left_of (Inside as p) = p"
| "left_of (Asleep as p) = p"
| "left_of (Woken as p) = p"

lemma left_of_wake [simp]: "left_of (wake_thread th) = left_of th" "left_of (threads (cv_wake K s) t) = left_of (threads s t)"
  by (cases th; simp) (cases "threads s t"; simp add: cv_wake_def)

lemma left_of_step: "lock_step u s s' \<Longrightarrow> \<exists>k. left_of (threads s' t) = drop k (left_of (threads s t))"
proof (cases "u = t")
  case True
  assume "lock_step u s s'"
  then have "left_of (threads s' t) = drop 0 (left_of (threads s t)) \<or> left_of (threads s' t) = drop 1 (left_of (threads s t))"
    using True by cases (auto simp: lock_simps split: option.splits)
  then show ?thesis by blast
next
  case False
  assume "lock_step u s s'"
  then have "left_of (threads s' t) = drop 0 (left_of (threads s t))"
    using False by cases (auto simp: lock_simps split: option.splits)
  then show ?thesis by blast
qed

lemma left_of_reach: "lock_reach ps x n s \<Longrightarrow> \<exists>k. left_of (threads s t) = drop k (ps t)"
proof (induction rule: lock_reach.induct)
  case init
  show ?case by (auto simp: lock_init_def intro: exI [of _ 0])
next
  case (step n s u s')
  then show ?case using left_of_step [OF step.hyps(2), of t] by (auto simp: drop_drop)
qed

text \<open>
  The interface of a class whose operations each hold the mutex from beginning to end: the
  body of an operation is a list of single accesses that together do what it does.
\<close>

locale guarded_object =
  fixes apply_op :: "'op \<Rightarrow> 's \<Rightarrow> 's"
    and body :: "'op \<Rightarrow> 's action list"
  assumes body_plain: "list_all plain_action (body op)"
    and body_run: "run_acts (acts (body op)) x = apply_op op x"
begin

lemma program_plain: "plain (map (Guarded \<circ> body) ops)"
  by (induction ops) (simp_all add: body_plain)

lemma program_bodies: "bodies (map (Guarded \<circ> body) ops) = map (acts \<circ> body) ops"
  by (induction ops) simp_all

lemma serial_ops: "run_serial (map (apsnd (acts \<circ> body)) h) x = fold apply_op (map snd h) x"
  by (induction h arbitrary: x) (auto simp: run_serial_def body_run)

lemma serializes:
  assumes "lock_reach (\<lambda>t. map (Guarded \<circ> body) (q t)) x n s" "owner s = None"
  shows "\<exists>h. shared s = fold apply_op (map snd h) x \<and>
    (\<forall>t. \<exists>todo. q t = of_thread t h @ todo \<and> threads s t = Outside (map (Guarded \<circ> body) todo))"
proof -
  obtain h fs where h: "serial_upto (\<lambda>t. map (Guarded \<circ> body) (q t)) x h fs s"
    using serial_upto_reach [OF assms(1) program_plain] by blast
  then have fs: "fs = []" "shared s = run_serial h x" using assms(2) by (simp_all add: serial_upto_def)
  have p: "of_thread t h @ pending [] (threads s t) = map (acts \<circ> body) (q t)" for t
    using h fs(1) by (simp add: serial_upto_def program_bodies)
  from history_lift [OF this] obtain h' where
    h': "h = map (apsnd (acts \<circ> body)) h'" "\<And>t. of_thread t h' @ drop (length (of_thread t h)) (q t) = q t" by blast
  have "threads s t = Outside (map (Guarded \<circ> body) (drop (length (of_thread t h)) (q t)))" for t
  proof -
    have "\<not> inside (threads s t)" "plain_thread (threads s t)"
      using h assms(2) by (auto simp: serial_upto_def exclusive_def)
    then obtain l where l: "threads s t = Outside l" by (metis inside_simps(2) plain_thread.elims(2))
    moreover obtain k where "left_of (threads s t) = drop k (map (Guarded \<circ> body) (q t))"
      using left_of_reach [OF assms(1), of t] by blast
    ultimately have k: "l = map (Guarded \<circ> body) (drop k (q t))" by (simp add: drop_map)
    have "length (of_thread t h) + length (drop k (q t)) = length (q t)"
      using arg_cong [OF p [of t], of length] by (simp add: l k program_bodies)
    then have "k = length (of_thread t h) \<or> length (q t) \<le> k \<and> length (q t) \<le> length (of_thread t h)"
      by (simp, linarith)
    then have "drop k (q t) = drop (length (of_thread t h)) (q t)" by auto
    then show ?thesis using l k by simp
  qed
  moreover have "shared s = fold apply_op (map snd h') x" using fs(2) h'(1) serial_ops by simp
  ultimately show ?thesis using h'(2) by (intro exI [of _ h']) metis
qed

end

section \<open>Deadlock\<close>

text \<open>A thread that takes the mutex it holds keeps it, and nobody else gets it.\<close>

definition relocking :: "nat \<Rightarrow> 's lock_state \<Rightarrow> bool" where
  "relocking t s \<longleftrightarrow> exclusive s \<and> (\<exists>as p. threads s t = Inside (Relock # as) p)"

lemma relocking_step: "lock_step u s s' \<Longrightarrow> relocking t s \<Longrightarrow> relocking t s' \<and> u \<noteq> t \<and> shared s' = shared s"
proof -
  assume st: "lock_step u s s'" and r: "relocking t s"
  then have ne: "u \<noteq> t" by (auto simp: relocking_def elim: lock_stepE)
  have o: "owner s = Some t" "\<not> inside (threads s u)"
    using r ne by (auto simp: relocking_def exclusive_def dest: insideI)
  have "shared s' = shared s \<and> (\<exists>as p. threads s' t = Inside (Relock # as) p)"
    using st r ne o by (elim lock_stepE) (auto simp: relocking_def lock_simps cv_wake_def)
  then show ?thesis using exclusive_step [OF st] r ne by (simp add: relocking_def)
qed

lemma relock_blocks:
  assumes "lock_reach ps x n s" "threads s t = Inside (Relock # as) p" "(\<lambda>s s'. \<exists>u. lock_step u s s')\<^sup>*\<^sup>* s s'"
  shows "owner s' = Some t \<and> threads s' t = threads s t \<and> shared s' = shared s \<and> \<not> lock_step t s' s''"
proof -
  have r: "relocking t s" using exclusive_reach [OF assms(1)] assms(2) by (simp add: relocking_def)
  from assms(3) have "relocking t s' \<and> shared s' = shared s \<and> threads s' t = threads s t"
  proof induction
    case (step y z)
    then obtain u where u: "lock_step u y z" by blast
    from relocking_step [OF this, of t] step.IH have "u \<noteq> t" "relocking t z" "shared z = shared y" by auto
    moreover from u this(1) step.IH assms(2) have "threads z t = threads y t"
      by (elim lock_stepE) (auto simp: lock_simps cv_wake_def split: option.splits)
    ultimately show ?case using step.IH by simp
  qed (simp add: r)
  then show ?thesis by (auto simp: relocking_def exclusive_def dest: insideI relocking_step [where t = t])
qed

lemma plain_threads_finish:
  assumes "\<And>t. plain (ps t)" "\<And>t. m \<le> t \<Longrightarrow> ps t = []" "lock_reach ps x n s"
  shows "n \<le> lock_work m (lock_init ps x) \<and>
    (n < lock_work m (lock_init ps x) \<longrightarrow> (\<exists>t s'. lock_step t s s')) \<and>
    (n = lock_work m (lock_init ps x) \<longrightarrow> owner s = None \<and> (\<forall>t. threads s t = Outside []) \<and>
       (\<exists>h. shared s = run_serial h x \<and> (\<forall>t. of_thread t h = bodies (ps t))))"
proof -
  obtain h fs where h: "serial_upto ps x h fs s" using serial_upto_reach [OF assms(3,1)] by blast
  have w: "n + lock_work m s = lock_work m (lock_init ps x)" by (rule lock_work_reach [OF assms(3,1,2)])
  have idle: "m \<le> t \<Longrightarrow> threads s t = Outside []" for t by (rule idle_threads_reach [OF assms(3,2)])
  have "owner s = None \<and> (\<forall>t. threads s t = Outside []) \<and>
       (\<exists>h. shared s = run_serial h x \<and> (\<forall>t. of_thread t h = bodies (ps t)))" if "lock_work m s = 0"
  proof -
    have z: "thread_work (threads s t) = 0" for t
      using that idle [of t] by (cases "t < m") (auto simp: lock_work_def)
    have p: "plain_thread (threads s t)" for t using h by (simp add: serial_upto_def)
    have out: "threads s t = Outside []" for t
    proof (cases "threads s t")
      case (Outside q)
      with z [of t] show ?thesis by (cases q) simp_all
    qed (use z [of t] p [of t] in auto)
    then have "owner s = None" using h by (metis inside_simps(1) not_Some_eq serial_upto_def exclusive_def)
    moreover then have "fs = []" using h by (simp add: serial_upto_def)
    ultimately show ?thesis using h out by (intro conjI exI [of _ h]) (auto simp: serial_upto_def)
  qed
  moreover have "\<exists>t s'. lock_step t s s'" if "0 < lock_work m s"
    by (rule serial_progress [OF h that])
  ultimately show ?thesis using w by auto
qed

text \<open>A program run by a thread that holds the mutex already.\<close>

fun while_locked :: "'s stmt list \<Rightarrow> 's action list" where
  "while_locked [] = []"
| "while_locked (Guarded as # p) = Relock # as @ while_locked p"
| "while_locked (Signal all # p) = Notify all # while_locked p"

lemma acts_run_inside:
  assumes "lock_reach ps x n s" "threads s t = Inside (map Act fs @ as) p"
  shows "\<exists>n' s'. lock_reach ps x n' s' \<and> threads s' t = Inside as p"
  using assms
proof (induction fs arbitrary: n s)
  case (Cons f fs)
  let ?s = "set_thread t (Inside (map Act fs @ as) p) (s\<lparr>shared := f (shared s)\<rparr>)"
  have "lock_step t s ?s" using Cons.prems(2) by (intro lock_step.act) simp
  from Cons.IH [OF lock_reach.step [OF Cons.prems(1) this]] show ?case by (simp add: set_thread_def)
qed auto

text \<open>
  A thread whose first scope takes the mutex again after some accesses can reach a state from which it
  owns the mutex forever.
\<close>

lemma relock_reached:
  assumes "ps t = Guarded (map Act fs @ Relock # as) # p"
  shows "\<exists>n s. lock_reach ps x n s \<and> (\<forall>s'. (\<lambda>s s'. \<exists>u. lock_step u s s')\<^sup>*\<^sup>* s s' \<longrightarrow>
    owner s' = Some t \<and> (\<forall>s''. \<not> lock_step t s' s''))"
proof -
  let ?s0 = "lock_init ps x"
  let ?s1 = "set_thread t (Inside (map Act fs @ Relock # as) p) (?s0\<lparr>owner := Some t\<rparr>)"
  have "lock_step t ?s0 ?s1" by (rule lock_step.enter) (simp_all add: lock_init_def guard_lock_def assms)
  from lock_reach.step [OF lock_reach.init this]
  obtain n s where "lock_reach ps x n s" "threads s t = Inside (Relock # as) p"
    using acts_run_inside [of ps x "Suc 0" ?s1 t fs "Relock # as" p] by (auto simp: set_thread_def)
  with relock_blocks [OF this] show ?thesis by blast
qed

section \<open>Properties\<close>

text \<open>
  Mutual exclusion: in every interleaving of any programs, waits and notifications
  included, at most one thread is inside a scope, and it is the owner of the mutex. Nobody returns
  from \<open>wait\<close> with a predicate that is false.
\<close>

theorem guard_mutual_exclusion:
  assumes "lock_reach ps x n s" "threads s t = Inside as p"
  shows "owner s = Some t \<and> (\<forall>u as' p'. threads s u = Inside as' p' \<longrightarrow> u = t) \<and>
    (\<forall>u s' c bs q. lock_step u s s' \<and> threads s u = Inside (Wait_Until c # bs) q \<and> threads s' u = Inside bs q \<longrightarrow>
       c (shared s'))"
proof (intro conjI allI impI)
  have e: "\<And>u. inside (threads s u) \<longleftrightarrow> owner s = Some u"
    using exclusive_reach [OF assms(1)] by (simp add: exclusive_def)
  then show "owner s = Some t" using assms(2) by (metis inside_simps(2))
  then show "u = t" if "threads s u = Inside as' p'" for u as' p' using that e [of u] by simp
  show "c (shared s')"
    if "lock_step u s s' \<and> threads s u = Inside (Wait_Until c # bs) q \<and> threads s' u = Inside bs q" for u s' c bs q
    using that by (auto simp: lock_simps elim: lock_stepE)
qed

text \<open>
  C3: Scopes under a guard are atomic. Whenever the mutex is free, the shared object is in the
  state that the scopes completed so far give when they run one after the other, each in one
  piece, in an order that keeps the order of every thread's program, however the single
  accesses of the threads interleaved.
\<close>

theorem guard_serializes:
  assumes "\<And>t. plain (ps t)" "lock_reach ps x n s" "owner s = None"
  shows "\<exists>h. shared s = run_serial h x \<and>
    (\<forall>t p. threads s t = Outside p \<longrightarrow> of_thread t h @ bodies p = bodies (ps t)) \<and>
    (\<forall>t. \<exists>p. threads s t = Outside p)"
proof -
  obtain h fs where h: "serial_upto ps x h fs s" using serial_upto_reach [OF assms(2,1)] by blast
  then have "fs = []" "\<And>t. \<not> inside (threads s t)" "\<And>t. plain_thread (threads s t)"
    using assms(3) by (auto simp: serial_upto_def exclusive_def)
  moreover then have "\<exists>p. threads s t = Outside p" for t
    by (metis inside_simps(2) plain_thread.elims(2))
  moreover have "of_thread t h @ bodies p = bodies (ps t)" if "threads s t = Outside p" for t p
    using h that by (metis serial_upto_def pending.simps(1))
  ultimately show ?thesis using h by (intro exI [of _ h]) (auto simp: serial_upto_def)
qed

definition two_counters :: "nat \<Rightarrow> nat stmt list" where
  "two_counters t = (if t < 2 then [Guarded [Act (\<lambda>n. n + 1), Act (\<lambda>n. 2 * n)]] else [])"

lemma plain_two_counters: "plain (two_counters t)"
  by (simp add: two_counters_def)

lemma two_counters_run:
  "lock_reach two_counters 0 4 \<lparr>owner = None, shared = 2, threads = (\<lambda>t. Outside (two_counters t))(0 := Outside [])\<rparr>"
proof -
  have "lock_reach two_counters 0 (0 + length [\<lambda>n :: nat. n + 1, \<lambda>n. 2 * n] + 2)
      ((lock_init two_counters 0)\<lparr>shared := run_acts [\<lambda>n. n + 1, \<lambda>n. 2 * n] (shared (lock_init two_counters 0)),
         threads := (threads (lock_init two_counters 0))(0 := Outside [])\<rparr>)"
    by (rule scope_runs [OF lock_reach.init]) (simp_all add: lock_init_def two_counters_def)
  then show ?thesis by (simp add: lock_init_def run_acts_def numeral_eq_Suc)
qed

theorem guard_serializes_witness:
  "\<exists>h. (2 :: nat) = run_serial h 0 \<and> of_thread 0 h = [[\<lambda>n. n + 1, \<lambda>n. 2 * n]] \<and> of_thread 1 h = []"
proof -
  obtain h where "(2 :: nat) = run_serial h 0"
    "\<And>t p. ((\<lambda>t. Outside (two_counters t))(0 := Outside [])) t = Outside p \<Longrightarrow> of_thread t h @ bodies p = bodies (two_counters t)"
    using guard_serializes [OF plain_two_counters two_counters_run] by auto
  from this(1) this(2) [of 0 "[]"] this(2) [of 1 "two_counters 1"] show ?thesis
    by (intro exI [of _ h]) (auto simp: two_counters_def)
qed

text \<open>
  C23: Finitely many threads whose scopes under the guard are plain, that is, only access memory and notify, but neither
  construct a second guard for the mutex nor wait on a condition variable, neither deadlock nor run
  forever: every interleaving makes the same number of steps, some thread can go on until that number is
  reached, and then the mutex is free, every program is finished and the shared object is the
  result of all scopes in a serial order. (A nested guard does deadlock: \<open>relock_deadlocks\<close>.)
\<close>

theorem guarded_threads_finish:
  assumes "\<And>t. plain (ps t)" "\<And>t. m \<le> t \<Longrightarrow> ps t = []" "lock_reach ps x n s"
  shows "n \<le> lock_work m (lock_init ps x) \<and>
    (n < lock_work m (lock_init ps x) \<longrightarrow> (\<exists>t s'. lock_step t s s')) \<and>
    (n = lock_work m (lock_init ps x) \<longrightarrow> owner s = None \<and> (\<forall>t. threads s t = Outside []) \<and>
       (\<exists>h. shared s = run_serial h x \<and> (\<forall>t. of_thread t h = bodies (ps t))))"
  by (rule plain_threads_finish [OF assms])

theorem guarded_threads_finish_witness:
  "\<exists>t s'. lock_step t (lock_init two_counters 0) s'"
proof -
  have "two_counters t = []" if "2 \<le> t" for t using that by (simp add: two_counters_def)
  from guarded_threads_finish [OF plain_two_counters this lock_reach.init [of two_counters 0]]
  show ?thesis by (simp add: two_counters_def lock_work_def lock_init_def numeral_2_eq_2)
qed

text \<open>
  A thread that constructs a second guard for the mutex it holds deadlocks the program: it never
  moves again, it keeps the mutex, and the shared object never changes again.
\<close>

theorem relock_deadlocks:
  assumes "lock_reach ps x n s" "threads s t = Inside (Relock # as) p" "(\<lambda>s s'. \<exists>u. lock_step u s s')\<^sup>*\<^sup>* s s'"
  shows "owner s' = Some t \<and> threads s' t = threads s t \<and> shared s' = shared s \<and> \<not> lock_step t s' s''"
  by (rule relock_blocks [OF assms])

end
