(* ===== verification/Session.thy ===== *)
theory Session
  imports Tables Locks
begin

text \<open>
  Class \<open>SessionMgr\<close> (\<open>src/business/session/session_mgr.h\<close> and \<open>session_mgr.cpp\<close>): the
  table of connection contexts with its counters. The clock is an argument of the operations
  that read it; closed sockets are results. Times are 64-bit words, so that the timeout test
  wraps as it does in the code. Every operation holds the mutex from beginning to end except
  \<open>cleanup_timeout\<close>, whose scan and removals are separate definitions. The field
  \<open>user_data\<close> of a context is set and read by nobody in the sources and is left out.
\<close>

section \<open>State\<close>

record connection_context =
  session_id :: int
  socket_fd :: int
  remote_ip :: string
  remote_port :: int
  connect_time :: u64
  last_msg_time :: u64
  heartbeat_count :: u32
  is_alive :: bool

record session_mgr =
  next_sid :: int
  sessions :: "(int, connection_context) umap"
  total_count :: nat
  peak_count :: nat

record session_stats =
  alive_count :: nat
  st_total :: nat
  st_peak :: nat

section \<open>Operations\<close>

definition SessionMgr_new :: session_mgr where
  "SessionMgr_new = \<lparr>next_sid = 1, sessions = [], total_count = 0, peak_count = 0\<rparr>"

definition session_shutdown :: "session_mgr \<Rightarrow> session_mgr" where
  "session_shutdown m = m\<lparr>sessions := []\<rparr>"

definition session_add :: "int \<Rightarrow> string \<Rightarrow> int \<Rightarrow> u64 \<Rightarrow> session_mgr \<Rightarrow> int \<times> session_mgr" where
  "session_add fd ip port tick m =
     (let sid = next_sid m;
          ctx = \<lparr>session_id = sid, socket_fd = fd, remote_ip = ip, remote_port = port,
                 connect_time = tick, last_msg_time = tick, heartbeat_count = 0, is_alive = True\<rparr>;
          ss = um_set sid ctx (sessions m);
          alive = length ss
      in (sid, \<lparr>next_sid = sid + 1, sessions = ss, total_count = total_count m + 1,
                peak_count = (if alive > peak_count m then alive else peak_count m)\<rparr>))"

definition session_remove :: "int \<Rightarrow> session_mgr \<Rightarrow> session_mgr" where
  "session_remove sid m =
     (if um_find (sessions m) sid \<noteq> None then m\<lparr>sessions := um_erase sid (sessions m)\<rparr> else m)"

definition session_exists :: "int \<Rightarrow> session_mgr \<Rightarrow> bool" where
  "session_exists sid m \<longleftrightarrow> um_find (sessions m) sid \<noteq> None"

definition session_count :: "session_mgr \<Rightarrow> nat" where
  "session_count m = length (sessions m)"

definition session_get :: "int \<Rightarrow> session_mgr \<Rightarrow> connection_context option" where
  "session_get sid m = um_find (sessions m) sid"

definition all_ids :: "session_mgr \<Rightarrow> int list" where
  "all_ids m = map fst (sessions m)"

definition alive_sessions :: "session_mgr \<Rightarrow> connection_context list" where
  "alive_sessions m = map snd (sessions m)"

definition heartbeat :: "int \<Rightarrow> u64 \<Rightarrow> session_mgr \<Rightarrow> session_mgr" where
  "heartbeat sid tick m =
     (case um_find (sessions m) sid of
        None \<Rightarrow> m
      | Some c \<Rightarrow> m\<lparr>sessions := um_set sid
          (c\<lparr>last_msg_time := tick, heartbeat_count := heartbeat_count c + 1\<rparr>) (sessions m)\<rparr>)"

text \<open>The sockets that \<open>kick\<close> closes are its second result.\<close>

definition kick :: "int \<Rightarrow> session_mgr \<Rightarrow> bool \<times> int list \<times> session_mgr" where
  "kick sid m =
     (case um_find (sessions m) sid of
        None \<Rightarrow> (False, [], m)
      | Some c \<Rightarrow> (True, if socket_fd c \<ge> 0 then [socket_fd c] else [],
                  m\<lparr>sessions := um_erase sid (sessions m)\<rparr>))"

definition mark_dead :: "int \<Rightarrow> session_mgr \<Rightarrow> session_mgr" where
  "mark_dead sid m =
     (case um_find (sessions m) sid of
        None \<Rightarrow> m
      | Some c \<Rightarrow> m\<lparr>sessions := um_set sid (c\<lparr>is_alive := False\<rparr>) (sessions m)\<rparr>)"

text \<open>The sessions for which the broadcaster is called (\<open>fn\<close>: whether one is given).\<close>

definition session_broadcast :: "bool \<Rightarrow> session_mgr \<Rightarrow> int list" where
  "session_broadcast fn m = map fst (filter (\<lambda>(k, c). is_alive c \<and> fn) (sessions m))"

definition session_send_to :: "int \<Rightarrow> session_mgr \<Rightarrow> bool" where
  "session_send_to sid m =
     (case um_find (sessions m) sid of None \<Rightarrow> False | Some c \<Rightarrow> is_alive c)"

fun send_to_multiple :: "int list \<Rightarrow> session_mgr \<Rightarrow> nat" where
  "send_to_multiple [] m = 0"
| "send_to_multiple (sid # sids) m =
     (case um_find (sessions m) sid of
        None \<Rightarrow> 0
      | Some c \<Rightarrow> if is_alive c then 1 else 0) + send_to_multiple sids m"

definition timed_out :: "u64 \<Rightarrow> u64 \<Rightarrow> connection_context \<Rightarrow> bool" where
  "timed_out now_ms timeout_ms c \<longleftrightarrow> is_alive c \<and> last_msg_time c + timeout_ms < now_ms"

text \<open>The scan under the lock, and the removals, each under a lock of its own.\<close>

definition scan_timeout :: "u64 \<Rightarrow> u64 \<Rightarrow> session_mgr \<Rightarrow> int list" where
  "scan_timeout now_ms timeout_ms m =
     map fst (filter (\<lambda>(k, c). timed_out now_ms timeout_ms c) (sessions m))"

fun remove_all :: "int list \<Rightarrow> session_mgr \<Rightarrow> nat \<times> session_mgr" where
  "remove_all [] m = (0, m)"
| "remove_all (sid # sids) m = (let (n, m') = remove_all sids (session_remove sid m) in (n + 1, m'))"

definition cleanup_timeout :: "u64 \<Rightarrow> u64 \<Rightarrow> session_mgr \<Rightarrow> nat \<times> session_mgr" where
  "cleanup_timeout now_ms timeout_ms m = remove_all (scan_timeout now_ms timeout_ms m) m"

definition sm_stats :: "session_mgr \<Rightarrow> session_stats" where
  "sm_stats m = \<lparr>alive_count = session_count m, st_total = total_count m, st_peak = peak_count m\<rparr>"

text \<open>A program's use of the manager.\<close>

datatype session_op =
    Op_Add int string int u64
  | Op_Remove int
  | Op_Heartbeat int u64
  | Op_Kick int
  | Op_Mark_Dead int
  | Op_Cleanup u64 u64
  | Op_Shutdown

fun session_apply :: "session_op \<Rightarrow> session_mgr \<Rightarrow> session_mgr" where
  "session_apply (Op_Add fd ip port tick) m = snd (session_add fd ip port tick m)"
| "session_apply (Op_Remove sid) m = session_remove sid m"
| "session_apply (Op_Heartbeat sid tick) m = heartbeat sid tick m"
| "session_apply (Op_Kick sid) m = snd (snd (kick sid m))"
| "session_apply (Op_Mark_Dead sid) m = mark_dead sid m"
| "session_apply (Op_Cleanup now timeout) m = snd (cleanup_timeout now timeout m)"
| "session_apply Op_Shutdown m = session_shutdown m"

definition session_run :: "session_op list \<Rightarrow> session_mgr" where
  "session_run ops = fold session_apply ops SessionMgr_new"

section \<open>Invariant\<close>

definition session_ok :: "session_mgr \<Rightarrow> bool" where
  "session_ok m \<longleftrightarrow> um_wf (sessions m) \<and>
     (\<forall>(k, c)\<in>set (sessions m). session_id c = k \<and> 0 < k \<and> k < next_sid m) \<and>
     length (sessions m) \<le> peak_count m \<and> peak_count m \<le> total_count m \<and>
     next_sid m = 1 + int (total_count m)"

lemma session_ok_new: "session_ok SessionMgr_new"
  by (simp add: session_ok_def SessionMgr_new_def)

lemma session_ok_fresh: "session_ok m \<Longrightarrow> um_find (sessions m) (next_sid m) = None"
  by (force simp: session_ok_def map_of_eq_None_iff)

lemma session_ok_add: "session_ok m \<Longrightarrow> session_ok (snd (session_add fd ip port tick m))"
  using session_ok_fresh [of m]
  by (fastforce simp: session_add_def Let_def session_ok_def length_um_set um_set_mem)

text \<open>Operations that only remove entries or replace a context of the same session.\<close>

lemma session_ok_erase: "session_ok m \<Longrightarrow> session_ok (m\<lparr>sessions := um_erase sid (sessions m)\<rparr>)"
  by (auto simp: session_ok_def length_um_erase um_erase_mem)

lemma session_ok_update:
  "session_ok m \<Longrightarrow> um_find (sessions m) sid = Some c \<Longrightarrow> session_id c' = session_id c \<Longrightarrow>
   session_ok (m\<lparr>sessions := um_set sid c' (sessions m)\<rparr>)"
  by (auto simp: session_ok_def length_um_set um_set_mem dest: map_of_SomeD)

lemma session_ok_remove: "session_ok m \<Longrightarrow> session_ok (session_remove sid m)"
  by (simp add: session_remove_def session_ok_erase)

lemma session_ok_remove_all: "session_ok m \<Longrightarrow> session_ok (snd (remove_all sids m))"
  by (induction sids arbitrary: m) (auto simp: session_ok_remove split_beta Let_def)

lemma session_ok_shutdown: "session_ok m \<Longrightarrow> session_ok (session_shutdown m)"
  by (auto simp: session_ok_def session_shutdown_def)

lemma session_ok_apply: "session_ok m \<Longrightarrow> session_ok (session_apply op m)"
  by (cases op)
    (auto simp: session_ok_add session_ok_remove session_ok_erase session_ok_shutdown
      session_ok_remove_all cleanup_timeout_def heartbeat_def kick_def mark_dead_def
      intro!: session_ok_update split: option.splits)

lemma session_ok_run: "session_ok (session_run ops)"
proof -
  have "session_ok m \<Longrightarrow> session_ok (fold session_apply ops m)" for m
    by (induction ops arbitrary: m) (simp_all add: session_ok_apply)
  then show ?thesis by (simp add: session_run_def session_ok_new)
qed

lemma session_run_snoc: "session_run (ops @ [op]) = session_apply op (session_run ops)"
  by (simp add: session_run_def)

section \<open>Counters\<close>

lemma session_remove_counters [simp]:
  "peak_count (session_remove sid m) = peak_count m"
  "total_count (session_remove sid m) = total_count m"
  "next_sid (session_remove sid m) = next_sid m"
  by (simp_all add: session_remove_def)

lemma remove_all_counters [simp]:
  "peak_count (snd (remove_all sids m)) = peak_count m"
  "total_count (snd (remove_all sids m)) = total_count m"
  "fst (remove_all sids m) = length sids"
  by (induction sids arbitrary: m) (simp_all add: split_beta Let_def)

lemma session_count_remove: "session_count (session_remove sid m) \<le> session_count m"
  by (simp add: session_remove_def session_count_def AList.delete_eq)

lemma session_count_remove_all: "session_count (snd (remove_all sids m)) \<le> session_count m"
proof (induction sids arbitrary: m)
  case (Cons sid sids)
  then show ?case using session_count_remove le_trans by (fastforce simp: split_beta Let_def)
qed simp

lemma peak_apply:
  "session_ok m \<Longrightarrow> peak_count (session_apply op m) = max (peak_count m) (session_count (session_apply op m))"
  using session_ok_apply [of m op]
  by (cases op)
    (auto simp: session_add_def Let_def session_count_def cleanup_timeout_def heartbeat_def
      kick_def mark_dead_def session_shutdown_def max_def session_ok_def split: option.splits)

section \<open>Removing the sessions that timed out\<close>

lemma session_find_remove:
  "um_find (sessions (session_remove sid m)) k = (if k = sid then None else um_find (sessions m) k)"
  by (auto simp: session_remove_def)

lemma session_find_remove_all:
  "um_find (sessions (snd (remove_all sids m))) k = (if k \<in> set sids then None else um_find (sessions m) k)"
  by (induction sids arbitrary: m) (auto simp: session_find_remove split_beta Let_def)

lemma scan_timeout_iff:
  "um_wf (sessions m) \<Longrightarrow> k \<in> set (scan_timeout now timeout m) \<longleftrightarrow>
   (\<exists>c. um_find (sessions m) k = Some c \<and> timed_out now timeout c)"
  by (force simp: scan_timeout_def)

lemma timed_out_exact:
  assumes "unat (last_msg_time c) + unat timeout < 2 ^ 64"
  shows "timed_out now timeout c \<longleftrightarrow> is_alive c \<and> unat now > unat (last_msg_time c) + unat timeout"
  using assms by (simp add: timed_out_def word_less_nat_alt unat_word_ariths)

text \<open>Operations other than the removals, and what they do to a dead session.\<close>

fun leaves_alone :: "int \<Rightarrow> session_op \<Rightarrow> bool" where
  "leaves_alone sid (Op_Remove k) = (k \<noteq> sid)"
| "leaves_alone sid (Op_Kick k) = (k \<noteq> sid)"
| "leaves_alone sid Op_Shutdown = False"
| "leaves_alone sid _ = True"

definition dead_session :: "int \<Rightarrow> session_mgr \<Rightarrow> bool" where
  "dead_session sid m \<longleftrightarrow> (\<exists>c. um_find (sessions m) sid = Some c \<and> \<not> is_alive c)"

lemma dead_session_apply:
  assumes "session_ok m" "dead_session sid m" "leaves_alone sid op"
  shows "dead_session sid (session_apply op m)"
proof -
  have "um_wf (sessions m)" using assms(1) by (simp add: session_ok_def)
  then have "sid \<notin> set (scan_timeout now timeout m)" for now timeout
    using assms(2) scan_timeout_iff [of m sid now timeout] by (auto simp only: dead_session_def timed_out_def option.inject)
  moreover have "sid \<noteq> next_sid m"
    using assms(2) session_ok_fresh [OF assms(1)] by (auto simp: dead_session_def)
  ultimately show ?thesis
    using assms(2,3)
    by (cases op)
      (auto simp: dead_session_def session_add_def Let_def session_find_remove heartbeat_def
        kick_def mark_dead_def cleanup_timeout_def session_find_remove_all split: option.splits)
qed

section \<open>Concurrent use\<close>

text \<open>
  The single accesses under the mutex of every operation that is one critical section, in
  the order of the code. \<open>cleanup_timeout\<close> is not one: its removals are operations of their own.
\<close>

datatype locked_op =
    Lk_Add int string int u64
  | Lk_Remove int
  | Lk_Heartbeat int u64
  | Lk_Kick int
  | Lk_Mark_Dead int
  | Lk_Shutdown

fun op_of_locked :: "locked_op \<Rightarrow> session_op" where
  "op_of_locked (Lk_Add fd ip port tick) = Op_Add fd ip port tick"
| "op_of_locked (Lk_Remove sid) = Op_Remove sid"
| "op_of_locked (Lk_Heartbeat sid tick) = Op_Heartbeat sid tick"
| "op_of_locked (Lk_Kick sid) = Op_Kick sid"
| "op_of_locked (Lk_Mark_Dead sid) = Op_Mark_Dead sid"
| "op_of_locked Lk_Shutdown = Op_Shutdown"

definition on_context :: "int \<Rightarrow> (connection_context \<Rightarrow> connection_context) \<Rightarrow> session_mgr \<Rightarrow> session_mgr" where
  "on_context sid f m =
     (case um_find (sessions m) sid of None \<Rightarrow> m | Some c \<Rightarrow> m\<lparr>sessions := um_set sid (f c) (sessions m)\<rparr>)"

text \<open>The local variable \<open>sid\<close> of \<open>add\<close> is the value of \<open>next_sid_\<close> before its increment.\<close>

fun session_body :: "locked_op \<Rightarrow> session_mgr action list" where
  "session_body (Lk_Add fd ip port tick) =
     [Act (\<lambda>m. m\<lparr>next_sid := next_sid m + 1\<rparr>),
      Act (\<lambda>m. m\<lparr>sessions := um_set (next_sid m - 1)
        \<lparr>session_id = next_sid m - 1, socket_fd = fd, remote_ip = ip, remote_port = port,
         connect_time = tick, last_msg_time = tick, heartbeat_count = 0, is_alive = True\<rparr> (sessions m)\<rparr>),
      Act (\<lambda>m. m\<lparr>total_count := total_count m + 1\<rparr>),
      Act (\<lambda>m. if length (sessions m) > peak_count m then m\<lparr>peak_count := length (sessions m)\<rparr> else m)]"
| "session_body (Lk_Remove sid) = [Act (session_remove sid)]"
| "session_body (Lk_Heartbeat sid tick) =
     [Act (on_context sid (\<lambda>c. c\<lparr>last_msg_time := tick\<rparr>)),
      Act (on_context sid (\<lambda>c. c\<lparr>heartbeat_count := heartbeat_count c + 1\<rparr>))]"
| "session_body (Lk_Kick sid) = [Act (session_remove sid)]"
| "session_body (Lk_Mark_Dead sid) = [Act (on_context sid (\<lambda>c. c\<lparr>is_alive := False\<rparr>))]"
| "session_body Lk_Shutdown = [Act session_shutdown]"

lemma um_set_twice: "um_set k w (um_set k v xs) = um_set k w xs"
  by (induction xs) auto

lemma on_context_twice: "on_context sid g (on_context sid f m) = on_context sid (g \<circ> f) m"
  by (simp add: on_context_def um_set_twice split: option.splits)

interpretation sm: guarded_object "session_apply \<circ> op_of_locked" session_body
proof
  show "list_all plain_action (session_body op)" for op by (cases op) simp_all
  show "run_acts (acts (session_body op)) x = (session_apply \<circ> op_of_locked) op x" for op x
  proof (cases op)
    case (Lk_Heartbeat sid tick)
    have "run_acts (acts (session_body op)) x =
        on_context sid ((\<lambda>c. c\<lparr>heartbeat_count := heartbeat_count c + 1\<rparr>) \<circ> (\<lambda>c. c\<lparr>last_msg_time := tick\<rparr>)) x"
      by (simp add: Lk_Heartbeat run_acts_def on_context_twice [symmetric])
    then show ?thesis by (simp add: Lk_Heartbeat heartbeat_def on_context_def split: option.splits)
  qed (simp_all add: run_acts_def session_add_def Let_def kick_def session_remove_def mark_dead_def
      on_context_def split: option.splits)
qed

section \<open>Properties\<close>

text \<open>
  Whatever sequence of operations runs, the table holds each session once under its own
  identifier, all identifiers are positive and were handed out before, and the counters obey
  online \<open>\<le>\<close> peak \<open>\<le>\<close> total.
\<close>

theorem session_invariant: "session_ok (session_run ops)"
  by (rule session_ok_run)

text \<open>
  C6: The session table under concurrent use: any number of threads run operations whose single
  accesses interleave freely outside the mutex. Whenever the mutex is free the table is the result
  of the operations completed so far in some order that keeps the order of each thread, and
  it satisfies the invariant.
\<close>

theorem session_threads_serialize:
  assumes "lock_reach (\<lambda>t. map (Guarded \<circ> session_body) (q t)) SessionMgr_new n s" "owner s = None"
  shows "\<exists>h. shared s = session_run (map (op_of_locked \<circ> snd) h) \<and> session_ok (shared s) \<and>
    (\<forall>t. \<exists>todo. q t = of_thread t h @ todo \<and> threads s t = Outside (map (Guarded \<circ> session_body) todo))"
proof -
  obtain h where h: "shared s = fold (session_apply \<circ> op_of_locked) (map snd h) SessionMgr_new"
    "\<forall>t. \<exists>todo. q t = of_thread t h @ todo \<and> threads s t = Outside (map (Guarded \<circ> session_body) todo)"
    using sm.serializes [OF assms] by blast
  have "shared s = session_run (map (op_of_locked \<circ> snd) h)"
    by (simp add: h(1) session_run_def fold_map comp_assoc)
  with h(2) session_ok_run show ?thesis by metis
qed

definition one_client :: "nat \<Rightarrow> locked_op list" where
  "one_client t = (if t = 3 then [Lk_Shutdown, Lk_Remove 1] else [])"

lemma one_client_runs:
  "\<exists>n s. lock_reach (\<lambda>t. map (Guarded \<circ> session_body) (one_client t)) SessionMgr_new n s \<and> owner s = None \<and>
     threads s 3 = Outside [Guarded (session_body (Lk_Remove 1))]"
proof -
  let ?s = "lock_init (\<lambda>t. map (Guarded \<circ> session_body) (one_client t)) SessionMgr_new"
  have "lock_reach (\<lambda>t. map (Guarded \<circ> session_body) (one_client t)) SessionMgr_new (0 + length [session_shutdown] + 2)
      (?s\<lparr>shared := run_acts [session_shutdown] (shared ?s),
          threads := (threads ?s)(3 := Outside [Guarded (session_body (Lk_Remove 1))])\<rparr>)"
    by (rule scope_runs [OF lock_reach.init]) (simp_all add: lock_init_def one_client_def)
  then show ?thesis by (intro exI conjI, assumption) (simp_all add: lock_init_def)
qed

theorem session_threads_serialize_witness:
  "\<exists>n s h. lock_reach (\<lambda>t. map (Guarded \<circ> session_body) (one_client t)) SessionMgr_new n s \<and>
     shared s = session_run (map (op_of_locked \<circ> snd) h) \<and> of_thread 3 h = [Lk_Shutdown]"
proof -
  obtain n s where s: "lock_reach (\<lambda>t. map (Guarded \<circ> session_body) (one_client t)) SessionMgr_new n s"
    "owner s = None" "threads s 3 = Outside [Guarded (session_body (Lk_Remove 1))]"
    using one_client_runs by blast
  from session_threads_serialize [OF s(1,2)] obtain h todo where
    h: "shared s = session_run (map (op_of_locked \<circ> snd) h)" "one_client 3 = of_thread 3 h @ todo"
      "threads s 3 = Outside (map (Guarded \<circ> session_body) todo)" by blast
  then have "length todo = 1" using arg_cong [of _ _ length] s(3) by (metis length_map One_nat_def length_Cons list.size(3) thread.inject(1))
  then have "of_thread 3 h = [Lk_Shutdown]" using h(2) by (auto simp: one_client_def Cons_eq_append_conv)
  with s(1) h(1) show ?thesis by blast
qed

text \<open>
  The peak counter is the largest number of sessions the table has held at any moment of
  the run.
\<close>

theorem session_peak_is_max:
  "peak_count (session_run ops) = Max ((\<lambda>n. session_count (session_run (take n ops))) ` {..length ops})"
proof (induction ops rule: rev_induct)
  case Nil
  then show ?case by (simp add: session_run_def SessionMgr_new_def session_count_def)
next
  case (snoc op ops)
  let ?f = "\<lambda>os n. session_count (session_run (take n os))"
  have split: "?f (ops @ [op]) ` {..length (ops @ [op])} =
      insert (session_count (session_run (ops @ [op]))) (?f ops ` {..length ops})"
    by (auto simp: atMost_Suc image_iff)
  have "peak_count (session_run (ops @ [op])) =
      max (peak_count (session_run ops)) (session_count (session_run (ops @ [op])))"
    unfolding session_run_snoc by (rule peak_apply [OF session_ok_run])
  then show ?case unfolding split snoc.IH by (subst Max_insert) (auto simp: max.commute)
qed

text \<open>
  C36: As long as no deadline wraps around, \<open>cleanup_timeout\<close> removes exactly the live
  sessions that have been silent for longer than the timeout, leaves every other session as
  it was, and returns how many it removed.
\<close>

theorem cleanup_removes_exactly_idle:
  fixes now timeout :: u64
  assumes "session_ok m"
    and "\<forall>(k, c)\<in>set (sessions m). unat (last_msg_time c) + unat timeout < 2 ^ 64"
  defines "idle \<equiv> \<lambda>c. is_alive c \<and> unat now > unat (last_msg_time c) + unat timeout"
  shows "fst (cleanup_timeout now timeout m) = length (filter (idle \<circ> snd) (sessions m)) \<and>
    (\<forall>k. session_get k (snd (cleanup_timeout now timeout m)) =
      (case session_get k m of None \<Rightarrow> None | Some c \<Rightarrow> if idle c then None else Some c))"
proof (rule conjI; (rule allI)?)
  have wf: "um_wf (sessions m)" using assms(1) by (simp add: session_ok_def)
  have exact: "timed_out now timeout c = idle c" if "(k, c) \<in> set (sessions m)" for k c
    using assms(2) that timed_out_exact [of c timeout now] by (auto simp: idle_def)
  then have "filter (\<lambda>(k, c). timed_out now timeout c) (sessions m) = filter (idle \<circ> snd) (sessions m)"
    by (intro filter_cong) auto
  then show "fst (cleanup_timeout now timeout m) = length (filter (idle \<circ> snd) (sessions m))"
    by (simp add: cleanup_timeout_def scan_timeout_def)
  fix k
  show "session_get k (snd (cleanup_timeout now timeout m)) =
      (case session_get k m of None \<Rightarrow> None | Some c \<Rightarrow> if idle c then None else Some c)"
    using exact scan_timeout_iff [OF wf, of k now timeout]
    by (auto simp: session_get_def cleanup_timeout_def session_find_remove_all
        dest: map_of_SomeD split: option.splits)
qed

theorem cleanup_removes_exactly_idle_witness:
  defines "m \<equiv> session_run [Op_Add 5 ''a'' 80 100, Op_Add 6 ''b'' 81 100, Op_Heartbeat 2 190]"
  shows "fst (cleanup_timeout 200 50 m) = 1 \<and> session_get 1 (snd (cleanup_timeout 200 50 m)) = None \<and>
    session_get 2 (snd (cleanup_timeout 200 50 m)) \<noteq> None"
proof -
  have m: "sessions m =
    [(1, \<lparr>session_id = 1, socket_fd = 5, remote_ip = ''a'', remote_port = 80, connect_time = 100,
          last_msg_time = 100, heartbeat_count = 0, is_alive = True\<rparr>),
     (2, \<lparr>session_id = 2, socket_fd = 6, remote_ip = ''b'', remote_port = 81, connect_time = 100,
          last_msg_time = 190, heartbeat_count = 1, is_alive = True\<rparr>)]"
    by (simp add: m_def session_run_def SessionMgr_new_def session_add_def heartbeat_def)
  have "session_ok m" unfolding m_def by (rule session_ok_run)
  from cleanup_removes_exactly_idle [OF this, of 50 200] show ?thesis
    by (simp add: m session_get_def)
qed

text \<open>
  A deadline that wraps around removes active sessions: with the largest timeout, meant
  as never, every live session that was active after time 0 and before \<open>now\<close> is removed, one
  that sent a message at this very moment included.
\<close>

theorem cleanup_huge_timeout_removes_active:
  assumes "session_ok m" "session_get k m = Some c" "is_alive c" "0 < last_msg_time c" "last_msg_time c \<le> now"
  shows "session_get k (snd (cleanup_timeout now (- 1) m)) = None"
proof -
  have "last_msg_time c - 1 < last_msg_time c"
    using assms(4) by (metis word_less_sub1 not_less_iff_gr_or_eq linorder_not_less measure_unat word_less_nat_alt unat_0 less_numeral_extra(3))
  then have "timed_out now (- 1) c" using assms(3,5) by (simp add: timed_out_def)
  then have "k \<in> set (scan_timeout now (- 1) m)"
    using assms(1,2) by (auto simp: session_ok_def scan_timeout_iff session_get_def)
  then show ?thesis by (simp add: session_get_def cleanup_timeout_def session_find_remove_all)
qed

theorem cleanup_huge_timeout_removes_active_witness:
  "session_get 1 (snd (cleanup_timeout 100 (- 1) (session_run [Op_Add 5 ''a'' 80 100]))) = None"
proof -
  let ?c = "\<lparr>session_id = 1, socket_fd = 5, remote_ip = ''a'', remote_port = 80, connect_time = 100,
    last_msg_time = 100, heartbeat_count = 0, is_alive = True\<rparr>"
  have "session_get 1 (session_run [Op_Add 5 ''a'' 80 100]) = Some ?c"
    by (simp add: session_get_def session_run_def SessionMgr_new_def session_add_def)
  from cleanup_huge_timeout_removes_active [OF session_ok_run this, of 100] show ?thesis by simp
qed

text \<open>
  The scan and the removals of \<open>cleanup_timeout\<close> are not one critical section: a session
  that the scan found idle is removed even if a heartbeat arrives in between and makes it
  active again.
\<close>

theorem cleanup_race_removes_active:
  assumes "k \<in> set (scan_timeout now timeout m)" "session_ok m"
  defines "m' \<equiv> heartbeat k now m"
  shows "(\<exists>c. session_get k m' = Some c \<and> last_msg_time c = now) \<and>
    session_get k (snd (remove_all (scan_timeout now timeout m) m')) = None"
proof -
  obtain c where "um_find (sessions m) k = Some c"
    using assms(1,2) by (auto simp: session_ok_def scan_timeout_iff)
  then have "\<exists>c. session_get k m' = Some c \<and> last_msg_time c = now"
    by (simp add: m'_def heartbeat_def session_get_def)
  with assms(1) show ?thesis by (simp add: session_get_def session_find_remove_all)
qed

theorem cleanup_race_removes_active_witness:
  "session_get 1 (snd (remove_all (scan_timeout 200 50 (session_run [Op_Add 5 ''a'' 80 100]))
     (heartbeat 1 200 (session_run [Op_Add 5 ''a'' 80 100])))) = None"
proof -
  have "1 \<in> set (scan_timeout 200 50 (session_run [Op_Add 5 ''a'' 80 100]))"
    by (simp add: scan_timeout_def timed_out_def session_run_def SessionMgr_new_def session_add_def)
  from cleanup_race_removes_active [OF this session_ok_run] show ?thesis by simp
qed

text \<open>
  A session marked dead is never collected: it survives every later operation except its
  own removal, kick or the shutdown, is still counted as online and listed by
  \<open>alive_sessions\<close>, and yet receives nothing.
\<close>

theorem dead_session_leaks:
  assumes "session_exists sid (session_run ops)" "\<forall>op\<in>set later. leaves_alone sid op"
  defines "m \<equiv> fold session_apply later (mark_dead sid (session_run ops))"
  shows "session_exists sid m \<and> \<not> session_send_to sid m \<and> 1 \<le> session_count m \<and>
    (\<exists>c\<in>set (alive_sessions m). session_id c = sid \<and> \<not> is_alive c)"
proof -
  have "session_ok x \<Longrightarrow> dead_session sid x \<Longrightarrow>
      session_ok (fold session_apply later x) \<and> dead_session sid (fold session_apply later x)" for x
    using assms(2)
    by (induction later arbitrary: x) (simp_all add: session_ok_apply dead_session_apply)
  moreover have "session_ok (mark_dead sid (session_run ops))"
    using session_ok_apply [OF session_ok_run, of "Op_Mark_Dead sid" ops] by simp
  moreover have "dead_session sid (mark_dead sid (session_run ops))"
    using assms(1) by (auto simp: session_exists_def dead_session_def mark_dead_def)
  ultimately have ok: "session_ok m" and "dead_session sid m" by (simp_all add: m_def)
  then obtain c where c: "um_find (sessions m) sid = Some c" "\<not> is_alive c"
    by (auto simp: dead_session_def)
  then have mem: "(sid, c) \<in> set (sessions m)" by (simp add: map_of_SomeD)
  then have "session_id c = sid" using ok by (auto simp: session_ok_def)
  moreover have "1 \<le> session_count m" using mem by (cases "sessions m") (simp_all add: session_count_def)
  moreover have "c \<in> set (alive_sessions m)" using mem by (force simp: alive_sessions_def)
  ultimately show ?thesis using c by (auto simp: session_exists_def session_send_to_def)
qed

theorem dead_session_leaks_witness:
  "session_exists 1 (fold session_apply [Op_Cleanup 1000 10] (mark_dead 1 (session_run [Op_Add 5 ''a'' 80 100])))"
  using dead_session_leaks [of 1 "[Op_Add 5 ''a'' 80 100]" "[Op_Cleanup 1000 10]"]
  by (simp add: session_exists_def session_run_def SessionMgr_new_def session_add_def)

end
