(* ===== verification/Std_Heap.thy ===== *)
theory Std_Heap
  imports Prelude
begin

text \<open>
  The array heaps behind the framework's timers: \<open>std::push_heap\<close> and \<open>std::pop_heap\<close> of
  the C++ standard library with a comparator that makes the element with the smallest key
  the front. The definitions follow the sift loops of libstdc++; clients use only the
  standard's contract, which the locale \<open>std_heap\<close> states, so their results hold for any
  conforming library. The locale \<open>due_loop\<close> adds the loop with which \<open>Timer::poll\<close>,
  \<open>TimerLoop::thread_loop\<close> and \<open>EventLoop::process_timers\<close> pop the timers that are due.
\<close>

section \<open>Operations\<close>

text \<open>Move the hole at \<open>i\<close> up while its parent's key is larger than that of \<open>v\<close>.\<close>

fun sift_up :: "('a \<Rightarrow> int) \<Rightarrow> nat \<Rightarrow> 'a \<Rightarrow> 'a list \<Rightarrow> 'a list" where
  "sift_up key i v xs =
     (if 0 < i \<and> key (xs ! ((i - 1) div 2)) > key v
      then sift_up key ((i - 1) div 2) v (xs[i := xs ! ((i - 1) div 2)])
      else xs[i := v])"

declare sift_up.simps [simp del]

text \<open>Move the hole at \<open>h\<close> down to a leaf, always to the child with the smaller key.\<close>

definition small_child :: "('a \<Rightarrow> int) \<Rightarrow> 'a list \<Rightarrow> nat \<Rightarrow> nat" where
  "small_child key xs h =
     (let c = 2 * (h + 1) in if key (xs ! c) > key (xs ! (c - 1)) then c - 1 else c)"

lemma small_child_greater: "h < small_child key xs h"
  by (auto simp: small_child_def Let_def)

lemma small_child_bounds:
  "h < (n - 1) div 2 \<Longrightarrow> small_child key xs h < n \<and> h < small_child key xs h \<and>
   (small_child key xs h - 1) div 2 = h"
  by (auto simp: small_child_def Let_def)

function sift_hole :: "('a \<Rightarrow> int) \<Rightarrow> nat \<Rightarrow> 'a list \<Rightarrow> nat \<times> 'a list" where
  "sift_hole key h xs =
     (if h < (length xs - 1) div 2
      then let c = small_child key xs h in sift_hole key c (xs[h := xs ! c])
      else if even (length xs) \<and> 2 \<le> length xs \<and> h = (length xs - 2) div 2
      then (2 * (h + 1) - 1, xs[h := xs ! (2 * (h + 1) - 1)])
      else (h, xs))"
  by pat_completeness auto
termination
  by (relation "measure (\<lambda>(key, h, xs). length xs - h)") (auto intro!: diff_less_mono2 small_child_greater)

declare sift_hole.simps [simp del]

definition push_heap :: "('a \<Rightarrow> int) \<Rightarrow> 'a list \<Rightarrow> 'a list" where
  "push_heap key xs = (if xs = [] then [] else sift_up key (length xs - 1) (last xs) xs)"

definition pop_heap :: "('a \<Rightarrow> int) \<Rightarrow> 'a list \<Rightarrow> 'a list" where
  "pop_heap key xs =
     (if length xs \<le> 1 then xs
      else let (h, ys) = sift_hole key 0 (butlast xs) in sift_up key h (last xs) ys @ [hd xs])"

text \<open>The heap order: no element has a smaller key than its parent.\<close>

definition is_heap :: "('a \<Rightarrow> int) \<Rightarrow> 'a list \<Rightarrow> bool" where
  "is_heap key xs \<longleftrightarrow> (\<forall>i < length xs. 0 < i \<longrightarrow> key (xs ! ((i - 1) div 2)) \<le> key (xs ! i))"

section \<open>Lengths and contents\<close>

lemma length_sift_up [simp]: "length (sift_up key i v xs) = length xs"
proof (induction key i v xs rule: sift_up.induct)
  case (1 key i v xs)
  then show ?case by (subst sift_up.simps) auto
qed

lemma mset_list_update_swap:
  "i < length xs \<Longrightarrow> p < length xs \<Longrightarrow> i \<noteq> p \<Longrightarrow> mset (xs[i := xs ! p, p := v]) = mset (xs[i := v])"
proof -
  assume a: "i < length xs" "p < length xs" "i \<noteq> p"
  have "xs[i := xs ! p, p := v] = (xs[i := v])[i := (xs[i := v]) ! p, p := (xs[i := v]) ! i]"
    using a by (auto simp: list_eq_iff_nth_eq nth_list_update)
  then show ?thesis using a mset_swap [of p "xs[i := v]" i] by simp
qed

lemma mset_sift_up: "i < length xs \<Longrightarrow> mset (sift_up key i v xs) = mset (xs[i := v])"
proof (induction key i v xs rule: sift_up.induct)
  case (1 key i v xs)
  let ?p = "(i - 1) div 2"
  show ?case
  proof (cases "0 < i \<and> key (xs ! ?p) > key v")
    case True
    then have p: "?p < i" by auto
    have "mset (sift_up key i v xs) = mset (xs[i := xs ! ?p, ?p := v])"
      using True "1.IH" "1.prems" p by (subst sift_up.simps) simp
    with "1.prems" p show ?thesis by (simp add: mset_list_update_swap)
  next
    case False
    then show ?thesis by (subst sift_up.simps) auto
  qed
qed

lemma sift_hole_props:
  assumes "h < length xs" "sift_hole key h xs = (h', ys)"
  shows "length ys = length xs \<and> h' < length xs \<and> mset (ys[h' := v]) = mset (xs[h := v])"
  using assms
proof (induction key h xs arbitrary: h' ys rule: sift_hole.induct)
  case (1 key h xs)
  define c where "c = small_child key xs h"
  consider "h < (length xs - 1) div 2"
    | "\<not> h < (length xs - 1) div 2" "even (length xs)" "2 \<le> length xs" "h = (length xs - 2) div 2"
    | "\<not> h < (length xs - 1) div 2" "\<not> (even (length xs) \<and> 2 \<le> length xs \<and> h = (length xs - 2) div 2)"
    by blast
  then show ?case
  proof cases
    case 1
    then have c: "c < length xs" "c \<noteq> h"
      using small_child_bounds [OF 1, of key xs] by (auto simp: c_def)
    have "sift_hole key c (xs[h := xs ! c]) = (h', ys)"
      using 1 "1.prems"(2) by (subst (asm) sift_hole.simps) (simp add: c_def Let_def)
    from "1.IH" [OF 1 c_def _ this] c have "length ys = length xs \<and> h' < length xs \<and> mset (ys[h' := v]) = mset (xs[h := xs ! c, c := v])"
      by simp
    with c "1.prems"(1) show ?thesis by (simp add: mset_list_update_swap)
  next
    case 2
    then have c: "2 * (h + 1) - 1 < length xs" "2 * (h + 1) - 1 \<noteq> h" by auto
    have "h' = 2 * (h + 1) - 1" "ys = xs[h := xs ! (2 * (h + 1) - 1)]"
      using 2 "1.prems"(2) by (subst (asm) sift_hole.simps, auto)+
    with c "1.prems"(1) show ?thesis by (simp add: mset_list_update_swap)
  next
    case 3
    then have "h' = h \<and> ys = xs" using "1.prems"(2) by (subst (asm) sift_hole.simps) auto
    with "1.prems"(1) show ?thesis by simp
  qed
qed

lemma mset_push_heap [simp]: "mset (push_heap key xs) = mset xs"
  by (cases xs rule: rev_cases) (auto simp: push_heap_def mset_sift_up)

lemma length_push_heap [simp]: "length (push_heap key xs) = length xs"
  by (metis mset_push_heap size_mset)

lemma pop_heap_parts:
  assumes "xs = x # zs @ [v]" "sift_hole key 0 (x # zs) = (h, ys)"
  shows "pop_heap key xs = sift_up key h v ys @ [x]"
  using assms by (simp add: pop_heap_def)

lemma mset_pop_heap [simp]: "mset (pop_heap key xs) = mset xs"
proof (cases "length xs \<le> 1")
  case False
  then obtain x zs v where xs: "xs = x # zs @ [v]"
    by (cases xs; cases "tl xs" rule: rev_cases) auto
  obtain h ys where s: "sift_hole key 0 (x # zs) = (h, ys)" by fastforce
  have len: "length ys = length (x # zs) \<and> h < length (x # zs) \<and> mset (ys[h := v]) = mset ((x # zs)[0 := v])"
    using s by (intro sift_hole_props) auto
  then show ?thesis
    using pop_heap_parts [OF xs s] by (simp add: xs mset_sift_up)
qed (simp add: pop_heap_def)

lemma length_pop_heap [simp]: "length (pop_heap key xs) = length xs"
  by (metis mset_pop_heap size_mset)

lemma pop_heap_last: "xs \<noteq> [] \<Longrightarrow> last (pop_heap key xs) = hd xs"
  by (cases xs) (auto simp: pop_heap_def split: prod.splits)

section \<open>Heap order\<close>

text \<open>
  Order everywhere except around a hole at \<open>i\<close>, whose children still respect the parent of
  the hole.
\<close>

definition heap_hole :: "('a \<Rightarrow> int) \<Rightarrow> nat \<Rightarrow> 'a list \<Rightarrow> bool" where
  "heap_hole key i xs \<longleftrightarrow> i < length xs \<and>
     (\<forall>j < length xs. 0 < j \<and> j \<noteq> i \<and> (j - 1) div 2 \<noteq> i \<longrightarrow> key (xs ! ((j - 1) div 2)) \<le> key (xs ! j)) \<and>
     (\<forall>j < length xs. 0 < j \<and> (j - 1) div 2 = i \<and> 0 < i \<longrightarrow> key (xs ! ((i - 1) div 2)) \<le> key (xs ! j))"

lemma heap_holeD:
  assumes "heap_hole key i xs"
  shows "i < length xs"
    and "j < length xs \<Longrightarrow> 0 < j \<Longrightarrow> j \<noteq> i \<Longrightarrow> (j - 1) div 2 \<noteq> i \<Longrightarrow> key (xs ! ((j - 1) div 2)) \<le> key (xs ! j)"
    and "j < length xs \<Longrightarrow> 0 < j \<Longrightarrow> (j - 1) div 2 = i \<Longrightarrow> 0 < i \<Longrightarrow> key (xs ! ((i - 1) div 2)) \<le> key (xs ! j)"
  using assms unfolding heap_hole_def by blast+

lemma parent_less: "0 < (j :: nat) \<Longrightarrow> (j - 1) div 2 < j"
  by auto

lemma heap_hole_up:
  assumes hole: "heap_hole key i xs" and i: "0 < i"
  defines "p \<equiv> (i - 1) div 2"
  shows "heap_hole key p (xs[i := xs ! p])"
proof -
  have p: "p < i" "i < length xs" using i heap_holeD(1) [OF hole] by (auto simp: p_def)
  have ord: "key (xs ! ((j - 1) div 2)) \<le> key (xs ! j)"
    if "j < length xs" "0 < j" "j \<noteq> i" "(j - 1) div 2 \<noteq> i" for j
    using heap_holeD(2) [OF hole that] .
  have kids: "key (xs ! p) \<le> key (xs ! j)" if "j < length xs" "0 < j" "(j - 1) div 2 = i" for j
    using heap_holeD(3) [OF hole that i] by (simp add: p_def)
  have pp: "key (xs ! ((p - 1) div 2)) \<le> key (xs ! p)" if "0 < p"
    using ord [of p] that p parent_less [OF that] by simp
  show ?thesis
    unfolding heap_hole_def
  proof (intro conjI allI impI)
    show "p < length (xs[i := xs ! p])" using p by simp
  next
    fix j assume "j < length (xs[i := xs ! p])" and j: "0 < j \<and> j \<noteq> p \<and> (j - 1) div 2 \<noteq> p"
    then show "key (xs[i := xs ! p] ! ((j - 1) div 2)) \<le> key (xs[i := xs ! p] ! j)"
      using p ord [of j] kids [of j] by (auto simp: nth_list_update p_def)
  next
    fix j assume jl: "j < length (xs[i := xs ! p])" and j: "0 < j \<and> (j - 1) div 2 = p \<and> 0 < p"
    have "(p - 1) div 2 \<noteq> i" using p j by auto
    moreover have "key (xs ! p) \<le> key (xs ! j)" if "j \<noteq> i"
      using ord [of j] that j jl p by simp
    ultimately show "key (xs[i := xs ! p] ! ((p - 1) div 2)) \<le> key (xs[i := xs ! p] ! j)"
      using p pp j jl by (fastforce simp: nth_list_update)
  qed
qed

lemma heap_hole_fill:
  assumes hole: "heap_hole key i xs"
    and up: "0 < i \<Longrightarrow> key (xs ! ((i - 1) div 2)) \<le> key v"
    and down: "\<And>j. j < length xs \<Longrightarrow> 0 < j \<Longrightarrow> (j - 1) div 2 = i \<Longrightarrow> key v \<le> key (xs ! j)"
  shows "is_heap key (xs[i := v])"
  unfolding is_heap_def
proof (intro allI impI)
  fix j assume j: "j < length (xs[i := v])" "0 < j"
  have i: "i < length xs" using heap_holeD(1) [OF hole] .
  show "key (xs[i := v] ! ((j - 1) div 2)) \<le> key (xs[i := v] ! j)"
    using j i up down [of j] heap_holeD(2) [OF hole, of j] parent_less [OF j(2)]
    by (auto simp: nth_list_update)
qed

lemma is_heap_sift_up:
  "heap_hole key i xs \<Longrightarrow>
   (\<And>j. j < length xs \<Longrightarrow> 0 < j \<Longrightarrow> (j - 1) div 2 = i \<Longrightarrow> key v \<le> key (xs ! j)) \<Longrightarrow>
   is_heap key (sift_up key i v xs)"
proof (induction key i v xs rule: sift_up.induct)
  case (1 key i v xs)
  let ?p = "(i - 1) div 2"
  show ?case
  proof (cases "0 < i \<and> key (xs ! ?p) > key v")
    case True
    then have p: "?p < i" "i < length xs" using heap_holeD(1) [OF "1.prems"(1)] by auto
    have "key v \<le> key (xs[i := xs ! ?p] ! j)"
      if "j < length (xs[i := xs ! ?p])" "0 < j" "(j - 1) div 2 = ?p" for j
    proof (cases "j = i")
      case False
      then have "key (xs ! ?p) \<le> key (xs ! j)"
        using heap_holeD(2) [OF "1.prems"(1), of j] that p by simp
      with True False show ?thesis by simp
    qed (use True p in simp)
    then have "is_heap key (sift_up key ?p v (xs[i := xs ! ?p]))"
      using True heap_hole_up [OF "1.prems"(1)] by (intro "1.IH") auto
    with True show ?thesis by (subst sift_up.simps) simp
  next
    case False
    have "is_heap key (xs[i := v])"
      using heap_hole_fill [OF "1.prems"(1)] False "1.prems"(2) by force
    with False show ?thesis by (subst sift_up.simps) auto
  qed
qed

lemma heap_hole_last:
  assumes "is_heap key xs"
  shows "heap_hole key (length xs) (xs @ [x])"
  unfolding heap_hole_def
proof (intro conjI allI impI)
  fix j assume "j < length (xs @ [x])" "0 < j \<and> j \<noteq> length xs \<and> (j - 1) div 2 \<noteq> length xs"
  then have "j < length xs" "0 < j" "(j - 1) div 2 < length xs" by auto
  then show "key ((xs @ [x]) ! ((j - 1) div 2)) \<le> key ((xs @ [x]) ! j)"
    using assms by (simp add: is_heap_def nth_append)
next
  fix j assume "j < length (xs @ [x])" "0 < j \<and> (j - 1) div 2 = length xs \<and> 0 < length xs"
  then have False using parent_less [of j] by simp
  then show "key ((xs @ [x]) ! ((length xs - 1) div 2)) \<le> key ((xs @ [x]) ! j)" ..
qed simp

lemma is_heap_push:
  assumes "is_heap key xs"
  shows "is_heap key (push_heap key (xs @ [x]))"
proof -
  have "\<not> (j < length (xs @ [x]) \<and> 0 < j \<and> (j - 1) div 2 = length xs)" for j
    using parent_less [of j] by auto
  then have "is_heap key (sift_up key (length xs) x (xs @ [x]))"
    by (intro is_heap_sift_up heap_hole_last assms) blast
  then show ?thesis by (simp add: push_heap_def)
qed

lemma heap_hole_down:
  assumes hole: "heap_hole key h xs" and h: "0 < c" "c < length xs" "(c - 1) div 2 = h"
    and least: "\<And>j. j < length xs \<Longrightarrow> 0 < j \<Longrightarrow> (j - 1) div 2 = h \<Longrightarrow> key (xs ! c) \<le> key (xs ! j)"
  shows "heap_hole key c (xs[h := xs ! c])"
proof -
  have hc: "h < c" "h < length xs" using h parent_less [of c] by auto
  have ord: "key (xs ! ((j - 1) div 2)) \<le> key (xs ! j)"
    if "j < length xs" "0 < j" "j \<noteq> h" "(j - 1) div 2 \<noteq> h" for j
    using heap_holeD(2) [OF hole that] .
  have top: "key (xs ! ((h - 1) div 2)) \<le> key (xs ! c)" if "0 < h"
    using heap_holeD(3) [OF hole h(2,1,3) that] .
  show ?thesis
    unfolding heap_hole_def
  proof (intro conjI allI impI)
    show "c < length (xs[h := xs ! c])" using h by simp
  next
    fix j assume "j < length (xs[h := xs ! c])" "0 < j \<and> j \<noteq> c \<and> (j - 1) div 2 \<noteq> c"
    then show "key (xs[h := xs ! c] ! ((j - 1) div 2)) \<le> key (xs[h := xs ! c] ! j)"
      using hc top ord [of j] least [of j] parent_less [of j] by (auto simp: nth_list_update)
  next
    fix j assume j: "j < length (xs[h := xs ! c])" "0 < j \<and> (j - 1) div 2 = c \<and> 0 < c"
    then have "j \<noteq> h" using hc parent_less [of j] by auto
    then show "key (xs[h := xs ! c] ! ((c - 1) div 2)) \<le> key (xs[h := xs ! c] ! j)"
      using j hc h ord [of j] by simp
  qed
qed

text \<open>The hole sinks to a position without children, keeping the order elsewhere.\<close>

lemma children_iff: "0 < (j :: nat) \<and> (j - 1) div 2 = h \<longleftrightarrow> j = 2 * h + 1 \<or> j = 2 * h + 2"
  by auto

lemma small_child_least:
  assumes "0 < j" "(j - 1) div 2 = h"
  shows "key (xs ! small_child key xs h) \<le> key (xs ! j)"
  using assms children_iff [of j h] by (auto simp: small_child_def Let_def)

lemma sift_hole_heap:
  assumes "heap_hole key h xs" "sift_hole key h xs = (h', ys)"
  shows "heap_hole key h' ys \<and> length ys \<le> 2 * h' + 1"
  using assms
proof (induction key h xs arbitrary: h' ys rule: sift_hole.induct)
  case (1 key h xs)
  define c where "c = small_child key xs h"
  note hl = heap_holeD(1) [OF "1.prems"(1)]
  consider "h < (length xs - 1) div 2"
    | "\<not> h < (length xs - 1) div 2" "even (length xs)" "2 \<le> length xs" "h = (length xs - 2) div 2"
    | "\<not> h < (length xs - 1) div 2" "\<not> (even (length xs) \<and> 2 \<le> length xs \<and> h = (length xs - 2) div 2)"
    by blast
  then show ?case
  proof cases
    case 1
    then have c: "0 < c" "c < length xs" "(c - 1) div 2 = h"
      using small_child_bounds [OF 1, of key xs] by (auto simp: c_def)
    have "sift_hole key c (xs[h := xs ! c]) = (h', ys)"
      using 1 "1.prems"(2) by (subst (asm) sift_hole.simps) (simp add: c_def Let_def)
    moreover have "heap_hole key c (xs[h := xs ! c])"
      by (rule heap_hole_down [OF "1.prems"(1) c]) (simp add: c_def small_child_least)
    ultimately show ?thesis using "1.IH" [OF 1 c_def] by simp
  next
    case 2
    then have len: "length xs = 2 * h + 2" by auto
    have eq: "h' = 2 * h + 1" "ys = xs[h := xs ! (2 * h + 1)]"
      using 2 "1.prems"(2) by (subst (asm) sift_hole.simps, auto)+
    have "heap_hole key (2 * h + 1) (xs[h := xs ! (2 * h + 1)])"
    proof (rule heap_hole_down [OF "1.prems"(1)])
      fix j assume "j < length xs" "0 < j" "(j - 1) div 2 = h"
      then have "j = 2 * h + 1" using len children_iff [of j h] by auto
      then show "key (xs ! (2 * h + 1)) \<le> key (xs ! j)" by simp
    qed (use len in auto)
    with eq len show ?thesis by simp
  next
    case 3
    then have eq: "h' = h" "ys = xs" using "1.prems"(2) by (subst (asm) sift_hole.simps, auto)+
    have "length xs \<le> 2 * h + 1"
    proof (rule ccontr)
      assume "\<not> ?thesis"
      with 3(1) have "length xs = 2 * h + 2" by linarith
      with 3(2) show False by auto
    qed
    with eq "1.prems"(1) show ?thesis by simp
  qed
qed

lemma is_heap_hole_0: "is_heap key xs \<Longrightarrow> xs \<noteq> [] \<Longrightarrow> heap_hole key 0 xs"
  by (auto simp: is_heap_def heap_hole_def)

lemma is_heap_take: "is_heap key xs \<Longrightarrow> is_heap key (take n xs)"
  by (auto simp: is_heap_def)

lemma is_heap_Nil [simp]: "is_heap key []"
  by (simp add: is_heap_def)

lemma is_heap_pop: "is_heap key xs \<Longrightarrow> is_heap key (butlast (pop_heap key xs))"
proof (cases "length xs \<le> 1")
  case True
  then show ?thesis by (cases xs) (auto simp: pop_heap_def)
next
  case False
  assume heap: "is_heap key xs"
  from False obtain x zs v where xs: "xs = x # zs @ [v]"
    by (cases xs; cases "tl xs" rule: rev_cases) auto
  obtain h ys where s: "sift_hole key 0 (x # zs) = (h, ys)" by fastforce
  have "is_heap key (x # zs)" using is_heap_take [OF heap, of "Suc (length zs)"] by (simp add: xs)
  from sift_hole_heap [OF is_heap_hole_0 [OF this] s]
  have "heap_hole key h ys" "length ys \<le> 2 * h + 1" by auto
  moreover then have "\<not> (j < length ys \<and> 0 < j \<and> (j - 1) div 2 = h)" for j
    using children_iff [of j h] by auto
  ultimately have "is_heap key (sift_up key h v ys)" by (intro is_heap_sift_up) blast+
  then show ?thesis using pop_heap_parts [OF xs s] by simp
qed

lemma heap_root_least:
  assumes "is_heap key xs" "i < length xs"
  shows "key (xs ! 0) \<le> key (xs ! i)"
  using assms(2)
proof (induction i rule: less_induct)
  case (less i)
  show ?case
  proof (cases "i = 0")
    case False
    then have p: "(i - 1) div 2 < i" by auto
    with less have "key (xs ! 0) \<le> key (xs ! ((i - 1) div 2))" by auto
    also have "\<dots> \<le> key (xs ! i)" using assms(1) less.prems False by (simp add: is_heap_def)
    finally show ?thesis .
  qed simp
qed

lemma heap_hd_least: "is_heap key xs \<Longrightarrow> x \<in> set xs \<Longrightarrow> key (hd xs) \<le> key x"
  by (metis heap_root_least hd_conv_nth in_set_conv_nth length_pos_if_in_set length_greater_0_conv)

section \<open>The contract of the library\<close>

lemma filter_mset_empty: "\<forall>x\<in>#M. \<not> P x \<Longrightarrow> filter_mset P M = {#}"
  by (induction M) auto

lemma filter_mset_self: "\<forall>x\<in>#M. P x \<Longrightarrow> filter_mset P M = M"
  by (induction M) auto

locale std_heap =
  fixes key :: "'a \<Rightarrow> int"
    and push pop :: "'a list \<Rightarrow> 'a list"
  assumes push_mset: "mset (push xs) = mset xs"
    and push_keeps_heap: "is_heap key xs \<Longrightarrow> is_heap key (push (xs @ [x]))"
    and pop_mset: "mset (pop xs) = mset xs"
    and pop_front: "xs \<noteq> [] \<Longrightarrow> last (pop xs) = hd xs"
    and pop_keeps_heap: "is_heap key xs \<Longrightarrow> is_heap key (butlast (pop xs))"
begin

lemma pop_not_Nil: "xs \<noteq> [] \<Longrightarrow> pop xs \<noteq> []"
  using pop_mset [of xs] by auto

lemma mset_pop_back: "xs \<noteq> [] \<Longrightarrow> mset xs = add_mset (hd xs) (mset (butlast (pop xs)))"
  using pop_mset [of xs] pop_front [of xs] pop_not_Nil [of xs]
  by (metis append_butlast_last_id mset.simps(1) mset.simps(2) mset_append add_mset_add_single)

lemma length_pop_back: "xs \<noteq> [] \<Longrightarrow> length (butlast (pop xs)) < length xs"
  by (metis mset_pop_back lessI size_add_mset size_mset)

lemma set_pop_back: "xs \<noteq> [] \<Longrightarrow> set xs = insert (hd xs) (set (butlast (pop xs)))"
  by (metis mset_pop_back set_mset_add_mset_insert set_mset_mset)

end

text \<open>
  The loop that collects the due timers: a cancelled front is dropped, a front that expires
  later than \<open>now\<close> ends the loop, any other front is moved to the fired timers. The result
  is the pair of the fired timers, in the order in which they are popped, and the heap that
  is left.
\<close>

locale due_loop = std_heap key push pop
  for key :: "'a \<Rightarrow> int" and push pop :: "'a list \<Rightarrow> 'a list" +
  fixes dead :: "'a \<Rightarrow> bool"
    and loop :: "int \<Rightarrow> 'a list \<Rightarrow> 'a list \<times> 'a list"
  assumes loop_empty: "loop now [] = ([], [])"
    and loop_dead: "xs \<noteq> [] \<Longrightarrow> dead (hd xs) \<Longrightarrow> loop now xs = loop now (butlast (pop xs))"
    and loop_stop: "xs \<noteq> [] \<Longrightarrow> \<not> dead (hd xs) \<Longrightarrow> now < key (hd xs) \<Longrightarrow> loop now xs = ([], xs)"
    and loop_fire: "xs \<noteq> [] \<Longrightarrow> \<not> dead (hd xs) \<Longrightarrow> key (hd xs) \<le> now \<Longrightarrow>
      loop now xs = apfst (Cons (last (pop xs))) (loop now (butlast (pop xs)))"
begin

lemma loop_induct [case_names empty dead stop fire]:
  assumes "P []"
    and "\<And>xs. xs \<noteq> [] \<Longrightarrow> dead (hd xs) \<Longrightarrow> P (butlast (pop xs)) \<Longrightarrow> P xs"
    and "\<And>xs. xs \<noteq> [] \<Longrightarrow> \<not> dead (hd xs) \<Longrightarrow> now < key (hd xs) \<Longrightarrow> P xs"
    and "\<And>xs. xs \<noteq> [] \<Longrightarrow> \<not> dead (hd xs) \<Longrightarrow> key (hd xs) \<le> now \<Longrightarrow> P (butlast (pop xs)) \<Longrightarrow> P xs"
  shows "P xs"
proof (induction xs rule: length_induct)
  case (1 xs)
  then have "xs \<noteq> [] \<Longrightarrow> P (butlast (pop xs))" using length_pop_back by blast
  with assms show ?case by (cases "xs = []"; cases "dead (hd xs)"; cases "now < key (hd xs)") auto
qed

text \<open>What holds of any array, ordered or not.\<close>

lemma loop_fired_due: "x \<in> set (fst (loop now xs)) \<Longrightarrow> x \<in> set xs \<and> \<not> dead x \<and> key x \<le> now"
  by (induction xs rule: loop_induct [where now = now])
    (auto simp: loop_empty loop_dead loop_stop loop_fire pop_front set_pop_back)

lemma loop_rest_subset: "set (snd (loop now xs)) \<subseteq> set xs"
  by (induction xs rule: loop_induct [where now = now])
    (auto simp: loop_empty loop_dead loop_stop loop_fire set_pop_back)

lemma loop_conserves:
  "filter_mset (\<lambda>x. \<not> dead x) (mset xs) =
   mset (fst (loop now xs)) + filter_mset (\<lambda>x. \<not> dead x) (mset (snd (loop now xs)))"
  by (induction xs rule: loop_induct [where now = now])
    (auto simp: loop_empty loop_dead loop_stop loop_fire pop_front mset_pop_back)

lemma loop_front_later:
  "snd (loop now xs) \<noteq> [] \<Longrightarrow>
   \<not> dead (hd (snd (loop now xs))) \<and> now < key (hd (snd (loop now xs)))"
  by (induction xs rule: loop_induct [where now = now])
    (auto simp: loop_empty loop_dead loop_stop loop_fire)

text \<open>What the heap order adds.\<close>

lemma loop_rest_heap: "is_heap key xs \<Longrightarrow> is_heap key (snd (loop now xs))"
  by (induction xs rule: loop_induct [where now = now])
    (auto simp: loop_empty loop_dead loop_stop loop_fire pop_keeps_heap)

lemma loop_fired_sorted: "is_heap key xs \<Longrightarrow> sorted (map key (fst (loop now xs)))"
proof (induction xs rule: loop_induct [where now = now])
  case (fire xs)
  have "key (hd xs) \<le> key x" if "x \<in> set (fst (loop now (butlast (pop xs))))" for x
    using loop_fired_due [OF that] set_pop_back [OF fire.hyps(1)] heap_hd_least [OF fire.prems] by auto
  with fire show ?case by (auto simp: loop_fire pop_front pop_keeps_heap)
qed (auto simp: loop_empty loop_dead loop_stop pop_keeps_heap)

lemma loop_rest_later: "is_heap key xs \<Longrightarrow> x \<in> set (snd (loop now xs)) \<Longrightarrow> now < key x"
  using loop_front_later [of now xs] heap_hd_least [OF loop_rest_heap, of xs x now]
  by (cases "snd (loop now xs) = []") auto

lemma loop_fired_exact:
  assumes "is_heap key xs"
  shows "mset (fst (loop now xs)) = filter_mset (\<lambda>x. \<not> dead x \<and> key x \<le> now) (mset xs)"
proof -
  have "filter_mset (\<lambda>x. key x \<le> now) (filter_mset (\<lambda>x. \<not> dead x) (mset (snd (loop now xs)))) = {#}"
    using loop_rest_later [OF assms, of _ now] by (intro filter_mset_empty) force
  moreover have "filter_mset (\<lambda>x. key x \<le> now) (mset (fst (loop now xs))) = mset (fst (loop now xs))"
    using loop_fired_due [of _ now xs] by (intro filter_mset_self) auto
  ultimately have "mset (fst (loop now xs)) =
      filter_mset (\<lambda>x. key x \<le> now) (filter_mset (\<lambda>x. \<not> dead x) (mset xs))"
    by (simp add: loop_conserves [of xs now])
  then show ?thesis by (simp add: filter_filter_mset conj_commute)
qed

lemma loop_rest_exact:
  assumes "is_heap key xs"
  shows "filter_mset (\<lambda>x. \<not> dead x) (mset (snd (loop now xs))) =
    filter_mset (\<lambda>x. \<not> dead x \<and> now < key x) (mset xs)"
proof -
  have "filter_mset (\<lambda>x. now < key x) (mset (fst (loop now xs))) = {#}"
    using loop_fired_due [of _ now xs] by (intro filter_mset_empty) force
  moreover have "filter_mset (\<lambda>x. now < key x) (filter_mset (\<lambda>x. \<not> dead x) (mset (snd (loop now xs)))) =
      filter_mset (\<lambda>x. \<not> dead x) (mset (snd (loop now xs)))"
    using loop_rest_later [OF assms, of _ now] by (intro filter_mset_self) auto
  ultimately have "filter_mset (\<lambda>x. \<not> dead x) (mset (snd (loop now xs))) =
      filter_mset (\<lambda>x. now < key x) (filter_mset (\<lambda>x. \<not> dead x) (mset xs))"
    by (simp add: loop_conserves [of xs now])
  then show ?thesis by (simp add: filter_filter_mset conj_commute)
qed

end

interpretation heap: std_heap key "push_heap key" "pop_heap key" for key :: "'a \<Rightarrow> int"
  by unfold_locales (simp_all add: is_heap_push is_heap_pop pop_heap_last)

end
