(* ===== verification/Timer.thy ===== *)
theory Timer
  imports Std_Heap
begin

text \<open>
  \<open>src/base/timer/timer.h\<close> and \<open>timer.cpp\<close>, class \<open>Timer\<close>: the single-threaded timer queue
  that an event loop drives through \<open>poll\<close>. Callbacks are values of a type parameter; the
  function \<open>run\<close> says what calling one does: whether it returns or throws and how it
  changes the timer it was called from, since a callback may add, cancel or clear timers.
  The result of \<open>get_tick_ms()\<close> is an argument of the operations that read the clock.
\<close>

section \<open>Data\<close>

record 'c timer_item =
  ti_id :: int
  ti_expire_at :: int
  ti_interval_ms :: int
  ti_callback :: "'c option"
  ti_cancelled :: bool

definition is_repeating :: "'c timer_item \<Rightarrow> bool" where
  "is_repeating x \<longleftrightarrow> ti_interval_ms x > 0"

record 'c timer =
  t_next_id :: int
  t_items :: "'c timer_item list"

text \<open>How a callback ends: \<open>poll\<close> catches \<open>std::exception\<close> and nothing else.\<close>

datatype outcome = Returns | Throws_Std | Throws_Other

section \<open>Operations\<close>

definition Timer_new :: "'c timer" where
  "Timer_new = \<lparr>t_next_id = 0, t_items = []\<rparr>"

definition Timer_add :: "int \<Rightarrow> int \<Rightarrow> 'c option \<Rightarrow> 'c timer \<Rightarrow> int \<times> 'c timer" where
  "Timer_add now after_ms cb t =
     (if cb = None \<or> after_ms \<le> 0 then (-1, t)
      else let i = t_next_id t + 1;
               item = \<lparr>ti_id = i, ti_expire_at = i64 (now + after_ms), ti_interval_ms = 0,
                       ti_callback = cb, ti_cancelled = False\<rparr>
           in (i, \<lparr>t_next_id = i, t_items = push_heap ti_expire_at (t_items t @ [item])\<rparr>))"

definition Timer_add_repeating :: "int \<Rightarrow> int \<Rightarrow> 'c option \<Rightarrow> 'c timer \<Rightarrow> int \<times> 'c timer" where
  "Timer_add_repeating now interval_ms cb t =
     (if cb = None \<or> interval_ms \<le> 0 then (-1, t)
      else let i = t_next_id t + 1;
               item = \<lparr>ti_id = i, ti_expire_at = i64 (now + interval_ms), ti_interval_ms = interval_ms,
                       ti_callback = cb, ti_cancelled = False\<rparr>
           in (i, \<lparr>t_next_id = i, t_items = push_heap ti_expire_at (t_items t @ [item])\<rparr>))"

fun cancel_item :: "int \<Rightarrow> 'c timer_item list \<Rightarrow> bool \<times> 'c timer_item list" where
  "cancel_item i [] = (False, [])"
| "cancel_item i (x # xs) =
     (if ti_id x = i then (True, x\<lparr>ti_cancelled := True\<rparr> # xs)
      else let (r, ys) = cancel_item i xs in (r, x # ys))"

definition Timer_cancel :: "int \<Rightarrow> 'c timer \<Rightarrow> bool \<times> 'c timer" where
  "Timer_cancel i t = (let (r, xs) = cancel_item i (t_items t) in (r, t\<lparr>t_items := xs\<rparr>))"

definition Timer_clear :: "'c timer \<Rightarrow> 'c timer" where
  "Timer_clear t = t\<lparr>t_items := []\<rparr>"

text \<open>The first loop of \<open>poll\<close>: the fired timers and the heap that is left.\<close>

function poll_due :: "int \<Rightarrow> 'c timer_item list \<Rightarrow> 'c timer_item list \<times> 'c timer_item list" where
  "poll_due now xs =
     (if xs = [] then ([], [])
      else if ti_cancelled (hd xs) then poll_due now (butlast (pop_heap ti_expire_at xs))
      else if ti_expire_at (hd xs) > now then ([], xs)
      else apfst (Cons (last (pop_heap ti_expire_at xs)))
             (poll_due now (butlast (pop_heap ti_expire_at xs))))"
  by pat_completeness auto
termination
  by (relation "measure (length \<circ> snd)") (auto simp: heap.length_pop_back [simplified])

declare poll_due.simps [simp del]

definition rearm :: "int \<Rightarrow> 'c timer_item \<Rightarrow> 'c timer \<Rightarrow> 'c timer" where
  "rearm now x t =
     (let i = t_next_id t + 1;
          nt = \<lparr>ti_id = i, ti_expire_at = i64 (now + ti_interval_ms x),
                ti_interval_ms = ti_interval_ms x, ti_callback = ti_callback x, ti_cancelled = False\<rparr>
      in \<lparr>t_next_id = i, t_items = push_heap ti_expire_at (t_items t @ [nt])\<rparr>)"

text \<open>
  The second loop: the fired timers are called in turn. The result says whether an exception
  left the loop, which callbacks were called, and the timer at the end.
\<close>

definition fire_timer :: "('c \<Rightarrow> 'c timer \<Rightarrow> outcome \<times> 'c timer) \<Rightarrow> int \<Rightarrow> 'c timer_item \<Rightarrow> 'c timer \<Rightarrow>
    bool \<times> 'c list \<times> 'c timer" where
  "fire_timer run now x t =
     (if ti_cancelled x then (False, [], t)
      else let (out, calls, t1) =
                 (case ti_callback x of
                    None \<Rightarrow> (Returns, [], t)
                  | Some c \<Rightarrow> (fst (run c t), [c], snd (run c t)))
           in if out = Throws_Other then (True, calls, t1)
              else (False, calls, if ti_interval_ms x > 0 then rearm now x t1 else t1))"

fun fire_timers :: "('c \<Rightarrow> 'c timer \<Rightarrow> outcome \<times> 'c timer) \<Rightarrow> int \<Rightarrow> 'c timer_item list \<Rightarrow> 'c timer \<Rightarrow>
    bool \<times> 'c list \<times> 'c timer" where
  "fire_timers run now [] t = (False, [], t)"
| "fire_timers run now (x # xs) t =
     (let (threw, calls, t1) = fire_timer run now x t
      in if threw then (True, calls, t1)
         else let (threw', calls', t2) = fire_timers run now xs t1 in (threw', calls @ calls', t2))"

text \<open>\<open>poll\<close> returns nothing (\<open>None\<close>) when a callback's exception passes through it.\<close>

definition Timer_poll :: "('c \<Rightarrow> 'c timer \<Rightarrow> outcome \<times> 'c timer) \<Rightarrow> int \<Rightarrow> 'c timer \<Rightarrow>
    int option \<times> 'c list \<times> 'c timer" where
  "Timer_poll run now t =
     (let (fired, rest) = poll_due now (t_items t);
          (threw, calls, t') = fire_timers run now fired (t\<lparr>t_items := rest\<rparr>)
      in (if threw then None
          else Some (if t_items t' = [] then -1 else i64 (ti_expire_at (hd (t_items t')) - now)),
          calls, t'))"

fun first_live :: "'c timer_item list \<Rightarrow> int" where
  "first_live [] = -1"
| "first_live (x # xs) = (if \<not> ti_cancelled x then ti_expire_at x else first_live xs)"

definition nearest_expire :: "'c timer \<Rightarrow> int" where
  "nearest_expire t = (if t_items t = [] then -1 else first_live (t_items t))"

definition Timer_size :: "'c timer \<Rightarrow> nat" where
  "Timer_size t = length (filter (\<lambda>x. \<not> ti_cancelled x) (t_items t))"

section \<open>The due loop\<close>

interpretation tm: due_loop ti_expire_at "push_heap ti_expire_at" "pop_heap ti_expire_at"
    ti_cancelled poll_due
  by unfold_locales (simp_all add: poll_due.simps)

section \<open>Invariant\<close>

text \<open>
  The items form a heap on the expiry time, and their identifiers are distinct and among
  those handed out so far.
\<close>

definition timer_ok :: "'c timer \<Rightarrow> bool" where
  "timer_ok t \<longleftrightarrow> is_heap ti_expire_at (t_items t) \<and> distinct (map ti_id (t_items t)) \<and>
     (\<forall>x\<in>set (t_items t). 0 < ti_id x \<and> ti_id x \<le> t_next_id t) \<and> 0 \<le> t_next_id t"

lemma timer_okI [intro?]:
  assumes "is_heap ti_expire_at (t_items t)" "distinct (map ti_id (t_items t))"
    "\<And>x. x \<in> set (t_items t) \<Longrightarrow> 0 < ti_id x \<and> ti_id x \<le> t_next_id t" "0 \<le> t_next_id t"
  shows "timer_ok t"
  using assms by (simp add: timer_ok_def)

lemma distinct_map_mset: "mset xs = mset ys \<Longrightarrow> distinct (map f xs) = distinct (map f ys)"
  by (metis distinct_count_atmost_1 mset_map set_map set_mset_mset)

lemma set_push_heap [simp]: "set (push_heap key xs) = set xs"
  by (metis mset_push_heap set_mset_mset)

lemma timer_ok_insert:
  assumes "timer_ok t" "ti_id x = t_next_id t + 1"
  shows "timer_ok \<lparr>t_next_id = t_next_id t + 1, t_items = push_heap ti_expire_at (t_items t @ [x])\<rparr>"
proof
  have "ti_id x \<notin> ti_id ` set (t_items t)" using assms by (force simp: timer_ok_def)
  then have "distinct (map ti_id (t_items t @ [x]))" using assms by (auto simp: timer_ok_def)
  then show "distinct (map ti_id (t_items \<lparr>t_next_id = t_next_id t + 1,
      t_items = push_heap ti_expire_at (t_items t @ [x])\<rparr>))"
    by (simp only: timer.simps distinct_map_mset [OF mset_push_heap])
qed (use assms in \<open>auto simp: timer_ok_def is_heap_push\<close>)

lemma timer_ok_new: "timer_ok Timer_new"
  by (simp add: timer_ok_def Timer_new_def)

lemma timer_ok_add: "timer_ok t \<Longrightarrow> timer_ok (snd (Timer_add now after_ms cb t))"
  using timer_ok_insert by (fastforce simp: Timer_add_def Let_def)

lemma timer_ok_add_repeating: "timer_ok t \<Longrightarrow> timer_ok (snd (Timer_add_repeating now i cb t))"
  using timer_ok_insert by (fastforce simp: Timer_add_repeating_def Let_def)

lemma timer_ok_rearm: "timer_ok t \<Longrightarrow> timer_ok (rearm now x t)"
  using timer_ok_insert by (fastforce simp: rearm_def Let_def)

text \<open>Cancelling changes a flag and nothing that the invariant reads.\<close>

lemma cancel_item_map:
  "snd (cancel_item i xs) =
   map (\<lambda>x. x) (takeWhile (\<lambda>x. ti_id x \<noteq> i) xs) @
   (case dropWhile (\<lambda>x. ti_id x \<noteq> i) xs of [] \<Rightarrow> [] | y # ys \<Rightarrow> y\<lparr>ti_cancelled := True\<rparr> # ys)"
  by (induction i xs rule: cancel_item.induct) (auto split: prod.splits)

lemma cancel_item_fields [simp]:
  "map ti_id (snd (cancel_item i xs)) = map ti_id xs"
  "map ti_expire_at (snd (cancel_item i xs)) = map ti_expire_at xs"
  "map ti_callback (snd (cancel_item i xs)) = map ti_callback xs"
  "map ti_interval_ms (snd (cancel_item i xs)) = map ti_interval_ms xs"
  by (induction i xs rule: cancel_item.induct) (auto split: prod.splits)

lemma length_cancel_item [simp]: "length (snd (cancel_item i xs)) = length xs"
  by (metis cancel_item_fields(1) length_map)

lemma is_heap_map: "is_heap key xs \<longleftrightarrow> is_heap (\<lambda>v. v) (map key xs)"
  by (auto simp: is_heap_def)

lemma timer_ok_cancel: "timer_ok t \<Longrightarrow> timer_ok (snd (Timer_cancel i t))"
proof -
  assume ok: "timer_ok t"
  let ?ys = "snd (cancel_item i (t_items t))"
  have ids: "ti_id ` set ?ys = ti_id ` set (t_items t)"
    by (metis cancel_item_fields(1) set_map)
  have "is_heap ti_expire_at ?ys"
    using ok by (subst is_heap_map) (simp add: timer_ok_def is_heap_map [symmetric])
  moreover have "0 < ti_id x \<and> ti_id x \<le> t_next_id t" if "x \<in> set ?ys" for x
  proof -
    from that ids obtain y where "y \<in> set (t_items t)" "ti_id y = ti_id x" by (metis imageE imageI)
    with ok show ?thesis by (auto simp: timer_ok_def)
  qed
  ultimately show ?thesis
    using ok by (auto simp: Timer_cancel_def timer_ok_def split_beta)
qed

lemma timer_ok_clear: "timer_ok t \<Longrightarrow> timer_ok (Timer_clear t)"
  by (simp add: Timer_clear_def timer_ok_def)

lemma distinct_map_subseteq_mset:
  "mset ys \<subseteq># mset xs \<Longrightarrow> distinct (map f xs) \<Longrightarrow> distinct (map f ys)"
proof -
  assume "mset ys \<subseteq># mset xs" "distinct (map f xs)"
  then obtain zs where "mset xs = mset (ys @ zs)" by (metis ex_mset mset_append subset_mset.add_diff_inverse)
  with \<open>distinct (map f xs)\<close> show ?thesis by (metis distinct_append distinct_map_mset map_append)
qed

lemma pop_back_submset: "xs \<noteq> [] \<Longrightarrow> mset (butlast (pop_heap key xs)) \<subseteq># mset xs"
  using heap.mset_pop_back [of xs key] by simp

lemma poll_due_submset: "mset (snd (poll_due now xs)) \<subseteq># mset xs"
proof (induction xs rule: tm.loop_induct [where now = now])
  case (dead xs)
  then show ?case
    using pop_back_submset [of xs ti_expire_at] by (simp add: tm.loop_dead subset_mset.order_trans)
next
  case (fire xs)
  then show ?case
    using pop_back_submset [of xs ti_expire_at] by (simp add: tm.loop_fire subset_mset.order_trans)
qed (simp_all add: tm.loop_empty tm.loop_stop)

lemma timer_ok_due: "timer_ok t \<Longrightarrow> timer_ok (t\<lparr>t_items := snd (poll_due now (t_items t))\<rparr>)"
  using tm.loop_rest_subset [of now "t_items t"] distinct_map_subseteq_mset [OF poll_due_submset]
  by (auto simp: timer_ok_def tm.loop_rest_heap)

text \<open>Callbacks that use only the operations of the timer keep its invariant.\<close>

definition keeps_timer :: "('c \<Rightarrow> 'c timer \<Rightarrow> outcome \<times> 'c timer) \<Rightarrow> bool" where
  "keeps_timer run \<longleftrightarrow> (\<forall>c t. timer_ok t \<longrightarrow> timer_ok (snd (run c t)))"

lemma timer_ok_fire_timer: "keeps_timer run \<Longrightarrow> timer_ok t \<Longrightarrow> timer_ok (snd (snd (fire_timer run now x t)))"
  by (auto simp: fire_timer_def keeps_timer_def timer_ok_rearm Let_def split: option.splits)

lemma timer_ok_fire: "keeps_timer run \<Longrightarrow> timer_ok t \<Longrightarrow> timer_ok (snd (snd (fire_timers run now xs t)))"
proof (induction xs arbitrary: t)
  case (Cons x xs)
  obtain b cs t1 where f: "fire_timer run now x t = (b, cs, t1)" by (metis prod_cases3)
  then have "timer_ok t1" using timer_ok_fire_timer [OF Cons.prems, of now x] by simp
  from Cons.IH [OF Cons.prems(1) this] this show ?case by (simp add: f split_beta Let_def)
qed simp

lemma timer_ok_poll: "keeps_timer run \<Longrightarrow> timer_ok t \<Longrightarrow> timer_ok (snd (snd (Timer_poll run now t)))"
  using timer_ok_fire [OF _ timer_ok_due, of run t now "fst (poll_due now (t_items t))" now]
  by (simp add: Timer_poll_def split_beta Let_def)

text \<open>The timers that a program can reach with these operations.\<close>

inductive timer_reachable :: "('c \<Rightarrow> 'c timer \<Rightarrow> outcome \<times> 'c timer) \<Rightarrow> 'c timer \<Rightarrow> bool" for run where
  reach_new: "timer_reachable run Timer_new"
| reach_add: "timer_reachable run t \<Longrightarrow> timer_reachable run (snd (Timer_add now after_ms cb t))"
| reach_add_repeating: "timer_reachable run t \<Longrightarrow> timer_reachable run (snd (Timer_add_repeating now i cb t))"
| reach_cancel: "timer_reachable run t \<Longrightarrow> timer_reachable run (snd (Timer_cancel i t))"
| reach_clear: "timer_reachable run t \<Longrightarrow> timer_reachable run (Timer_clear t)"
| reach_poll: "timer_reachable run t \<Longrightarrow> timer_reachable run (snd (snd (Timer_poll run now t)))"

lemmas timer_ok_ops = timer_ok_new timer_ok_add timer_ok_add_repeating timer_ok_cancel
  timer_ok_clear timer_ok_poll

section \<open>What \<open>poll\<close> calls\<close>

lemma fire_timers_calls:
  assumes "\<And>c s. fst (run c s) \<noteq> Throws_Other" "\<forall>x\<in>set xs. \<not> ti_cancelled x"
  shows "fst (fire_timers run now xs t) = False \<and>
    fst (snd (fire_timers run now xs t)) = List.map_filter ti_callback xs"
  using assms(2)
  by (induction xs arbitrary: t)
    (auto simp: assms(1) fire_timer_def Let_def List.map_filter_def split_beta split: option.splits)

lemma poll_calls:
  assumes "\<And>c s. fst (run c s) \<noteq> Throws_Other"
  shows "fst (snd (Timer_poll run now t)) = List.map_filter ti_callback (fst (poll_due now (t_items t)))"
proof -
  have "\<forall>x\<in>set (fst (poll_due now (t_items t))). \<not> ti_cancelled x"
    using tm.loop_fired_due by blast
  from fire_timers_calls [OF assms this] show ?thesis
    by (simp add: Timer_poll_def split_beta Let_def)
qed

definition due :: "int \<Rightarrow> 'c timer_item \<Rightarrow> bool" where
  "due now x \<longleftrightarrow> \<not> ti_cancelled x \<and> ti_expire_at x \<le> now"

section \<open>What \<open>poll\<close> leaves behind\<close>

text \<open>The effect of one fired timer: its callback acts on the timer, then a repeating one is queued again.\<close>

definition fired_effect :: "('c \<Rightarrow> 'c timer \<Rightarrow> outcome \<times> 'c timer) \<Rightarrow> int \<Rightarrow> 'c timer_item \<Rightarrow> 'c timer \<Rightarrow> 'c timer" where
  "fired_effect run now x t =
     (let t1 = (case ti_callback x of None \<Rightarrow> t | Some c \<Rightarrow> snd (run c t))
      in if is_repeating x then rearm now x t1 else t1)"

lemma fire_timers_effects:
  assumes "\<And>c s. fst (run c s) \<noteq> Throws_Other" "\<forall>x\<in>set xs. \<not> ti_cancelled x"
  shows "snd (snd (fire_timers run now xs t)) = fold (fired_effect run now) xs t"
  using assms(2)
proof (induction xs arbitrary: t)
  case (Cons x xs)
  have "fire_timer run now x t = (False, List.map_filter ti_callback [x], fired_effect run now x t)"
    using assms(1) Cons.prems
    by (auto simp: fire_timer_def fired_effect_def Let_def List.map_filter_def is_repeating_def split: option.splits)
  with Cons show ?case by (simp add: split_beta Let_def)
qed simp

lemma poll_effects:
  assumes "\<And>c s. fst (run c s) \<noteq> Throws_Other" "Timer_poll run now t = (r, calls, t')"
  shows "t' = fold (fired_effect run now) (fst (poll_due now (t_items t))) (t\<lparr>t_items := snd (poll_due now (t_items t))\<rparr>)"
    and "r = Some (if t_items t' = [] then -1 else i64 (ti_expire_at (hd (t_items t')) - now))"
proof -
  have live: "\<forall>x\<in>set (fst (poll_due now (t_items t))). \<not> ti_cancelled x" using tm.loop_fired_due by blast
  show "t' = fold (fired_effect run now) (fst (poll_due now (t_items t))) (t\<lparr>t_items := snd (poll_due now (t_items t))\<rparr>)"
    using fire_timers_effects [of run, OF assms(1) live, of now "t\<lparr>t_items := snd (poll_due now (t_items t))\<rparr>"] assms(2)
    by (auto simp: Timer_poll_def split_beta Let_def)
  show "r = Some (if t_items t' = [] then -1 else i64 (ti_expire_at (hd (t_items t')) - now))"
    using fire_timers_calls [of run, OF assms(1) live, of now "t\<lparr>t_items := snd (poll_due now (t_items t))\<rparr>"] assms(2)
    by (auto simp: Timer_poll_def split_beta Let_def)
qed

text \<open>The value returned is the time to the earliest queued expiry.\<close>

lemma poll_returns_earliest:
  assumes "timer_ok t" "keeps_timer run" "\<And>c s. fst (run c s) \<noteq> Throws_Other" "Timer_poll run now t = (r, calls, t')"
  shows "r = Some (if t_items t' = [] then -1 else i64 (Min (ti_expire_at ` set (t_items t')) - now))"
proof -
  have "timer_ok t'" using timer_ok_poll [OF assms(2,1), of now] assms(4) by simp
  then have "ti_expire_at (hd (t_items t')) = Min (ti_expire_at ` set (t_items t'))" if "t_items t' \<noteq> []"
    using that heap_hd_least [of ti_expire_at "t_items t'"]
    by (intro Min_eqI [symmetric]) (auto simp: timer_ok_def)
  then show ?thesis using poll_effects(2) [OF assms(3,4)] by auto
qed

text \<open>Callbacks that do not touch the timer and throw nothing but \<open>std::exception\<close>.\<close>

definition passive_run :: "('c \<Rightarrow> 'c timer \<Rightarrow> outcome \<times> 'c timer) \<Rightarrow> bool" where
  "passive_run run \<longleftrightarrow> (\<forall>c t. snd (run c t) = t \<and> fst (run c t) \<noteq> Throws_Other)"

lemma passive_keeps: "passive_run run \<Longrightarrow> keeps_timer run"
  by (simp add: passive_run_def keeps_timer_def)

lemma passive_no_throw: "passive_run run \<Longrightarrow> fst (run c t) \<noteq> Throws_Other"
  by (simp add: passive_run_def)

lemma fold_fired_passive:
  "passive_run run \<Longrightarrow> fold (fired_effect run now) xs t = fold (rearm now) (filter is_repeating xs) t"
  by (induction xs arbitrary: t) (simp_all add: fired_effect_def passive_run_def split: option.splits)

lemma poll_passive:
  assumes "passive_run run"
  shows "snd (snd (Timer_poll run now t)) = fold (rearm now)
      (filter is_repeating (fst (poll_due now (t_items t)))) (t\<lparr>t_items := snd (poll_due now (t_items t))\<rparr>)"
proof -
  obtain r calls t' where p: "Timer_poll run now t = (r, calls, t')" by (metis prod_cases3)
  then show ?thesis
    using poll_effects(1) [OF passive_no_throw [OF assms] p] by (simp add: fold_fired_passive [OF assms])
qed

text \<open>What a timer item will do: everything of it but its identifier.\<close>

definition plan :: "'c timer_item \<Rightarrow> int \<times> int \<times> 'c option \<times> bool" where
  "plan x = (ti_expire_at x, ti_interval_ms x, ti_callback x, ti_cancelled x)"

definition next_plan :: "int \<Rightarrow> 'c timer_item \<Rightarrow> int \<times> int \<times> 'c option \<times> bool" where
  "next_plan now x = (i64 (now + ti_interval_ms x), ti_interval_ms x, ti_callback x, False)"

lemma rearm_fields:
  "t_next_id (rearm now x t) = t_next_id t + 1"
  "image_mset plan (mset (t_items (rearm now x t))) =
     add_mset (next_plan now x) (image_mset plan (mset (t_items t)))"
  "\<exists>y. set (t_items (rearm now x t)) = insert y (set (t_items t)) \<and> ti_id y = t_next_id t + 1 \<and>
     plan y = next_plan now x"
proof -
  define y where "y = \<lparr>ti_id = t_next_id t + 1, ti_expire_at = i64 (now + ti_interval_ms x),
    ti_interval_ms = ti_interval_ms x, ti_callback = ti_callback x, ti_cancelled = False\<rparr>"
  have y: "plan y = next_plan now x" "ti_id y = t_next_id t + 1"
    by (simp_all add: plan_def next_plan_def y_def)
  have r: "rearm now x t = \<lparr>t_next_id = t_next_id t + 1, t_items = push_heap ti_expire_at (t_items t @ [y])\<rparr>"
    by (simp add: rearm_def Let_def y_def)
  show "t_next_id (rearm now x t) = t_next_id t + 1" by (simp add: r)
  show "image_mset plan (mset (t_items (rearm now x t))) =
      add_mset (next_plan now x) (image_mset plan (mset (t_items t)))"
    by (simp add: r y)
  show "\<exists>y. set (t_items (rearm now x t)) = insert y (set (t_items t)) \<and> ti_id y = t_next_id t + 1 \<and>
      plan y = next_plan now x"
    using y by (intro exI [of _ y]) (simp add: r)
qed

lemma fold_rearm_fields:
  "t_next_id (fold (rearm now) xs t) = t_next_id t + int (length xs)"
  "image_mset plan (mset (t_items (fold (rearm now) xs t))) =
     image_mset plan (mset (t_items t)) + image_mset (next_plan now) (mset xs)"
  by (induction xs arbitrary: t) (simp_all add: rearm_fields)

lemma fold_rearm_ids:
  "y \<in> set (t_items (fold (rearm now) xs t)) \<Longrightarrow> y \<in> set (t_items t) \<or> t_next_id t < ti_id y"
proof (induction xs arbitrary: t)
  case (Cons x xs)
  obtain z where z: "set (t_items (rearm now x t)) = insert z (set (t_items t))" "ti_id z = t_next_id t + 1"
    using rearm_fields(3) [of now x t] by blast
  from Cons.prems have "y \<in> set (t_items (rearm now x t)) \<or> t_next_id (rearm now x t) < ti_id y"
    by (intro Cons.IH) simp
  then show ?case using z rearm_fields(1) [of now x t] by auto
qed simp

lemma cancel_item_found: "fst (cancel_item i xs) \<longleftrightarrow> i \<in> ti_id ` set xs"
  by (induction i xs rule: cancel_item.induct) (auto simp: split_beta)

lemma cancel_item_live:
  "distinct (map ti_id xs) \<Longrightarrow>
   filter_mset (due now) (mset (snd (cancel_item i xs))) =
   filter_mset (\<lambda>x. due now x \<and> ti_id x \<noteq> i) (mset xs)"
proof (induction i xs rule: cancel_item.induct)
  case (2 i x xs)
  have "filter_mset (\<lambda>y. due now y \<and> ti_id y \<noteq> i) (mset xs) = filter_mset (due now) (mset xs)"
    if "ti_id x = i" using 2(2) that by (intro filter_mset_cong) (rule refl, simp, metis image_eqI)
  moreover have "\<not> due now (x\<lparr>ti_cancelled := True\<rparr>)" by (simp add: due_def)
  ultimately show ?case using 2 by (auto simp: split_beta)
qed simp

lemma due_eq: "due now = (\<lambda>x. \<not> ti_cancelled x \<and> ti_expire_at x \<le> now)"
  by (simp add: due_def fun_eq_iff)

lemma poll_due_fired_iff:
  assumes "is_heap ti_expire_at xs"
  shows "x \<in> set (fst (poll_due now xs)) \<longleftrightarrow> x \<in> set xs \<and> due now x"
  using arg_cong [OF tm.loop_fired_exact [OF assms, of now], of set_mset] by (auto simp: due_def)

lemma poll_due_id_gone:
  assumes "timer_ok t" "x \<in> set (t_items t)" "due now x"
  shows "ti_id x \<notin> ti_id ` set (snd (poll_due now (t_items t)))"
proof
  assume "ti_id x \<in> ti_id ` set (snd (poll_due now (t_items t)))"
  then obtain y where y: "y \<in> set (snd (poll_due now (t_items t)))" "ti_id x = ti_id y" by blast
  have "y \<in> set (t_items t)" using y(1) tm.loop_rest_subset by blast
  then have "y = x" using assms(1,2) y(2) by (auto simp: timer_ok_def distinct_map dest: inj_onD)
  then have "now < ti_expire_at x" using tm.loop_rest_later [OF _ y(1)] assms(1) by (simp add: timer_ok_def)
  with assms(3) show False by (simp add: due_def)
qed

section \<open>Concrete timers\<close>

text \<open>Timers used to instantiate the results: adds at times 0, callbacks are numbers.\<close>

definition quiet :: "nat \<Rightarrow> nat timer \<Rightarrow> outcome \<times> nat timer" where
  "quiet c t = (Returns, t)"

definition sample_timer :: "nat timer" where
  "sample_timer = snd (Timer_add 0 20 (Some 2) (snd (Timer_add_repeating 0 5 (Some 1) (snd
     (Timer_add 0 10 (Some 0) Timer_new)))))"

lemma quiet_passive: "passive_run quiet"
  by (simp add: passive_run_def quiet_def)

lemma sample_timer_ok: "timer_ok sample_timer"
  by (simp add: sample_timer_def timer_ok_ops)

lemma sample_timer_items:
  "t_items sample_timer =
    [\<lparr>ti_id = 2, ti_expire_at = 5, ti_interval_ms = 5, ti_callback = Some 1, ti_cancelled = False\<rparr>,
     \<lparr>ti_id = 1, ti_expire_at = 10, ti_interval_ms = 0, ti_callback = Some 0, ti_cancelled = False\<rparr>,
     \<lparr>ti_id = 3, ti_expire_at = 20, ti_interval_ms = 0, ti_callback = Some 2, ti_cancelled = False\<rparr>]"
  by code_simp

section \<open>Properties\<close>

text \<open>
  C14: In every timer that the operations can produce, the array is a heap on the expiry
  time and the identifiers are distinct, positive and at most the counter, provided the
  callbacks keep that invariant when they use the timer.
\<close>

theorem timer_reachable_ok:
  assumes "keeps_timer run" "timer_reachable run t"
  shows "timer_ok t"
  using assms(2) by induction (simp_all add: timer_ok_ops assms(1))

theorem timer_reachable_ok_witness: "timer_reachable quiet sample_timer \<and> timer_ok sample_timer"
proof -
  have "timer_reachable quiet sample_timer"
    unfolding sample_timer_def by (intro timer_reachable.intros)
  with timer_reachable_ok [OF passive_keeps [OF quiet_passive] this] show ?thesis by simp
qed

text \<open>
  C9: One \<open>poll\<close> calls exactly the timers that are due and not cancelled, each once, in the
  order of their expiry times, whatever the callbacks do to the timer, as long as none
  throws something other than a \<open>std::exception\<close>.
\<close>

theorem poll_fires_due_in_order:
  assumes "timer_ok t" "\<And>c s. fst (run c s) \<noteq> Throws_Other"
  shows "\<exists>fired. mset fired = filter_mset (due now) (mset (t_items t)) \<and>
    sorted (map ti_expire_at fired) \<and>
    fst (snd (Timer_poll run now t)) = List.map_filter ti_callback fired"
proof (intro exI conjI)
  have heap: "is_heap ti_expire_at (t_items t)" using assms(1) by (simp add: timer_ok_def)
  show "mset (fst (poll_due now (t_items t))) = filter_mset (due now) (mset (t_items t))"
    using tm.loop_fired_exact [OF heap] by (simp add: due_def [abs_def])
  show "sorted (map ti_expire_at (fst (poll_due now (t_items t))))"
    using tm.loop_fired_sorted [OF heap] .
qed (rule poll_calls [OF assms(2)])

theorem poll_fires_due_in_order_witness:
  "fst (snd (Timer_poll quiet 10 sample_timer)) = [1, 0] \<and>
   (\<exists>fired. mset fired = filter_mset (due 10) (mset (t_items sample_timer)) \<and>
      sorted (map ti_expire_at fired) \<and>
      fst (snd (Timer_poll quiet 10 sample_timer)) = List.map_filter ti_callback fired)"
proof -
  have "fst (snd (Timer_poll quiet 10 sample_timer)) = [1, 0]" by code_simp
  with poll_fires_due_in_order [OF sample_timer_ok, of quiet 10] show ?thesis by (simp add: quiet_def)
qed

text \<open>
  A timer that is cancelled before it is due is not called: \<open>cancel\<close> returns whether the
  identifier is queued, and the next \<open>poll\<close> calls exactly the other due timers.
\<close>

theorem cancelled_timer_not_called:
  assumes "timer_ok t" "\<And>c s. fst (run c s) \<noteq> Throws_Other"
  shows "fst (Timer_cancel i t) = (i \<in> ti_id ` set (t_items t)) \<and>
    (\<exists>fired. mset fired = filter_mset (\<lambda>x. due now x \<and> ti_id x \<noteq> i) (mset (t_items t)) \<and>
      fst (snd (Timer_poll run now (snd (Timer_cancel i t)))) = List.map_filter ti_callback fired)"
proof (intro conjI exI)
  let ?t = "snd (Timer_cancel i t)"
  show "fst (Timer_cancel i t) = (i \<in> ti_id ` set (t_items t))"
    by (simp add: Timer_cancel_def split_beta cancel_item_found)
  have "is_heap ti_expire_at (t_items ?t)"
    using timer_ok_cancel [OF assms(1)] by (simp add: timer_ok_def)
  then have "mset (fst (poll_due now (t_items ?t))) = filter_mset (due now) (mset (t_items ?t))"
    by (simp add: tm.loop_fired_exact due_eq)
  also have "\<dots> = filter_mset (\<lambda>x. due now x \<and> ti_id x \<noteq> i) (mset (t_items t))"
    using assms(1) by (simp add: Timer_cancel_def split_beta timer_ok_def cancel_item_live)
  finally show "mset (fst (poll_due now (t_items ?t))) =
      filter_mset (\<lambda>x. due now x \<and> ti_id x \<noteq> i) (mset (t_items t))" .
qed (rule poll_calls [OF assms(2)])

theorem cancelled_timer_not_called_witness:
  "fst (snd (Timer_poll quiet 10 (snd (Timer_cancel 1 sample_timer)))) = [1] \<and>
   (\<exists>fired. mset fired = filter_mset (\<lambda>x. due 10 x \<and> ti_id x \<noteq> 1) (mset (t_items sample_timer)) \<and>
      fst (snd (Timer_poll quiet 10 (snd (Timer_cancel 1 sample_timer)))) = List.map_filter ti_callback fired)"
proof -
  have "fst (snd (Timer_poll quiet 10 (snd (Timer_cancel 1 sample_timer)))) = [1]" by code_simp
  with cancelled_timer_not_called [OF sample_timer_ok, of quiet 1 10] show ?thesis by (simp add: quiet_def)
qed

text \<open>
  C15: What \<open>poll\<close> leaves behind, for callbacks that use the timer only through its operations (which keep its
  invariant) and throw nothing but \<open>std::exception\<close>. The due timers, in order of expiry, act one after
  the other on the queue of the timers that were not due: each callback does what it does, and then a repeating timer
  is queued again. The value returned is the time to the earliest queued expiry, or \<open>-1\<close> when the queue is
  empty. If the callbacks leave the timer alone, the live timers afterwards are those that were not
  yet due and one successor for each due repeating timer, one interval after \<open>now\<close>.
\<close>

theorem poll_reschedules:
  assumes "timer_ok t" "keeps_timer run" "\<And>c s. fst (run c s) \<noteq> Throws_Other" "Timer_poll run now t = (r, calls, t')"
  shows "(\<exists>fired rest. mset fired = filter_mset (due now) (mset (t_items t)) \<and> sorted (map ti_expire_at fired) \<and>
      filter_mset (\<lambda>x. \<not> ti_cancelled x) (mset rest) =
        filter_mset (\<lambda>x. \<not> ti_cancelled x \<and> now < ti_expire_at x) (mset (t_items t)) \<and>
      t' = fold (fired_effect run now) fired (t\<lparr>t_items := rest\<rparr>)) \<and>
    r = Some (if t_items t' = [] then -1 else i64 (Min (ti_expire_at ` set (t_items t')) - now)) \<and>
    (passive_run run \<longrightarrow>
      filter_mset (\<lambda>(_, _, _, cancelled). \<not> cancelled) (image_mset plan (mset (t_items t'))) =
      image_mset plan (filter_mset (\<lambda>x. \<not> ti_cancelled x \<and> now < ti_expire_at x) (mset (t_items t))) +
      image_mset (next_plan now) (filter_mset (\<lambda>x. due now x \<and> is_repeating x) (mset (t_items t))))"
proof (intro conjI exI impI)
  let ?fired = "fst (poll_due now (t_items t))" and ?rest = "snd (poll_due now (t_items t))"
  have heap: "is_heap ti_expire_at (t_items t)" using assms(1) by (simp add: timer_ok_def)
  show fired: "mset ?fired = filter_mset (due now) (mset (t_items t))"
    using tm.loop_fired_exact [OF heap] by (simp add: due_eq)
  show "sorted (map ti_expire_at ?fired)" by (rule tm.loop_fired_sorted [OF heap])
  show rest: "filter_mset (\<lambda>x. \<not> ti_cancelled x) (mset ?rest) =
      filter_mset (\<lambda>x. \<not> ti_cancelled x \<and> now < ti_expire_at x) (mset (t_items t))"
    using tm.loop_rest_exact [OF heap, of now] by simp
  show t': "t' = fold (fired_effect run now) ?fired (t\<lparr>t_items := ?rest\<rparr>)" by (rule poll_effects(1) [OF assms(3,4)])
  show "r = Some (if t_items t' = [] then -1 else i64 (Min (ti_expire_at ` set (t_items t')) - now))"
    by (rule poll_returns_earliest [OF assms])
  have live: "filter_mset (\<lambda>(_, _, _, cancelled). \<not> cancelled) (image_mset plan M) =
      image_mset plan (filter_mset (\<lambda>x. \<not> ti_cancelled x) M)" for M :: "'a timer_item multiset"
    by (induction M) (auto simp: plan_def)
  have new: "filter_mset (\<lambda>(_, _, _, cancelled). \<not> cancelled) (image_mset (next_plan now) M) =
      image_mset (next_plan now) M" for M :: "'a timer_item multiset"
    by (induction M) (auto simp: next_plan_def)
  assume "passive_run run"
  then show "filter_mset (\<lambda>(_, _, _, cancelled). \<not> cancelled) (image_mset plan (mset (t_items t'))) =
      image_mset plan (filter_mset (\<lambda>x. \<not> ti_cancelled x \<and> now < ti_expire_at x) (mset (t_items t))) +
      image_mset (next_plan now) (filter_mset (\<lambda>x. due now x \<and> is_repeating x) (mset (t_items t)))"
    using fired rest
    by (simp add: t' fold_fired_passive fold_rearm_fields live new filter_filter_mset conj_ac)
qed

theorem poll_reschedules_witness:
  "fst (Timer_poll quiet 10 sample_timer) = Some 5 \<and>
   fst (Timer_poll quiet 10 sample_timer) =
     (let t' = snd (snd (Timer_poll quiet 10 sample_timer)) in
      Some (if t_items t' = [] then -1 else i64 (Min (ti_expire_at ` set (t_items t')) - 10)))"
proof -
  obtain r calls t' where p: "Timer_poll quiet 10 sample_timer = (r, calls, t')" by (metis prod_cases3)
  have "fst (Timer_poll quiet 10 sample_timer) = Some 5" by code_simp
  then show ?thesis
    using poll_reschedules [OF sample_timer_ok passive_keeps [OF quiet_passive] passive_no_throw [OF quiet_passive] p] by (simp add: p)
qed

text \<open>
  A repeating timer cannot be cancelled once it has fired: it is queued again under a new
  identifier, so \<open>cancel\<close> with the identifier that \<open>add_repeating\<close> returned finds nothing
  while the timer goes on.
\<close>

theorem repeating_timer_loses_id:
  assumes "timer_ok t" "passive_run run" "x \<in> set (t_items t)" "due now x" "is_repeating x"
  shows "let t' = snd (snd (Timer_poll run now t)) in
    fst (Timer_cancel (ti_id x) t') = False \<and>
    next_plan now x \<in># image_mset plan (mset (t_items t'))"
proof -
  let ?fired = "fst (poll_due now (t_items t))" and ?rest = "snd (poll_due now (t_items t))"
  define t' where "t' = fold (rearm now) (filter is_repeating ?fired) (t\<lparr>t_items := ?rest\<rparr>)"
  have p: "snd (snd (Timer_poll run now t)) = t'"
    unfolding t'_def by (rule poll_passive [OF assms(2)])
  have "ti_id x \<le> t_next_id t" using assms(1,3) by (simp add: timer_ok_def)
  then have "ti_id x \<notin> ti_id ` set (t_items t')"
    using fold_rearm_ids [of _ now "filter is_repeating ?fired" "t\<lparr>t_items := ?rest\<rparr>"]
      poll_due_id_gone [OF assms(1,3,4)] unfolding t'_def by (fastforce simp: image_iff)
  moreover have "x \<in> set (filter is_repeating ?fired)"
    using assms poll_due_fired_iff by (auto simp: timer_ok_def)
  then have "next_plan now x \<in># image_mset plan (mset (t_items t'))"
    unfolding t'_def fold_rearm_fields(2) by simp
  ultimately show ?thesis
    unfolding p Let_def by (simp add: Timer_cancel_def split_beta cancel_item_found)
qed

theorem repeating_timer_loses_id_witness:
  "let t' = snd (snd (Timer_poll quiet 10 sample_timer)) in
    fst (Timer_cancel 2 t') = False \<and> (15, 5, Some 1, False) \<in># image_mset plan (mset (t_items t'))"
proof -
  let ?x = "\<lparr>ti_id = 2, ti_expire_at = 5, ti_interval_ms = 5, ti_callback = Some (1::nat), ti_cancelled = False\<rparr>"
  have "?x \<in> set (t_items sample_timer)" "due 10 ?x" "is_repeating ?x"
    by (simp_all add: sample_timer_items due_def is_repeating_def)
  from repeating_timer_loses_id [OF sample_timer_ok quiet_passive this]
  show ?thesis by (simp add: next_plan_def i64_id)
qed

text \<open>
  An exception that is not a \<open>std::exception\<close> leaves \<open>poll\<close> after the first callback: the
  due timers are all off the queue by then, so those behind it are neither called nor queued,
  and repeating ones stop for good.
\<close>

theorem poll_throw_loses_timers:
  assumes "timer_ok t" "\<And>c s. run c s = (Throws_Other, s)"
    "\<forall>x\<in>set (t_items t). ti_callback x \<noteq> None" "\<exists>x\<in>set (t_items t). due now x"
  shows "\<exists>c t'. Timer_poll run now t = (None, [c], t') \<and> t_next_id t' = t_next_id t \<and>
    (\<forall>x\<in>set (t_items t'). x \<in> set (t_items t) \<and> now < ti_expire_at x)"
proof -
  let ?rest = "snd (poll_due now (t_items t))"
  have heap: "is_heap ti_expire_at (t_items t)" using assms(1) by (simp add: timer_ok_def)
  have "fst (poll_due now (t_items t)) \<noteq> []"
    using poll_due_fired_iff [OF heap, of _ now] assms(4) by fastforce
  then obtain x ys where f: "fst (poll_due now (t_items t)) = x # ys" by (meson list.exhaust)
  then have x: "x \<in> set (t_items t)" "due now x" using poll_due_fired_iff [OF heap, of x now] by auto
  with assms(3) obtain c where c: "ti_callback x = Some c" by blast
  have "fire_timer run now x (t\<lparr>t_items := ?rest\<rparr>) = (True, [c], t\<lparr>t_items := ?rest\<rparr>)"
    using x(2) c assms(2) by (simp add: fire_timer_def due_def)
  then have "Timer_poll run now t = (None, [c], t\<lparr>t_items := ?rest\<rparr>)"
    by (simp add: Timer_poll_def split_beta f)
  moreover have "x \<in> set (t_items t) \<and> now < ti_expire_at x" if "x \<in> set ?rest" for x
    using tm.loop_rest_later [OF heap that] tm.loop_rest_subset that by blast
  ultimately show ?thesis by (intro exI [of _ c] exI [of _ "t\<lparr>t_items := ?rest\<rparr>"]) simp
qed

theorem poll_throw_loses_timers_witness:
  "\<exists>c t'. Timer_poll (\<lambda>c s. (Throws_Other, s)) 10 sample_timer = (None, [c], t') \<and>
    t_next_id t' = t_next_id sample_timer \<and>
    (\<forall>x\<in>set (t_items t'). x \<in> set (t_items sample_timer) \<and> 10 < ti_expire_at x)"
  by (rule poll_throw_loses_timers [OF sample_timer_ok]) (simp_all add: sample_timer_items due_def)

text \<open>
  \<open>nearest_expire\<close> is not the nearest expiry: it takes the first live entry of the array,
  which is the minimum only while the root is live. With the root cancelled it may name a
  timer that expires later than another one in the queue.
\<close>

theorem nearest_expire_not_least:
  "let t = snd (Timer_cancel 1 (snd (Timer_add 0 20 (Some 2) (snd (Timer_add 0 30 (Some 1) (snd
       (Timer_add 0 10 (Some (0::nat)) Timer_new))))))) in
    nearest_expire t = 30 \<and> (\<exists>x\<in>set (t_items t). \<not> ti_cancelled x \<and> ti_expire_at x = 20)"
  by code_simp

text \<open>
  While the front of the queue is live, \<open>nearest_expire\<close> is the smallest expiry time of
  the queue; in particular whenever \<open>poll\<close> has just removed the cancelled fronts.
\<close>

theorem nearest_expire_least:
  assumes "timer_ok t" "t_items t \<noteq> []" "\<not> ti_cancelled (hd (t_items t))"
  shows "nearest_expire t = Min (ti_expire_at ` set (t_items t))"
proof -
  obtain x xs where xs: "t_items t = x # xs" using assms(2) by (meson list.exhaust)
  have "Min (ti_expire_at ` set (t_items t)) = ti_expire_at x"
    using assms(1) heap_hd_least [of ti_expire_at "t_items t"]
    by (intro Min_eqI) (auto simp: timer_ok_def xs)
  with assms(3) show ?thesis by (simp add: nearest_expire_def xs)
qed

theorem nearest_expire_least_witness:
  "nearest_expire sample_timer = 5 \<and> nearest_expire sample_timer = Min (ti_expire_at ` set (t_items sample_timer))"
  using nearest_expire_least [OF sample_timer_ok]
  by (simp add: sample_timer_items nearest_expire_def)

end
