(* ===== verification/Timer_Loop.thy ===== *)
theory Timer_Loop
  imports Timer
begin

text \<open>
  Class \<open>TimerLoop\<close> (\<open>src/base/timer/timer.h\<close>, \<open>timer.cpp\<close>): timers driven by a thread of
  their own. Other threads add timers to \<open>pending_add\<close>; the thread merges them into its heap,
  sleeps, collects the due timers and calls them. Each part of a turn of \<open>thread_loop\<close> that
  holds a mutex is a definition of its own; what other threads and the callbacks do in between
  is given by functions on the state.
\<close>

section \<open>State and operations\<close>

record 'c timer_loop =
  tl_running :: bool
  tl_items :: "'c timer_item list"
  tl_next_id :: int
  tl_pending :: "'c timer_item list"

definition TimerLoop_new :: "'c timer_loop" where
  "TimerLoop_new = \<lparr>tl_running = False, tl_items = [], tl_next_id = 0, tl_pending = []\<rparr>"

definition tl_add_impl :: "int \<Rightarrow> int \<Rightarrow> 'c option \<Rightarrow> int \<Rightarrow> 'c timer_loop \<Rightarrow> int \<times> 'c timer_loop" where
  "tl_add_impl now after_ms cb interval_ms s =
     (let i = tl_next_id s + 1;
          item = \<lparr>ti_id = i, ti_expire_at = i64 (now + after_ms), ti_interval_ms = interval_ms,
                  ti_callback = cb, ti_cancelled = False\<rparr>
      in (i, s\<lparr>tl_next_id := i, tl_pending := tl_pending s @ [item]\<rparr>))"

definition tl_cancel_impl :: "int \<Rightarrow> 'c timer_loop \<Rightarrow> bool \<times> 'c timer_loop" where
  "tl_cancel_impl i s = (let (r, xs) = cancel_item i (tl_items s) in (r, s\<lparr>tl_items := xs\<rparr>))"

text \<open>\<open>start\<close> returns whether it started the thread.\<close>

definition tl_start :: "'c timer_loop \<Rightarrow> bool \<times> 'c timer_loop" where
  "tl_start s = (if tl_running s then (False, s) else (True, s\<lparr>tl_running := True\<rparr>))"

definition tl_stop :: "'c timer_loop \<Rightarrow> 'c timer_loop" where
  "tl_stop s = (if \<not> tl_running s then s else s\<lparr>tl_running := False\<rparr>)"

definition tl_add :: "int \<Rightarrow> int \<Rightarrow> 'c option \<Rightarrow> 'c timer_loop \<Rightarrow> int \<times> 'c timer_loop" where
  "tl_add now after_ms cb s = tl_add_impl now after_ms cb 0 s"

definition tl_add_repeating :: "int \<Rightarrow> int \<Rightarrow> 'c option \<Rightarrow> 'c timer_loop \<Rightarrow> int \<times> 'c timer_loop" where
  "tl_add_repeating now interval_ms cb s = tl_add_impl now interval_ms cb interval_ms s"

definition tl_cancel :: "int \<Rightarrow> 'c timer_loop \<Rightarrow> bool \<times> 'c timer_loop" where
  "tl_cancel i s = tl_cancel_impl i s"

text \<open>The pending timers are all appended before the heap is repaired once, at its end.\<close>

definition merge_pending :: "'c timer_loop \<Rightarrow> 'c timer_loop" where
  "merge_pending s =
     (if tl_pending s \<noteq> []
      then s\<lparr>tl_items := push_heap ti_expire_at (tl_items s @ tl_pending s), tl_pending := []\<rparr>
      else s)"

definition tl_sleep_ms :: "int \<Rightarrow> 'c timer_loop \<Rightarrow> int" where
  "tl_sleep_ms now s =
     (let sleep_ms = 100;
          sleep_ms = (if tl_items s \<noteq> []
                      then max 1 (i64 (ti_expire_at (hd (tl_items s)) - now)) else sleep_ms);
          sleep_ms = min sleep_ms 500
      in max sleep_ms 1)"

function tl_due :: "int \<Rightarrow> 'c timer_item list \<Rightarrow> 'c timer_item list \<times> 'c timer_item list" where
  "tl_due now2 xs =
     (if xs = [] then ([], [])
      else if ti_cancelled (hd xs) then tl_due now2 (butlast (pop_heap ti_expire_at xs))
      else if ti_expire_at (hd xs) > now2 then ([], xs)
      else apfst (Cons (last (pop_heap ti_expire_at xs)))
             (tl_due now2 (butlast (pop_heap ti_expire_at xs))))"
  by pat_completeness auto
termination
  by (relation "measure (length \<circ> snd)") (auto simp: heap.length_pop_back [simplified])

declare tl_due.simps [simp del]

definition tl_rearm :: "int \<Rightarrow> 'c timer_item \<Rightarrow> 'c timer_loop \<Rightarrow> 'c timer_loop" where
  "tl_rearm now3 x s =
     (let i = tl_next_id s + 1;
          nt = \<lparr>ti_id = i, ti_expire_at = i64 (now3 + ti_interval_ms x),
                ti_interval_ms = ti_interval_ms x, ti_callback = ti_callback x, ti_cancelled = False\<rparr>
      in s\<lparr>tl_next_id := i, tl_items := push_heap ti_expire_at (tl_items s @ [nt])\<rparr>)"

text \<open>
  Calling one fired timer. The flag says whether an exception other than \<open>std::exception\<close>
  has left the thread function, which terminates the program.
\<close>

definition tl_fire_timer :: "('c \<Rightarrow> 'c timer_loop \<Rightarrow> outcome \<times> 'c timer_loop) \<Rightarrow> int \<Rightarrow>
    'c timer_item \<Rightarrow> 'c timer_loop \<Rightarrow> bool \<times> 'c list \<times> 'c timer_loop" where
  "tl_fire_timer run now3 x s =
     (if ti_cancelled x then (False, [], s)
      else let (out, calls, s1) =
                 (case ti_callback x of
                    None \<Rightarrow> (Returns, [], s)
                  | Some c \<Rightarrow> (fst (run c s), [c], snd (run c s)))
           in if out = Throws_Other then (True, calls, s1)
              else (False, calls, if ti_interval_ms x > 0 then tl_rearm now3 x s1 else s1))"

fun tl_fire_timers :: "('c \<Rightarrow> 'c timer_loop \<Rightarrow> outcome \<times> 'c timer_loop) \<Rightarrow> (nat \<Rightarrow> int) \<Rightarrow>
    'c timer_item list \<Rightarrow> 'c timer_loop \<Rightarrow> bool \<times> 'c list \<times> 'c timer_loop" where
  "tl_fire_timers run clock [] s = (False, [], s)"
| "tl_fire_timers run clock (x # xs) s =
     (let (died, calls, s1) = tl_fire_timer run (clock 0) x s
      in if died then (True, calls, s1)
         else let (died', calls', s2) = tl_fire_timers run (clock \<circ> Suc) xs s1
              in (died', calls @ calls', s2))"

text \<open>
  One turn of \<open>thread_loop\<close>: merge, sleep (while \<open>others\<close> act), collect at \<open>now2\<close>, call. The
  clock readings after a repeating timer has run are \<open>clock 0\<close>, \<open>clock 1\<close>, and so on.
\<close>

definition tl_turn :: "('c \<Rightarrow> 'c timer_loop \<Rightarrow> outcome \<times> 'c timer_loop) \<Rightarrow>
    ('c timer_loop \<Rightarrow> 'c timer_loop) \<Rightarrow> int \<Rightarrow> (nat \<Rightarrow> int) \<Rightarrow> 'c timer_loop \<Rightarrow>
    bool \<times> 'c list \<times> 'c timer_loop" where
  "tl_turn run others now2 clock s =
     (let s1 = others (merge_pending s);
          (fired, rest) = tl_due now2 (tl_items s1)
      in tl_fire_timers run clock fired (s1\<lparr>tl_items := rest\<rparr>))"

section \<open>Collecting\<close>

interpretation tl: due_loop ti_expire_at "push_heap ti_expire_at" "pop_heap ti_expire_at"
    ti_cancelled tl_due
  by unfold_locales (simp_all add: tl_due.simps)

lemma mset_merge_pending:
  "mset (tl_items (merge_pending s)) = mset (tl_items s) + mset (tl_pending s)"
  by (simp add: merge_pending_def)

lemma merge_pending_heap:
  "is_heap ti_expire_at (tl_items s) \<Longrightarrow> length (tl_pending s) \<le> 1 \<Longrightarrow>
   is_heap ti_expire_at (tl_items (merge_pending s))"
  by (cases "tl_pending s") (auto simp: merge_pending_def is_heap_push)

lemma tl_fire_timers_calls:
  assumes "\<And>c s. fst (run c s) \<noteq> Throws_Other" "\<forall>x\<in>set xs. \<not> ti_cancelled x"
  shows "fst (tl_fire_timers run clock xs s) = False \<and>
    fst (snd (tl_fire_timers run clock xs s)) = List.map_filter ti_callback xs"
  using assms(2)
  by (induction xs arbitrary: s clock)
    (auto simp: assms(1) tl_fire_timer_def Let_def List.map_filter_def split_beta split: option.splits)

lemma tl_turn_calls:
  assumes "\<And>c s. fst (run c s) \<noteq> Throws_Other"
  shows "fst (tl_turn run others now2 clock s) = False \<and>
    fst (snd (tl_turn run others now2 clock s)) =
      List.map_filter ti_callback (fst (tl_due now2 (tl_items (others (merge_pending s)))))"
proof -
  have "\<forall>x\<in>set (fst (tl_due now2 (tl_items (others (merge_pending s))))). \<not> ti_cancelled x"
    using tl.loop_fired_due by blast
  from tl_fire_timers_calls [OF assms this] show ?thesis by (simp add: tl_turn_def split_beta Let_def)
qed

section \<open>Other threads\<close>

text \<open>What other threads do to the timers while the thread sleeps: they add timers and cancel some.\<close>

datatype 'c tl_op = Tl_Add int int "'c option" int | Tl_Cancel int

fun tl_do :: "'c tl_op \<Rightarrow> 'c timer_loop \<Rightarrow> 'c timer_loop" where
  "tl_do (Tl_Add now after_ms cb interval_ms) s = snd (tl_add_impl now after_ms cb interval_ms s)"
| "tl_do (Tl_Cancel i) s = snd (tl_cancel i s)"

definition cancels :: "'c tl_op list \<Rightarrow> int set" where
  "cancels ops = {i. Tl_Cancel i \<in> set ops}"

lemma cancel_item_heap: "is_heap ti_expire_at (snd (cancel_item i xs)) = is_heap ti_expire_at xs"
  by (simp add: is_heap_map [of ti_expire_at])

lemma tl_do_items:
  assumes "distinct (map ti_id (tl_items s))"
  shows "distinct (map ti_id (tl_items (tl_do op s)))"
    and "is_heap ti_expire_at (tl_items (tl_do op s)) = is_heap ti_expire_at (tl_items s)"
    and "filter_mset (\<lambda>x. due now x \<and> ti_id x \<notin> I) (mset (tl_items (tl_do op s))) =
      filter_mset (\<lambda>x. due now x \<and> ti_id x \<notin> I \<union> cancels [op]) (mset (tl_items s))"
proof -
  show "distinct (map ti_id (tl_items (tl_do op s)))" "is_heap ti_expire_at (tl_items (tl_do op s)) = is_heap ti_expire_at (tl_items s)"
    using assms by (cases op; simp add: tl_add_impl_def tl_cancel_def tl_cancel_impl_def split_beta Let_def cancel_item_heap)+
  have "filter_mset (\<lambda>x. due now x \<and> ti_id x \<notin> I) (mset (snd (cancel_item i xs))) =
      filter_mset (\<lambda>x. due now x \<and> ti_id x \<notin> I \<union> {i}) (mset xs)" if "distinct (map ti_id xs)" for i and xs :: "'a timer_item list"
  proof -
    have split: "filter_mset (\<lambda>x. due now x \<and> ti_id x \<notin> I) M = filter_mset (\<lambda>x. ti_id x \<notin> I) (filter_mset (due now) M)" for M :: "'a timer_item multiset"
      by (simp add: filter_filter_mset conj_commute)
    show ?thesis unfolding split [of "mset (snd (cancel_item i xs))"] cancel_item_live [OF that]
      by (simp add: filter_filter_mset conj_ac)
  qed
  with assms show "filter_mset (\<lambda>x. due now x \<and> ti_id x \<notin> I) (mset (tl_items (tl_do op s))) =
      filter_mset (\<lambda>x. due now x \<and> ti_id x \<notin> I \<union> cancels [op]) (mset (tl_items s))"
    by (cases op) (simp_all add: cancels_def tl_add_impl_def tl_cancel_def tl_cancel_impl_def split_beta Let_def)
qed

lemma tl_dos_items:
  assumes "distinct (map ti_id (tl_items s))"
  shows "is_heap ti_expire_at (tl_items (fold tl_do ops s)) = is_heap ti_expire_at (tl_items s) \<and>
    filter_mset (due now) (mset (tl_items (fold tl_do ops s))) =
      filter_mset (\<lambda>x. due now x \<and> ti_id x \<notin> cancels ops) (mset (tl_items s))"
  using assms
proof (induction ops arbitrary: s)
  case (Cons op ops)
  have "cancels (op # ops) = cancels ops \<union> cancels [op]" by (auto simp: cancels_def)
  then show ?case
    using Cons.IH [OF tl_do_items(1) [OF Cons.prems, of op]] tl_do_items(2) [OF Cons.prems, of op]
      tl_do_items(3) [OF Cons.prems, where I = "cancels ops" and op = op] by simp
qed (simp add: cancels_def)

section \<open>Properties\<close>

text \<open>
  The thread never fires a timer early, never fires a cancelled one and never loses one
  while it collects: even from an array whose heap order is broken, the fired timers are due
  and live, and the live timers are exactly the fired ones and those still queued.
\<close>

theorem timer_loop_collect_safe:
  "(\<forall>x\<in>set (fst (tl_due now xs)). x \<in> set xs \<and> due now x) \<and>
   filter_mset (\<lambda>x. \<not> ti_cancelled x) (mset xs) =
     mset (fst (tl_due now xs)) + filter_mset (\<lambda>x. \<not> ti_cancelled x) (mset (snd (tl_due now xs)))"
  using tl.loop_fired_due [of _ now xs] tl.loop_conserves [of xs now] by (simp add: due_def)

theorem timer_loop_collect_safe_witness:
  "\<forall>x\<in>set (fst (tl_due 10 (t_items sample_timer))). x \<in> set (t_items sample_timer) \<and> due 10 x"
  using timer_loop_collect_safe [of 10 "t_items sample_timer"] by blast

text \<open>
  C37: A turn of the thread that finds its array in heap order and at most one timer pending calls exactly
  the timers that are due when it collects and that nobody has cancelled before, neither earlier nor while the thread
  slept, each once and in the order of their expiry times. Meanwhile other threads may add timers, which wait for the next
  turn, and cancel any. The callbacks may use the timers but throw nothing other than a
  \<open>std::exception\<close>.
\<close>

theorem timer_loop_turn_exact:
  assumes "is_heap ti_expire_at (tl_items s)" "length (tl_pending s) \<le> 1"
    and "distinct (map ti_id (tl_items s @ tl_pending s))"
    and "\<And>c s. fst (run c s) \<noteq> Throws_Other"
  shows "\<exists>fired. mset fired =
      filter_mset (\<lambda>x. due now2 x \<and> ti_id x \<notin> cancels ops) (mset (tl_items s) + mset (tl_pending s)) \<and>
    sorted (map ti_expire_at fired) \<and>
    fst (snd (tl_turn run (fold tl_do ops) now2 clock s)) = List.map_filter ti_callback fired"
proof (intro exI conjI)
  let ?s = "merge_pending s" and ?xs = "tl_items (fold tl_do ops (merge_pending s))"
  have d: "distinct (map ti_id (tl_items ?s))"
    using assms(3) distinct_map_mset [of "tl_items ?s" "tl_items s @ tl_pending s" ti_id] by (simp add: mset_merge_pending)
  have heap: "is_heap ti_expire_at ?xs" using merge_pending_heap [OF assms(1,2)] using tl_dos_items [OF d] by blast
  show "mset (fst (tl_due now2 ?xs)) =
      filter_mset (\<lambda>x. due now2 x \<and> ti_id x \<notin> cancels ops) (mset (tl_items s) + mset (tl_pending s))"
    using tl.loop_fired_exact [OF heap, of now2] tl_dos_items [OF d, of ops now2]
    by (simp add: due_eq mset_merge_pending del: filter_union_mset)
  show "sorted (map ti_expire_at (fst (tl_due now2 ?xs)))" by (rule tl.loop_fired_sorted [OF heap])
  show "fst (snd (tl_turn run (fold tl_do ops) now2 clock s)) = List.map_filter ti_callback (fst (tl_due now2 ?xs))"
    using tl_turn_calls [of run "fold tl_do ops" now2 clock s] assms(4) by simp
qed

text \<open>The timer for 10 is cancelled and one for 1 is added while the thread sleeps.\<close>

theorem timer_loop_turn_exact_witness:
  "fst (snd (tl_turn (\<lambda>c s. (Returns, s)) (fold tl_do [Tl_Cancel 1, Tl_Add 0 1 (Some 9) 0]) 10 (\<lambda>_. 11)
      (TimerLoop_new\<lparr>tl_items := t_items sample_timer\<rparr>))) = [1]"
proof -
  let ?s = "TimerLoop_new\<lparr>tl_items := t_items sample_timer\<rparr>"
  have "is_heap ti_expire_at (tl_items ?s)" "length (tl_pending ?s) \<le> 1" "distinct (map ti_id (tl_items ?s @ tl_pending ?s))"
    using sample_timer_ok by (simp_all add: TimerLoop_new_def timer_ok_def)
  from timer_loop_turn_exact [OF this, of "\<lambda>c s. (Returns, s)" 10 "[Tl_Cancel 1, Tl_Add 0 1 (Some 9) 0]" "\<lambda>_. 11"]
  obtain fired where f: "mset fired = filter_mset (\<lambda>x. due 10 x \<and> ti_id x \<notin> cancels [Tl_Cancel 1, Tl_Add 0 1 (Some (9::nat)) 0])
      (mset (tl_items ?s) + mset (tl_pending ?s))"
    "fst (snd (tl_turn (\<lambda>c s. (Returns, s)) (fold tl_do [Tl_Cancel 1, Tl_Add 0 1 (Some 9) 0]) 10 (\<lambda>_. 11) ?s)) =
      List.map_filter ti_callback fired" by (simp del: fold.simps filter_union_mset) blast
  have "mset fired = {# \<lparr>ti_id = 2, ti_expire_at = 5, ti_interval_ms = 5, ti_callback = Some 1, ti_cancelled = False\<rparr> #}"
    using f(1) by (simp add: TimerLoop_new_def sample_timer_items due_def cancels_def)
  then have "fired = [\<lparr>ti_id = 2, ti_expire_at = 5, ti_interval_ms = 5, ti_callback = Some 1, ti_cancelled = False\<rparr>]" by simp
  with f(2) show ?thesis by (simp add: List.map_filter_def)
qed

text \<open>
  With several pending timers the heap order is lost, because \<open>push_heap\<close> repairs only the
  last position. Timers for 30, 10 and 20 added between two turns leave the timer for 10 behind
  the one for 20: at time 15 the turn calls nothing although a live timer is due.
\<close>

theorem timer_loop_misses_due_timer:
  "let s = snd (tl_add 0 20 (Some 2) (snd (tl_add 0 10 (Some 1) (snd (tl_add 0 30 (Some (0::nat)) TimerLoop_new)))))
   in \<not> is_heap ti_expire_at (tl_items (merge_pending s)) \<and>
      fst (snd (tl_turn (\<lambda>c s. (Returns, s)) id 15 (\<lambda>_. 15) s)) = [] \<and>
      (\<exists>x\<in>set (tl_items (merge_pending s)). due 15 x)"
proof -
  let ?s = "snd (tl_add 0 20 (Some 2) (snd (tl_add 0 10 (Some 1) (snd (tl_add 0 30 (Some (0::nat)) TimerLoop_new)))))"
  have items: "tl_items (merge_pending ?s) =
    [\<lparr>ti_id = 3, ti_expire_at = 20, ti_interval_ms = 0, ti_callback = Some 2, ti_cancelled = False\<rparr>,
     \<lparr>ti_id = 2, ti_expire_at = 10, ti_interval_ms = 0, ti_callback = Some 1, ti_cancelled = False\<rparr>,
     \<lparr>ti_id = 1, ti_expire_at = 30, ti_interval_ms = 0, ti_callback = Some 0, ti_cancelled = False\<rparr>]"
    by code_simp
  have "fst (snd (tl_turn (\<lambda>c s. (Returns, s)) id 15 (\<lambda>_. 15) ?s)) = []"
    by code_simp
  moreover have "\<not> is_heap ti_expire_at (tl_items (merge_pending ?s))"
    unfolding items is_heap_def by (auto intro!: exI [of _ 1])
  moreover have "\<exists>x\<in>set (tl_items (merge_pending ?s)). due 15 x" unfolding items by (simp add: due_def)
  ultimately show ?thesis unfolding Let_def by blast
qed

text \<open>
  A timer cannot be cancelled while it is pending: \<open>cancel\<close> searches only the heap, so it
  fails and changes nothing for every identifier that \<open>add\<close> returned since the last merge.
\<close>

theorem timer_loop_cancel_misses_pending:
  assumes "\<forall>x\<in>set (tl_items s). ti_id x \<le> tl_next_id s"
  shows "let (i, s') = tl_add now after_ms cb s in tl_cancel i s' = (False, s')"
proof -
  have "\<not> fst (cancel_item i xs) \<Longrightarrow> snd (cancel_item i xs) = xs" for i and xs :: "'a timer_item list"
    by (induction i xs rule: cancel_item.induct) (auto simp: split_beta split: if_splits)
  moreover have "\<not> fst (cancel_item (tl_next_id s + 1) (tl_items s))"
    using assms by (force simp: cancel_item_found)
  ultimately show ?thesis
    by (simp add: tl_add_def tl_add_impl_def tl_cancel_def tl_cancel_impl_def Let_def split_beta)
qed

theorem timer_loop_cancel_misses_pending_witness:
  "let (i, s') = tl_add 0 10 (Some (7::nat)) TimerLoop_new in tl_cancel i s' = (False, s')"
  using timer_loop_cancel_misses_pending [of TimerLoop_new 0 10 "Some (7::nat)"]
  by (simp add: TimerLoop_new_def)

text \<open>
  The thread always sleeps between 1 and 500 milliseconds, whatever the clock and the queue.
\<close>

theorem timer_loop_sleep_bounds: "1 \<le> tl_sleep_ms now s \<and> tl_sleep_ms now s \<le> 500"
  by (simp add: tl_sleep_ms_def Let_def)

end
