(* ===== verification/Event_Loop.thy ===== *)
theory Event_Loop
  imports Timer Tables
begin

text \<open>
  Class \<open>EventLoop\<close> (\<open>src/base/event/event_loop.h\<close>, \<open>event_loop.cpp\<close>), the Linux variant:
  descriptors registered with epoll, timers, and tasks queued by other threads. The kernel is a
  parameter: the results of \<open>epoll_create1\<close>, \<open>timerfd_create\<close> and \<open>epoll_ctl\<close> are arguments,
  and \<open>epoll_wait\<close> is a function from the size of the event array and the timeout to its
  result. Timer callbacks and tasks are values of one type parameter and \<open>run\<close> says what
  calling one does to the loop. Pointers to handlers are 64-bit words, null is 0.
\<close>

section \<open>Event types\<close>

type_synonym event_type = u32

definition EV_READ :: event_type where "EV_READ = 1"
definition EV_WRITE :: event_type where "EV_WRITE = 2"
definition EV_ERROR :: event_type where "EV_ERROR = 4"
definition EV_CLOSED :: event_type where "EV_CLOSED = 8"
definition EV_TIMER :: event_type where "EV_TIMER = 16"
definition EV_SIGNAL :: event_type where "EV_SIGNAL = 32"

lemmas ev_defs = EV_READ_def EV_WRITE_def EV_ERROR_def EV_CLOSED_def EV_TIMER_def EV_SIGNAL_def

definition has_flag :: "event_type \<Rightarrow> event_type \<Rightarrow> bool" where
  "has_flag flags f \<longleftrightarrow> flags AND f \<noteq> 0"

text \<open>The virtual functions that \<open>EventHandler::on_event\<close> calls.\<close>

datatype handler_call =
    On_Read u32
  | On_Write u32
  | On_Error u32
  | On_Close_Fd u32
  | On_Timeout u32
  | On_Signal u32

definition on_event :: "u32 \<Rightarrow> event_type \<Rightarrow> handler_call list" where
  "on_event fd type =
     (if has_flag type EV_READ then [On_Read fd] else []) @
     (if has_flag type EV_WRITE then [On_Write fd] else []) @
     (if has_flag type EV_ERROR then [On_Error fd] else []) @
     (if has_flag type EV_CLOSED then [On_Close_Fd fd] else []) @
     (if has_flag type EV_TIMER then [On_Timeout fd] else []) @
     (if has_flag type EV_SIGNAL then [On_Signal fd] else [])"

section \<open>State\<close>

record 'c timer_entry =
  te_id :: int
  te_expire_at :: int
  te_interval :: int
  te_callback :: "'c option"
  te_cancelled :: bool

text \<open>\<open>el_events\<close> is the number of elements of the vector \<open>events_\<close>.\<close>

record 'c event_loop =
  el_running :: bool
  el_epoll_fd :: int
  el_timer_fd :: int
  el_fd_handlers :: "(int, u64) umap"
  el_events :: nat
  el_timers :: "'c timer_entry list"
  el_timer_id_counter :: int
  el_pending_tasks :: "'c list"

text \<open>What \<open>add_fd\<close> and \<open>del_fd\<close> ask of the kernel.\<close>

datatype epoll_request =
    Epoll_Add int u32 u64
  | Epoll_Mod int u32 u64
  | Epoll_Del int

text \<open>Results of \<open>epoll_wait\<close>: the ready events with their masks and data, or the error.\<close>

datatype wait_result = Ready "(u32 \<times> u64) list" | Wait_Interrupted | Wait_Invalid

definition EPOLLIN :: u32 where "EPOLLIN = 1"
definition EPOLLOUT :: u32 where "EPOLLOUT = 4"
definition EPOLLERR :: u32 where "EPOLLERR = 8"
definition EPOLLHUP :: u32 where "EPOLLHUP = 16"

lemmas epoll_defs = EPOLLIN_def EPOLLOUT_def EPOLLERR_def EPOLLHUP_def

section \<open>Life cycle and descriptors\<close>

text \<open>The constructor reserves room for 64 events but leaves the vector empty.\<close>

definition EventLoop_new :: "'c event_loop" where
  "EventLoop_new =
     \<lparr>el_running = False, el_epoll_fd = -1, el_timer_fd = -1, el_fd_handlers = [], el_events = 0,
      el_timers = [], el_timer_id_counter = 0, el_pending_tasks = []\<rparr>"

definition el_init :: "int \<Rightarrow> int \<Rightarrow> 'c event_loop \<Rightarrow> bool \<times> 'c event_loop" where
  "el_init epoll_create timerfd_create s =
     (let s1 = s\<lparr>el_epoll_fd := epoll_create\<rparr> in
      if epoll_create < 0 then (False, s1)
      else (True, s1\<lparr>el_timer_fd := if timerfd_create < 0 then -1 else timerfd_create\<rparr>))"

definition create_event_loop :: "int \<Rightarrow> int \<Rightarrow> 'c event_loop option" where
  "create_event_loop epoll_create timerfd_create =
     (let (ok, s) = el_init epoll_create timerfd_create EventLoop_new in if ok then Some s else None)"

definition el_stop :: "'c event_loop \<Rightarrow> 'c event_loop" where
  "el_stop s = s\<lparr>el_running := False\<rparr>"

text \<open>The descriptors that the destructor closes.\<close>

definition el_destroy :: "'c event_loop \<Rightarrow> int list \<times> 'c event_loop" where
  "el_destroy s =
     (let s1 = el_stop s
      in ((if el_epoll_fd s1 \<ge> 0 then [el_epoll_fd s1] else []) @ (if el_timer_fd s1 \<ge> 0 then [el_timer_fd s1] else []),
          s1\<lparr>el_epoll_fd := if el_epoll_fd s1 \<ge> 0 then -1 else el_epoll_fd s1,
             el_timer_fd := if el_timer_fd s1 \<ge> 0 then -1 else el_timer_fd s1\<rparr>))"

definition el_poll_fd :: "'c event_loop \<Rightarrow> int" where
  "el_poll_fd s = el_epoll_fd s"

text \<open>
  \<open>ev.data\<close> is a union: the assignment of \<open>ptr\<close> replaces the descriptor assigned just before.
  \<open>ctl\<close> is the result of \<open>epoll_ctl\<close>.
\<close>

definition add_fd :: "int \<Rightarrow> int \<Rightarrow> event_type \<Rightarrow> u64 \<Rightarrow> 'c event_loop \<Rightarrow>
    bool \<times> epoll_request \<times> 'c event_loop" where
  "add_fd ctl fd type handler s =
     (let events = (if has_flag type EV_READ then EPOLLIN else 0);
          events = events OR (if has_flag type EV_WRITE then EPOLLOUT else 0);
          events = events OR (EPOLLERR OR EPOLLHUP);
          req = (if um_find (el_fd_handlers s) fd \<noteq> None then Epoll_Mod fd events handler
                 else Epoll_Add fd events handler)
      in if ctl < 0 then (False, req, s)
         else (True, req, s\<lparr>el_fd_handlers := um_set fd handler (el_fd_handlers s)\<rparr>))"

definition del_fd :: "int \<Rightarrow> 'c event_loop \<Rightarrow> bool \<times> epoll_request \<times> 'c event_loop" where
  "del_fd fd s = (True, Epoll_Del fd, s\<lparr>el_fd_handlers := um_erase fd (el_fd_handlers s)\<rparr>)"

definition mod_fd :: "int \<Rightarrow> int \<Rightarrow> event_type \<Rightarrow> 'c event_loop \<Rightarrow>
    bool \<times> epoll_request option \<times> 'c event_loop" where
  "mod_fd ctl fd type s =
     (case um_find (el_fd_handlers s) fd of
        None \<Rightarrow> (False, None, s)
      | Some h \<Rightarrow> (let (ok, req, s') = add_fd ctl fd type h s in (ok, Some req, s')))"

definition add_signal :: "int \<Rightarrow> u64 \<Rightarrow> 'c event_loop \<Rightarrow> bool \<times> 'c event_loop" where
  "add_signal sig handler s = (False, s)"

section \<open>Timers\<close>

definition add_timer :: "int \<Rightarrow> int \<Rightarrow> 'c option \<Rightarrow> int \<Rightarrow> 'c event_loop \<Rightarrow> int \<times> 'c event_loop" where
  "add_timer now after_ms cb interval_ms s =
     (if cb = None then (-1, s)
      else let i = el_timer_id_counter s + 1;
               entry = \<lparr>te_id = i, te_expire_at = i64 (now + after_ms), te_interval = interval_ms,
                        te_callback = cb, te_cancelled = False\<rparr>
           in (i, s\<lparr>el_timer_id_counter := i, el_timers := push_heap te_expire_at (el_timers s @ [entry])\<rparr>))"

fun cancel_entry :: "int \<Rightarrow> 'c timer_entry list \<Rightarrow> bool \<times> 'c timer_entry list" where
  "cancel_entry i [] = (False, [])"
| "cancel_entry i (x # xs) =
     (if te_id x = i then (True, x\<lparr>te_cancelled := True\<rparr> # xs)
      else let (r, ys) = cancel_entry i xs in (r, x # ys))"

definition cancel_timer :: "int \<Rightarrow> 'c event_loop \<Rightarrow> bool \<times> 'c event_loop" where
  "cancel_timer i s = (let (r, xs) = cancel_entry i (el_timers s) in (r, s\<lparr>el_timers := xs\<rparr>))"

function el_due :: "int \<Rightarrow> 'c timer_entry list \<Rightarrow> 'c timer_entry list \<times> 'c timer_entry list" where
  "el_due now xs =
     (if xs = [] then ([], [])
      else if te_cancelled (hd xs) then el_due now (butlast (pop_heap te_expire_at xs))
      else if te_expire_at (hd xs) > now then ([], xs)
      else apfst (Cons (last (pop_heap te_expire_at xs)))
             (el_due now (butlast (pop_heap te_expire_at xs))))"
  by pat_completeness auto
termination
  by (relation "measure (length \<circ> snd)") (auto simp: heap.length_pop_back [simplified])

declare el_due.simps [simp del]

definition el_rearm :: "int \<Rightarrow> 'c timer_entry \<Rightarrow> 'c event_loop \<Rightarrow> 'c event_loop" where
  "el_rearm now x s =
     (let i = el_timer_id_counter s + 1;
          nt = \<lparr>te_id = i, te_expire_at = i64 (now + te_interval x), te_interval = te_interval x,
                te_callback = te_callback x, te_cancelled = False\<rparr>
      in s\<lparr>el_timer_id_counter := i, el_timers := push_heap te_expire_at (el_timers s @ [nt])\<rparr>)"

definition el_fire_timer :: "('c \<Rightarrow> 'c event_loop \<Rightarrow> outcome \<times> 'c event_loop) \<Rightarrow> int \<Rightarrow>
    'c timer_entry \<Rightarrow> 'c event_loop \<Rightarrow> bool \<times> 'c list \<times> 'c event_loop" where
  "el_fire_timer run now x s =
     (if te_cancelled x then (False, [], s)
      else let (out, calls, s1) =
                 (case te_callback x of
                    None \<Rightarrow> (Returns, [], s)
                  | Some c \<Rightarrow> (fst (run c s), [c], snd (run c s)))
           in if out = Throws_Other then (True, calls, s1)
              else (False, calls, if te_interval x > 0 then el_rearm now x s1 else s1))"

fun el_fire_timers :: "('c \<Rightarrow> 'c event_loop \<Rightarrow> outcome \<times> 'c event_loop) \<Rightarrow> int \<Rightarrow>
    'c timer_entry list \<Rightarrow> 'c event_loop \<Rightarrow> bool \<times> 'c list \<times> 'c event_loop" where
  "el_fire_timers run now [] s = (False, [], s)"
| "el_fire_timers run now (x # xs) s =
     (let (threw, calls, s1) = el_fire_timer run now x s
      in if threw then (True, calls, s1)
         else let (threw', calls', s2) = el_fire_timers run now xs s1 in (threw', calls @ calls', s2))"

text \<open>The flag says whether an exception has left \<open>process_timers\<close>.\<close>

definition process_timers :: "('c \<Rightarrow> 'c event_loop \<Rightarrow> outcome \<times> 'c event_loop) \<Rightarrow> int \<Rightarrow>
    'c event_loop \<Rightarrow> bool \<times> 'c list \<times> 'c event_loop" where
  "process_timers run now s =
     (let (fired, rest) = el_due now (el_timers s)
      in el_fire_timers run now fired (s\<lparr>el_timers := rest\<rparr>))"

section \<open>Tasks\<close>

definition push_task :: "'c \<Rightarrow> 'c event_loop \<Rightarrow> 'c event_loop" where
  "push_task t s = s\<lparr>el_pending_tasks := el_pending_tasks s @ [t]\<rparr>"

fun run_tasks :: "('c \<Rightarrow> 'c event_loop \<Rightarrow> outcome \<times> 'c event_loop) \<Rightarrow> 'c list \<Rightarrow>
    'c event_loop \<Rightarrow> bool \<times> 'c list \<times> 'c event_loop" where
  "run_tasks run [] s = (False, [], s)"
| "run_tasks run (t # ts) s =
     (let (out, s1) = run t s
      in if out = Throws_Other then (True, [t], s1)
         else let (threw, calls, s2) = run_tasks run ts s1 in (threw, t # calls, s2))"

definition process_tasks :: "('c \<Rightarrow> 'c event_loop \<Rightarrow> outcome \<times> 'c event_loop) \<Rightarrow>
    'c event_loop \<Rightarrow> bool \<times> 'c list \<times> 'c event_loop" where
  "process_tasks run s =
     (if el_pending_tasks s = [] then (False, [], s)
      else run_tasks run (el_pending_tasks s) (s\<lparr>el_pending_tasks := []\<rparr>))"

section \<open>Dispatch\<close>

text \<open>
  \<open>ev.data.fd\<close> reads the first four bytes of the union, which hold the pointer: its low half
  on a little-endian host (\<open>le\<close>).
\<close>

definition data_fd :: "bool \<Rightarrow> u64 \<Rightarrow> u32" where
  "data_fd le d = (if le then ucast d else ucast (drop_bit 32 d))"

definition dispatch_event :: "bool \<Rightarrow> u32 \<times> u64 \<Rightarrow> (u64 \<times> handler_call list) list" where
  "dispatch_event le ev =
     (let (flags, data) = ev; fd = data_fd le data; handler = data in
      if handler = 0 then []
      else let type = EV_READ;
               type = (if flags AND EPOLLIN \<noteq> 0 then type OR EV_READ else type);
               type = (if flags AND EPOLLOUT \<noteq> 0 then type OR EV_WRITE else type);
               type = (if flags AND EPOLLERR \<noteq> 0 then type OR EV_ERROR else type);
               type = (if flags AND EPOLLHUP \<noteq> 0 then type OR EV_CLOSED else type)
           in [(handler, on_event fd type)])"

text \<open>
  \<open>run_once\<close>: tasks, timers, then the descriptors. The result has the tasks and timers called
  and the handlers called. An exception from a task or timer skips the rest.
\<close>

definition run_once :: "bool \<Rightarrow> ('c \<Rightarrow> 'c event_loop \<Rightarrow> outcome \<times> 'c event_loop) \<Rightarrow>
    (nat \<Rightarrow> int \<Rightarrow> wait_result) \<Rightarrow> int \<Rightarrow> int \<Rightarrow> 'c event_loop \<Rightarrow>
    bool \<times> 'c list \<times> (u64 \<times> handler_call list) list \<times> 'c event_loop" where
  "run_once le run epoll_wait now timeout_ms s =
     (let (threw, calls, s1) = process_tasks run s in
      if threw then (True, calls, [], s1)
      else let (threw', calls', s2) = process_timers run now s1 in
      if threw' then (True, calls @ calls', [], s2)
      else if el_epoll_fd s2 < 0 then (False, calls @ calls', [], s2)
      else case epoll_wait (el_events s2) timeout_ms of
        Wait_Interrupted \<Rightarrow> (False, calls @ calls', [], s2)
      | Wait_Invalid \<Rightarrow> (False, calls @ calls', [], s2)
      | Ready evs \<Rightarrow> (False, calls @ calls', concat (map (dispatch_event le) evs), s2))"

text \<open>\<open>run\<close> over the inputs of the turns it makes before \<open>stop\<close> is called.\<close>

fun el_run_turns :: "bool \<Rightarrow> ('c \<Rightarrow> 'c event_loop \<Rightarrow> outcome \<times> 'c event_loop) \<Rightarrow>
    ((nat \<Rightarrow> int \<Rightarrow> wait_result) \<times> int) list \<Rightarrow> 'c event_loop \<Rightarrow> (u64 \<times> handler_call list) list \<times> 'c event_loop"
  where
  "el_run_turns le run [] s = ([], s)"
| "el_run_turns le run ((epoll_wait, now) # ins) s =
     (if \<not> el_running s then ([], s)
      else let (threw, calls, evs, s1) = run_once le run epoll_wait now 1000 s in
           if threw then (evs, s1)
           else let (evs', s2) = el_run_turns le run ins s1 in (evs @ evs', s2))"

definition el_run :: "bool \<Rightarrow> ('c \<Rightarrow> 'c event_loop \<Rightarrow> outcome \<times> 'c event_loop) \<Rightarrow>
    ((nat \<Rightarrow> int \<Rightarrow> wait_result) \<times> int) list \<Rightarrow> 'c event_loop \<Rightarrow> (u64 \<times> handler_call list) list \<times> 'c event_loop"
  where
  "el_run le run ins s =
     (if el_running s then ([], s) else el_run_turns le run ins (s\<lparr>el_running := True\<rparr>))"

section \<open>Lemmas\<close>

interpretation el: due_loop te_expire_at "push_heap te_expire_at" "pop_heap te_expire_at"
    te_cancelled el_due
  by unfold_locales (simp_all add: el_due.simps)

interpretation fdt: handler_table "\<lambda>s. um_find (el_fd_handlers s)"
    "\<lambda>fd h s. snd (snd (add_fd 0 fd type h s))" "\<lambda>fd s. snd (snd (del_fd fd s))" for type
  by unfold_locales (simp_all add: add_fd_def del_fd_def Let_def)

definition entry_due :: "int \<Rightarrow> 'c timer_entry \<Rightarrow> bool" where
  "entry_due now x \<longleftrightarrow> \<not> te_cancelled x \<and> te_expire_at x \<le> now"

lemma el_fire_timers_calls:
  assumes "\<And>c s. fst (run c s) \<noteq> Throws_Other" "\<forall>x\<in>set xs. \<not> te_cancelled x"
  shows "fst (el_fire_timers run now xs s) = False \<and>
    fst (snd (el_fire_timers run now xs s)) = List.map_filter te_callback xs"
  using assms(2)
  by (induction xs arbitrary: s)
    (auto simp: assms(1) el_fire_timer_def Let_def List.map_filter_def split_beta split: option.splits)

lemma el_timers_heap_rearm:
  "is_heap te_expire_at (el_timers s) \<Longrightarrow> is_heap te_expire_at (el_timers (el_rearm now x s))"
  by (simp add: el_rearm_def Let_def is_heap_push)

lemma el_timers_heap_fire:
  assumes "\<And>c s. is_heap te_expire_at (el_timers s) \<Longrightarrow> is_heap te_expire_at (el_timers (snd (run c s)))"
  shows "is_heap te_expire_at (el_timers s) \<Longrightarrow>
    is_heap te_expire_at (el_timers (snd (snd (el_fire_timers run now xs s))))"
proof (induction xs arbitrary: s)
  case (Cons x xs)
  have "is_heap te_expire_at (el_timers (snd (snd (el_fire_timer run now x s))))"
    using Cons.prems assms
    by (auto simp: el_fire_timer_def Let_def el_timers_heap_rearm split: option.splits)
  with Cons.IH show ?case by (simp add: split_beta Let_def)
qed simp

text \<open>Nothing in the class changes the size of the event vector.\<close>

lemma el_events_fire:
  assumes "\<And>c s. el_events (snd (run c s)) = el_events s"
  shows "el_events (snd (snd (el_fire_timers run now xs s))) = el_events s"
proof (induction xs arbitrary: s)
  case (Cons x xs)
  have "el_events (snd (snd (el_fire_timer run now x s))) = el_events s"
    using assms by (auto simp: el_fire_timer_def Let_def el_rearm_def split: option.splits)
  with Cons.IH show ?case by (simp add: split_beta Let_def)
qed simp

lemma el_events_tasks:
  assumes "\<And>c s. el_events (snd (run c s)) = el_events s"
  shows "el_events (snd (snd (run_tasks run ts s))) = el_events s"
  by (induction ts arbitrary: s) (simp_all add: assms split_beta Let_def)

lemma run_once_no_events:
  assumes "\<And>c s. el_events (snd (run c s)) = el_events s" "\<And>t. epoll_wait 0 t = Wait_Invalid"
    "el_events s = 0"
  shows "fst (snd (snd (run_once le run epoll_wait now timeout s))) = [] \<and>
    el_events (snd (snd (snd (run_once le run epoll_wait now timeout s)))) = 0"
proof -
  have "el_events (snd (snd (process_tasks run s))) = 0"
    using el_events_tasks [of run "el_pending_tasks s" "s\<lparr>el_pending_tasks := []\<rparr>"] assms(1,3)
    by (simp add: process_tasks_def)
  moreover have "el_events (snd (snd (process_timers run now s1))) = el_events s1" for s1
    using el_events_fire [of run now _ "s1\<lparr>el_timers := snd (el_due now (el_timers s1))\<rparr>"] assms(1)
    by (simp add: process_timers_def split_beta Let_def)
  ultimately show ?thesis by (simp add: run_once_def split_beta Let_def assms(2))
qed

text \<open>The tasks that tasks push are appended to a list that starts empty.\<close>

lemma run_tasks_calls:
  assumes "\<And>c s. fst (run c s) \<noteq> Throws_Other"
  shows "fst (run_tasks run ts s) = False \<and> fst (snd (run_tasks run ts s)) = ts"
  by (induction ts arbitrary: s) (simp_all add: assms split_beta Let_def)

lemma run_tasks_pushed:
  assumes "\<And>c s. run c s = (Returns, s\<lparr>el_pending_tasks := el_pending_tasks s @ pushes c\<rparr>)"
  shows "el_pending_tasks (snd (snd (run_tasks run ts s))) =
    el_pending_tasks s @ concat (map pushes ts)"
  by (induction ts arbitrary: s) (simp_all add: assms split_beta Let_def)

lemma has_flag_or: "has_flag (a OR b) f \<longleftrightarrow> has_flag a f \<or> has_flag b f"
proof -
  have "(a OR b) AND f = 0 \<longleftrightarrow> a AND f = 0 \<and> b AND f = 0"
    by (auto simp: bit_eq_iff bit_and_iff bit_or_iff)
  then show ?thesis by (simp add: has_flag_def)
qed

lemma has_flag_bits [simp]:
  "has_flag EV_READ EV_READ" "\<not> has_flag EV_READ EV_WRITE" "\<not> has_flag EV_READ EV_ERROR"
  "\<not> has_flag EV_READ EV_CLOSED" "\<not> has_flag EV_READ EV_TIMER" "\<not> has_flag EV_READ EV_SIGNAL"
  "has_flag EV_WRITE EV_WRITE" "\<not> has_flag EV_WRITE EV_ERROR" "\<not> has_flag EV_WRITE EV_CLOSED"
  "\<not> has_flag EV_WRITE EV_TIMER" "\<not> has_flag EV_WRITE EV_SIGNAL"
  "has_flag EV_ERROR EV_ERROR" "\<not> has_flag EV_ERROR EV_WRITE" "\<not> has_flag EV_ERROR EV_CLOSED"
  "\<not> has_flag EV_ERROR EV_TIMER" "\<not> has_flag EV_ERROR EV_SIGNAL"
  "has_flag EV_CLOSED EV_CLOSED" "\<not> has_flag EV_CLOSED EV_WRITE" "\<not> has_flag EV_CLOSED EV_ERROR"
  "\<not> has_flag EV_CLOSED EV_TIMER" "\<not> has_flag EV_CLOSED EV_SIGNAL"
  by (simp_all add: has_flag_def ev_defs)

section \<open>Properties\<close>

text \<open>
  \<open>process_timers\<close> calls exactly the due and live timers, once each, in the order of their
  expiry times, and leaves a heap, provided the callbacks keep the heap order and throw
  nothing but \<open>std::exception\<close>.
\<close>

theorem event_loop_fires_due:
  assumes "is_heap te_expire_at (el_timers s)"
    and "\<And>c s. fst (run c s) \<noteq> Throws_Other"
    and "\<And>c s. is_heap te_expire_at (el_timers s) \<Longrightarrow> is_heap te_expire_at (el_timers (snd (run c s)))"
  shows "(\<exists>fired. mset fired = filter_mset (entry_due now) (mset (el_timers s)) \<and>
      sorted (map te_expire_at fired) \<and>
      fst (snd (process_timers run now s)) = List.map_filter te_callback fired) \<and>
    is_heap te_expire_at (el_timers (snd (snd (process_timers run now s))))"
proof (intro conjI exI)
  let ?fired = "fst (el_due now (el_timers s))"
  show "mset ?fired = filter_mset (entry_due now) (mset (el_timers s))"
    using el.loop_fired_exact [OF assms(1)] by (simp add: entry_due_def [abs_def])
  show "sorted (map te_expire_at ?fired)" by (rule el.loop_fired_sorted [OF assms(1)])
  have "\<forall>x\<in>set ?fired. \<not> te_cancelled x" using el.loop_fired_due by blast
  then show "fst (snd (process_timers run now s)) = List.map_filter te_callback ?fired"
    using el_fire_timers_calls [of run ?fired] assms(2) by (simp add: process_timers_def split_beta)
  show "is_heap te_expire_at (el_timers (snd (snd (process_timers run now s))))"
    using el_timers_heap_fire [of run "s\<lparr>el_timers := snd (el_due now (el_timers s))\<rparr>"] assms(3)
      el.loop_rest_heap [OF assms(1)] by (simp add: process_timers_def split_beta)
qed

theorem event_loop_fires_due_witness:
  "let s = snd (add_timer 0 5 (Some 2) 0 (snd (add_timer 0 9 (Some (1::nat)) 0 EventLoop_new)))
   in fst (snd (process_timers (\<lambda>c s. (Returns, s)) 9 s)) = [2, 1] \<and>
      is_heap te_expire_at (el_timers (snd (snd (process_timers (\<lambda>c s. (Returns, s)) 9 s))))"
proof -
  let ?s = "snd (add_timer 0 5 (Some 2) 0 (snd (add_timer 0 9 (Some (1::nat)) 0 EventLoop_new)))"
  have "is_heap te_expire_at (el_timers ?s)"
    by (simp add: add_timer_def EventLoop_new_def Let_def is_heap_push is_heap_push [of _ "[]", simplified])
  from event_loop_fires_due [OF this, of "\<lambda>c s. (Returns, s)" 9]
  have "is_heap te_expire_at (el_timers (snd (snd (process_timers (\<lambda>c s. (Returns, s)) 9 ?s))))" by simp
  moreover have "fst (snd (process_timers (\<lambda>c s. (Returns, s)) 9 ?s)) = [2, 1]" by code_simp
  ultimately show ?thesis unfolding Let_def by blast
qed

text \<open>
  \<open>process_tasks\<close> runs each queued task once, in the order of the \<open>push_task\<close> calls. Tasks
  that a task pushes are not run in the same turn; they make up the queue of the next one, in
  order.
\<close>

theorem process_tasks_fifo:
  assumes "\<And>c s. run c s = (Returns, s\<lparr>el_pending_tasks := el_pending_tasks s @ pushes c\<rparr>)"
  shows "fst (snd (process_tasks run (fold push_task ts EventLoop_new))) = ts \<and>
    el_pending_tasks (snd (snd (process_tasks run (fold push_task ts EventLoop_new)))) =
      concat (map pushes ts)"
proof -
  have "el_pending_tasks (fold push_task ts s) = el_pending_tasks s @ ts" for s
    by (induction ts arbitrary: s) (simp_all add: push_task_def)
  then have q: "el_pending_tasks (fold push_task ts EventLoop_new) = ts" by (simp add: EventLoop_new_def)
  show ?thesis
    using run_tasks_calls [of run ts] run_tasks_pushed [of run pushes ts]
    by (cases "ts = []") (simp_all add: process_tasks_def q assms, simp add: EventLoop_new_def)
qed

theorem process_tasks_fifo_witness:
  "fst (snd (process_tasks (\<lambda>c s. (Returns, s\<lparr>el_pending_tasks := el_pending_tasks s @ [c]\<rparr>))
     (fold push_task [1::nat, 2] EventLoop_new))) = [1, 2]"
  using process_tasks_fifo [of "\<lambda>c s. (Returns, s\<lparr>el_pending_tasks := el_pending_tasks s @ [c]\<rparr>)" "\<lambda>c. [c]" "[1::nat, 2]"]
  by blast

text \<open>
  The loop never dispatches a descriptor event. \<open>events_\<close> has room for 64 events but no
  elements, so \<open>epoll_wait\<close> is always called with a maximum of 0, which it refuses with an
  error; the handlers of a loop made by \<open>create_event_loop\<close> are never called, however long
  it runs.
\<close>

theorem event_loop_dispatches_nothing:
  assumes "\<And>c s. el_events (snd (run c s)) = el_events s"
    and "\<forall>(epoll_wait, now)\<in>set ins. \<forall>t. epoll_wait 0 t = Wait_Invalid"
    and "create_event_loop epoll_create timerfd_create = Some s"
  shows "fst (el_run le run ins s) = []"
proof -
  have "el_events s = 0"
    using assms(3) by (auto simp: create_event_loop_def el_init_def EventLoop_new_def Let_def split: if_splits)
  moreover have "el_events s = 0 \<Longrightarrow> fst (el_run_turns le run ins s) = []" for s
    using assms(2)
  proof (induction ins arbitrary: s)
    case (Cons i ins)
    obtain ew now where i: "i = (ew, now)" by fastforce
    with Cons.prems have "\<And>t. ew 0 t = Wait_Invalid" by simp
    note r = run_once_no_events [of run ew s le now 1000, OF assms(1) this Cons.prems(1)]
    have "fst (el_run_turns le run ins (snd (snd (snd (run_once le run ew now 1000 s))))) = []"
      using r Cons.prems(2) by (intro Cons.IH) auto
    with r show ?case by (simp add: i split_beta Let_def)
  qed simp
  ultimately show ?thesis by (simp add: el_run_def)
qed

theorem event_loop_dispatches_nothing_witness:
  "fst (el_run True (\<lambda>(c::nat) s. (Returns, s))
     [(\<lambda>n t. if n = 0 then Wait_Invalid else Ready [(EPOLLIN, 4096)], 0)]
     (EventLoop_new\<lparr>el_epoll_fd := 3, el_timer_fd := 4\<rparr>)) = []"
  by (rule event_loop_dispatches_nothing [where epoll_create = 3 and timerfd_create = 4])
    (simp_all add: create_event_loop_def el_init_def)

text \<open>
  What a handler would be told about an event: the read callback comes first for every
  mask, even one without input, then those for output, error and hang-up as the mask has them,
  and the descriptor it is given is half of the handler's own address, not the descriptor that
  was registered.
\<close>

theorem dispatch_event_calls:
  assumes "handler \<noteq> 0"
  shows "dispatch_event le (flags, handler) =
    (let fd = (if le then ucast handler else ucast (drop_bit 32 handler)) in
     [(handler, [On_Read fd] @ (if flags AND EPOLLOUT \<noteq> 0 then [On_Write fd] else []) @
       (if flags AND EPOLLERR \<noteq> 0 then [On_Error fd] else []) @
       (if flags AND EPOLLHUP \<noteq> 0 then [On_Close_Fd fd] else []))])"
  using assms by (simp add: dispatch_event_def data_fd_def on_event_def has_flag_or Let_def)

theorem dispatch_event_calls_witness:
  "dispatch_event True (EPOLLOUT, 4096) = [(4096, [On_Read 4096, On_Write 4096])]"
  using dispatch_event_calls [of 4096 True EPOLLOUT] by (simp add: epoll_defs)

end
