(* ===== verification/Memory_Pool.thy ===== *)
theory Memory_Pool
  imports Prelude
begin

text \<open>
  Classes \<open>MemoryPool\<close> and \<open>MemoryPoolManager\<close> (\<open>src/base/memory/memory_pool.h\<close>,
  \<open>memory_pool.cpp\<close>): blocks of one size, the free ones linked through their first word. The
  memory is a store of bytes, and a pointer occupies eight of them; \<open>mp_chunks\<close> records base and
  number of blocks of each chunk. The result of \<open>malloc\<close> is an argument. Reading or writing a
  link outside every block is \<open>Out_Of_Bounds\<close>, as is a chunk whose size does not fit \<open>size_t\<close>, for which \<open>malloc\<close> is asked for
  the wrapped size. The locale \<open>allocator\<close> states what a client of
  a pool relies on.
\<close>

section \<open>State and operations\<close>

record mem_pool =
  mp_item_size :: nat
  mp_block_size :: nat
  mp_free_list :: nat
  mp_total_blocks :: nat
  mp_free_blocks :: nat
  mp_chunks :: "(nat \<times> nat) list"
  mp_mem :: "nat \<Rightarrow> byte"

definition chunk_blocks :: "nat \<Rightarrow> nat \<times> nat \<Rightarrow> nat list" where
  "chunk_blocks item ch = map (\<lambda>i. fst ch + i * item) [0..<snd ch]"

definition blocks :: "mem_pool \<Rightarrow> nat list" where
  "blocks s = concat (map (chunk_blocks (mp_item_size s)) (mp_chunks s))"

definition memset0 :: "nat \<Rightarrow> nat \<Rightarrow> (nat \<Rightarrow> byte) \<Rightarrow> nat \<Rightarrow> byte" where
  "memset0 p n m = (\<lambda>a. if p \<le> a \<and> a < p + n then 0 else m a)"

text \<open>Writing and reading a pointer; the order of its bytes does not matter, as it is only read back.\<close>

definition store_ptr :: "nat \<Rightarrow> nat \<Rightarrow> (nat \<Rightarrow> byte) \<Rightarrow> nat \<Rightarrow> byte" where
  "store_ptr p v m = (\<lambda>a. if p \<le> a \<and> a < p + 8 then of_nat (v div 256 ^ (a - p)) else m a)"

definition load_ptr :: "(nat \<Rightarrow> byte) \<Rightarrow> nat \<Rightarrow> nat" where
  "load_ptr m p = (\<Sum>i<8. unat (m (p + i)) * 256 ^ i)"

text \<open>The loops that link block \<open>i\<close> to block \<open>i + 1\<close>, for \<open>lo \<le> i < hi\<close>.\<close>

fun link_blocks :: "nat \<Rightarrow> nat \<Rightarrow> nat list \<Rightarrow> (nat \<Rightarrow> byte) \<Rightarrow> nat \<Rightarrow> byte" where
  "link_blocks base item [] m = m"
| "link_blocks base item (i # is) m =
     link_blocks base item is (store_ptr (base + i * item) (base + (i + 1) * item) m)"

text \<open>
  \<open>allocate\<close>. With \<open>block_size_\<close> 0 the bounds \<open>block_size_ - 1\<close> wrap around and the links are
  written far outside the chunk.
\<close>

definition mp_allocate :: "nat option \<Rightarrow> mem_pool \<Rightarrow> (nat \<times> mem_pool) access" where
  "mp_allocate malloc s =
     (if mp_free_list s \<noteq> 0
      then let ptr = mp_free_list s in
        if ptr \<notin> set (blocks s) then Out_Of_Bounds
        else Done (ptr, s\<lparr>mp_free_list := load_ptr (mp_mem s) ptr, mp_free_blocks := mp_free_blocks s - 1,
                          mp_mem := memset0 ptr (mp_item_size s) (mp_mem s)\<rparr>)
      else case malloc of
        None \<Rightarrow> Done (0, s)
      | Some base \<Rightarrow>
          if mp_block_size s = 0 \<or> 2 ^ 64 \<le> mp_item_size s * mp_block_size s then Out_Of_Bounds
          else let item = mp_item_size s; n = mp_block_size s;
                   m = link_blocks base item [1..<n - 1] (mp_mem s);
                   m = store_ptr (base + (n - 1) * item) 0 m;
                   m = memset0 base item m
               in Done (base, s\<lparr>mp_chunks := mp_chunks s @ [(base, n)],
                    mp_total_blocks := mp_total_blocks s + n,
                    mp_free_blocks := mp_free_blocks s + n - 1,
                    mp_free_list := base + item, mp_mem := m\<rparr>))"

definition mp_deallocate :: "nat \<Rightarrow> mem_pool \<Rightarrow> mem_pool access" where
  "mp_deallocate ptr s =
     (if ptr = 0 then Done s
      else if ptr \<notin> set (blocks s) then Out_Of_Bounds
      else Done (s\<lparr>mp_mem := store_ptr ptr (mp_free_list s) (mp_mem s), mp_free_list := ptr,
                   mp_free_blocks := mp_free_blocks s + 1\<rparr>))"

text \<open>One turn of \<open>pre_allocate\<close>, which puts a batch in front of the free list.\<close>

definition add_batch :: "nat \<Rightarrow> nat \<Rightarrow> mem_pool \<Rightarrow> mem_pool" where
  "add_batch base batch s =
     (let item = mp_item_size s;
          m = link_blocks base item [0..<batch - 1] (mp_mem s);
          m = store_ptr (base + (batch - 1) * item) (mp_free_list s) m
      in s\<lparr>mp_chunks := mp_chunks s @ [(base, batch)], mp_total_blocks := mp_total_blocks s + batch,
           mp_free_blocks := mp_free_blocks s + batch, mp_free_list := base, mp_mem := m\<rparr>)"

text \<open>
  The loop over the results of its \<open>malloc\<close> calls; \<open>todo\<close> is \<open>count - allocated\<close>. With
  \<open>block_size_\<close> 0 a batch is empty and its last link is written far outside.
\<close>

fun mp_pre_allocate :: "nat option list \<Rightarrow> nat \<Rightarrow> mem_pool \<Rightarrow> mem_pool access" where
  "mp_pre_allocate [] todo s = Done s"
| "mp_pre_allocate (r # rs) todo s =
     (if todo = 0 then Done s
      else let batch = min todo (mp_block_size s) in
        case r of
          None \<Rightarrow> Done s
        | Some base \<Rightarrow>
            if batch = 0 \<or> 2 ^ 64 \<le> mp_item_size s * batch then Out_Of_Bounds
            else mp_pre_allocate rs (todo - batch) (add_batch base batch s))"

definition MemoryPool_new :: "nat option list \<Rightarrow> nat \<Rightarrow> nat \<Rightarrow> nat \<Rightarrow> mem_pool access" where
  "MemoryPool_new mallocs item_size pre_alloc block_size =
     mp_pre_allocate mallocs pre_alloc
       \<lparr>mp_item_size = (if item_size < 8 then 8 else item_size), mp_block_size = block_size,
        mp_free_list = 0, mp_total_blocks = 0, mp_free_blocks = 0, mp_chunks = [], mp_mem = (\<lambda>_. 0)\<rparr>"

text \<open>The chunks that the destructor frees.\<close>

definition mp_destroy :: "mem_pool \<Rightarrow> nat list" where
  "mp_destroy s = map fst (mp_chunks s)"

definition mp_used_blocks :: "mem_pool \<Rightarrow> nat" where
  "mp_used_blocks s = mp_total_blocks s - mp_free_blocks s"

text \<open>
  \<open>MemoryPoolManager\<close>: pools by block size. The search for the size class doubles a 64-bit
  number; \<open>None\<close> is a search that never ends.
\<close>

partial_function (option) size_class :: "u64 \<Rightarrow> u64 \<Rightarrow> u64 option" where
  "size_class alloc_size sz = (if alloc_size < sz then size_class (alloc_size * 2) sz else Some alloc_size)"

declare size_class.simps [code]

record pool_manager =
  pm_pools :: "(nat \<times> mem_pool) list"

fun find_pool :: "nat \<Rightarrow> (nat \<times> mem_pool) list \<Rightarrow> nat option" where
  "find_pool sz [] = None"
| "find_pool sz ((n, p) # ps) = (if n = sz then Some 0 else map_option Suc (find_pool sz ps))"

definition get_pool :: "nat option list \<Rightarrow> u64 \<Rightarrow> pool_manager \<Rightarrow> (nat \<times> pool_manager) access option" where
  "get_pool mallocs sz m =
     (case size_class 64 sz of
        None \<Rightarrow> None
      | Some a \<Rightarrow>
          (case find_pool (unat a) (pm_pools m) of
             Some i \<Rightarrow> Some (Done (i, m))
           | None \<Rightarrow>
               (case MemoryPool_new mallocs (unat a) 64 64 of
                  Out_Of_Bounds \<Rightarrow> Some Out_Of_Bounds
                | Done p \<Rightarrow> Some (Done (length (pm_pools m), m\<lparr>pm_pools := pm_pools m @ [(unat a, p)]\<rparr>)))))"

fun manager_pre_alloc :: "(nat \<times> nat option list) list \<Rightarrow> pool_manager \<Rightarrow> pool_manager access" where
  "manager_pre_alloc [] m = Done m"
| "manager_pre_alloc ((sz, mallocs) # rest) m =
     (case MemoryPool_new mallocs sz 32 32 of
        Out_Of_Bounds \<Rightarrow> Out_Of_Bounds
      | Done p \<Rightarrow> manager_pre_alloc rest (m\<lparr>pm_pools := pm_pools m @ [(sz, p)]\<rparr>))"

definition pre_alloc :: "nat option list list \<Rightarrow> pool_manager \<Rightarrow> pool_manager access" where
  "pre_alloc mallocs m = manager_pre_alloc (zip [64, 128, 256, 512, 1024, 2048, 4096, 8192] mallocs) m"

definition manager_stats :: "pool_manager \<Rightarrow> nat \<times> nat \<times> nat" where
  "manager_stats m =
     (let total = sum_list (map (mp_total_blocks \<circ> snd) (pm_pools m));
          free = sum_list (map (mp_free_blocks \<circ> snd) (pm_pools m))
      in (total, free, total - free))"

section \<open>The free list\<close>

fun flist :: "(nat \<Rightarrow> byte) \<Rightarrow> nat \<Rightarrow> nat list \<Rightarrow> bool" where
  "flist m p [] \<longleftrightarrow> p = 0"
| "flist m p (x # xs) \<longleftrightarrow> p = x \<and> x \<noteq> 0 \<and> flist m (load_ptr m x) xs"

lemma flist_frame: "(\<And>x. x \<in> set xs \<Longrightarrow> load_ptr m' x = load_ptr m x) \<Longrightarrow> flist m' p xs = flist m p xs"
  by (induction xs arbitrary: p) auto

lemma digits: "(\<Sum>i<n. (v div 256 ^ i mod 256) * 256 ^ i) = v mod (256 ^ n :: nat)"
proof (induction n)
  case (Suc n)
  have "v mod 256 ^ Suc n = 256 ^ n * (v div 256 ^ n mod 256) + v mod 256 ^ n"
    using mod_mult2_eq [of v "256 ^ n" 256] by (simp add: mult.commute)
  with Suc show ?case by simp
qed simp

lemma load_store_same:
  assumes "v < 2 ^ 64"
  shows "load_ptr (store_ptr p v m) p = v"
proof -
  have "load_ptr (store_ptr p v m) p = (\<Sum>i<8. (v div 256 ^ i mod 256) * 256 ^ i)"
    unfolding load_ptr_def by (rule sum.cong) (simp_all add: store_ptr_def unat_of_nat)
  also have "\<dots> = v mod 256 ^ 8" by (rule digits)
  finally show ?thesis using assms by simp
qed

lemma load_same: "(\<And>a. p \<le> a \<Longrightarrow> a < p + 8 \<Longrightarrow> m' a = m a) \<Longrightarrow> load_ptr m' p = load_ptr m p"
  unfolding load_ptr_def by (rule sum.cong) simp_all

lemma load_store_other: "q + 8 \<le> p \<or> p + 8 \<le> q \<Longrightarrow> load_ptr (store_ptr p v m) q = load_ptr m q"
  by (rule load_same) (auto simp: store_ptr_def)

text \<open>The links of a chunk stay inside it.\<close>

lemma store_outside:
  assumes "i < n" "8 \<le> item" "a < base \<or> base + n * item \<le> a"
  shows "store_ptr (base + i * item) v m a = m a"
proof -
  have "i * item + item \<le> n * item" using mult_le_mono1 [of "Suc i" n item] assms(1) by simp
  with assms(2,3) show ?thesis by (auto simp: store_ptr_def)
qed

lemma link_blocks_outside:
  "\<forall>i\<in>set is. i < n \<Longrightarrow> 8 \<le> item \<Longrightarrow> a < base \<or> base + n * item \<le> a \<Longrightarrow> link_blocks base item is m a = m a"
  by (induction "is" arbitrary: m) (simp_all, metis store_outside mult_Suc Suc_eq_plus1 add.commute)

lemma load_link_other:
  "(\<And>i. i \<in> set is \<Longrightarrow> q + 8 \<le> base + i * item \<or> base + i * item + 8 \<le> q) \<Longrightarrow>
   load_ptr (link_blocks base item is m) q = load_ptr m q"
  by (induction "is" arbitrary: m) (auto simp: load_store_other)

text \<open>Different blocks of a chunk do not overlap.\<close>

lemma blocks_apart: "i \<noteq> j \<Longrightarrow> 8 \<le> item \<Longrightarrow> base + i * item + 8 \<le> base + j * item \<or> base + j * item + 8 \<le> base + (i :: nat) * item"
proof -
  have "i * item + item \<le> j * item" if "i < j" for i j
    using mult_le_mono1 [of "Suc i" j item] that by simp
  then show "i \<noteq> j \<Longrightarrow> 8 \<le> item \<Longrightarrow> ?thesis" using nat_neq_iff [of i j] by (metis add.assoc add_left_mono order_trans)
qed

lemma link_blocks_at:
  assumes "8 \<le> item" "distinct is" "i \<in> set is" "base + (i + 1) * item < 2 ^ 64"
  shows "load_ptr (link_blocks base item is m) (base + i * item) = base + (i + 1) * item"
  using assms(2,3)
proof (induction "is" arbitrary: m)
  case (Cons j js)
  show ?case
  proof (cases "i = j")
    case True
    have "base + i * item + 8 \<le> base + k * item \<or> base + k * item + 8 \<le> base + i * item" if "k \<in> set js" for k
      using blocks_apart [of i k item base] assms(1) Cons.prems(1) True that by auto
    with True show ?thesis using load_link_other [of js "base + i * item" base item] load_store_same [OF assms(4)] by simp
  qed (use Cons in auto)
qed simp

text \<open>Blocks that do not overlap.\<close>

definition apart :: "nat \<Rightarrow> nat list \<Rightarrow> bool" where
  "apart item xs \<longleftrightarrow> (\<forall>a\<in>set xs. \<forall>b\<in>set xs. a \<noteq> b \<longrightarrow> a + item \<le> b \<or> b + item \<le> a)"

lemma memset0_apart:
  assumes "apart item xs" "p \<in> set xs" "x \<in> set xs" "x \<noteq> p" "x \<le> a" "a < x + item"
  shows "memset0 p item m a = m a"
proof -
  have "x + item \<le> p \<or> p + item \<le> x" using assms(1-4) unfolding apart_def by blast
  with assms(5,6) show ?thesis by (auto simp: memset0_def)
qed

lemma load_memset0_apart:
  "apart item xs \<Longrightarrow> 8 \<le> item \<Longrightarrow> p \<in> set xs \<Longrightarrow> x \<in> set xs \<Longrightarrow> x \<noteq> p \<Longrightarrow> load_ptr (memset0 p item m) x = load_ptr m x"
  by (rule load_same) (auto intro: memset0_apart)

lemma chunk_blocks_apart: "0 < item \<Longrightarrow> apart item (chunk_blocks item (base, n))"
proof -
  assume "0 < item"
  have "i * item + item \<le> j * item" if "i < j" for i j
    using mult_le_mono1 [of "Suc i" j item] that by simp
  then show ?thesis by (fastforce simp: apart_def chunk_blocks_def nat_neq_iff)
qed

lemma distinct_chunk_blocks: "0 < item \<Longrightarrow> distinct (chunk_blocks item ch)"
  by (auto simp: chunk_blocks_def distinct_map inj_on_def)

text \<open>
  A sublist of consecutive blocks of a chunk, linked by the loops and ending at \<open>last\<close>.
\<close>

lemma flist_linked:
  assumes "0 < item" "0 < base" "lo < n" "\<And>i. lo \<le> i \<Longrightarrow> i < n - 1 \<Longrightarrow> load_ptr m (base + i * item) = base + (i + 1) * item"
    "flist m (load_ptr m (base + (n - 1) * item)) xs"
  shows "flist m (base + lo * item) (map (\<lambda>i. base + i * item) [lo..<n] @ xs)"
  using assms(3,4)
proof (induction "n - lo" arbitrary: lo)
  case (Suc k)
  show ?case
  proof (cases "lo = n - 1")
    case True
    with Suc.prems(1) have "[lo..<n] = [lo]" by (cases n) auto
    with True assms(2,5) show ?thesis by simp
  next
    case False
    then have lt: "Suc lo < n" using Suc.prems(1) by simp
    have "flist m (base + Suc lo * item) (map (\<lambda>i. base + i * item) [Suc lo..<n] @ xs)"
      by (rule Suc.hyps(1)) (use Suc lt in auto)
    moreover have "load_ptr m (base + lo * item) = base + Suc lo * item" using Suc.prems(2) [of lo] lt by simp
    ultimately show ?thesis using Suc.prems(1) assms(2) by (simp add: upt_conv_Cons)
  qed
qed simp

section \<open>Invariant\<close>

text \<open>
  \<open>pool_ok used s\<close>: the blocks of the pool are those in use and those on the free list, each
  once, at addresses of 64 bits, and the counters agree.
\<close>

definition pool_ok :: "nat list \<Rightarrow> mem_pool \<Rightarrow> bool" where
  "pool_ok used s \<longleftrightarrow> 8 \<le> mp_item_size s \<and> distinct (blocks s) \<and> 0 \<notin> set (blocks s) \<and>
     (\<forall>b\<in>set (blocks s). b < 2 ^ 64) \<and>
     apart (mp_item_size s) (blocks s) \<and> mp_total_blocks s = length (blocks s) \<and>
     (\<exists>ps. flist (mp_mem s) (mp_free_list s) ps \<and> mset ps + mset used = mset (blocks s) \<and>
        mp_free_blocks s = length ps)"

text \<open>
  What \<open>malloc\<close> promises for a chunk of \<open>n\<close> blocks: a region of the address space that is not null and overlaps no
  block handed out before.
\<close>

definition fresh_chunk :: "nat \<Rightarrow> nat \<Rightarrow> mem_pool \<Rightarrow> bool" where
  "fresh_chunk base n s \<longleftrightarrow> 0 < base \<and> base + n * mp_item_size s \<le> 2 ^ 64 \<and>
     (\<forall>b\<in>set (blocks s). b + mp_item_size s \<le> base \<or> base + n * mp_item_size s \<le> b)"

lemma blocks_add_chunk:
  "mp_item_size s' = mp_item_size s \<Longrightarrow> mp_chunks s' = mp_chunks s @ [(base, n)] \<Longrightarrow>
   blocks s' = blocks s @ chunk_blocks (mp_item_size s) (base, n)"
  by (simp add: blocks_def)

lemma chunk_blocks_range:
  "x \<in> set (chunk_blocks item (base, n)) \<Longrightarrow> base \<le> x \<and> x + item \<le> base + n * item"
proof -
  assume "x \<in> set (chunk_blocks item (base, n))"
  then obtain i where "i < n" "x = base + i * item" by (auto simp: chunk_blocks_def)
  moreover then have "Suc i * item \<le> n * item" by (intro mult_le_mono1) simp
  ultimately show ?thesis by simp
qed

lemma fresh_chunk_blocks:
  assumes "pool_ok used s" "fresh_chunk base n s"
  shows "distinct (blocks s @ chunk_blocks (mp_item_size s) (base, n))"
    "0 \<notin> set (chunk_blocks (mp_item_size s) (base, n))"
    "apart (mp_item_size s) (blocks s @ chunk_blocks (mp_item_size s) (base, n))"
    "set (blocks s) \<inter> set (chunk_blocks (mp_item_size s) (base, n)) = {}"
    "\<forall>x\<in>set (chunk_blocks (mp_item_size s) (base, n)). x < 2 ^ 64"
proof -
  let ?new = "chunk_blocks (mp_item_size s) (base, n)" and ?item = "mp_item_size s"
  have item: "0 < ?item" and old: "distinct (blocks s)" "apart ?item (blocks s)"
    using assms(1) by (auto simp: pool_ok_def)
  have sep: "a + ?item \<le> b \<or> b + ?item \<le> a" if "a \<in> set (blocks s)" "b \<in> set ?new" for a b
  proof -
    have "a + ?item \<le> base \<or> base + n * ?item \<le> a" using assms(2) that(1) by (simp add: fresh_chunk_def)
    with chunk_blocks_range [OF that(2)] show ?thesis by linarith
  qed
  then show dis: "set (blocks s) \<inter> set ?new = {}" using item by force
  then show "distinct (blocks s @ ?new)" using old distinct_chunk_blocks [OF item] by simp
  show "0 \<notin> set ?new" using assms(2) chunk_blocks_range [of 0] by (auto simp: fresh_chunk_def)
  have "base + n * ?item \<le> 2 ^ 64" using assms(2) by (simp add: fresh_chunk_def)
  with item show "\<forall>x\<in>set ?new. x < 2 ^ 64" using chunk_blocks_range [of _ ?item base n] by fastforce
  show "apart ?item (blocks s @ ?new)"
    using old(2) chunk_blocks_apart [OF item, of base n] sep
    unfolding apart_def set_append by (metis Un_iff)
qed

lemma block_in_chunk: "i < n \<Longrightarrow> base + i * item \<in> set (chunk_blocks item (base, n))"
  by (auto simp: chunk_blocks_def)

lemma base_in_chunk: "0 < n \<Longrightarrow> base \<in> set (chunk_blocks item (base, n))"
  using block_in_chunk [of 0 n base item] by simp

lemma mset_chunk_split:
  "0 < n \<Longrightarrow> mset (chunk_blocks item (base, n)) = add_mset base (mset (map (\<lambda>i. base + i * item) [1..<n]))"
  by (simp add: chunk_blocks_def upt_conv_Cons)

text \<open>The link to the next block fits a pointer.\<close>

lemma flist_head: "flist m p ps \<Longrightarrow> \<forall>x\<in>set ps. x < 2 ^ 64 \<Longrightarrow> p < 2 ^ 64"
  by (cases ps) auto

text \<open>A block whose bytes are all zero; blocks whose bytes have not changed.\<close>

definition cleared :: "nat \<Rightarrow> mem_pool \<Rightarrow> bool" where
  "cleared p s \<longleftrightarrow> (\<forall>a. p \<le> a \<and> a < p + mp_item_size s \<longrightarrow> mp_mem s a = 0)"

definition kept :: "nat list \<Rightarrow> mem_pool \<Rightarrow> mem_pool \<Rightarrow> bool" where
  "kept bs s s' \<longleftrightarrow> mp_item_size s' = mp_item_size s \<and>
     (\<forall>b\<in>set bs. \<forall>a. b \<le> a \<and> a < b + mp_item_size s \<longrightarrow> mp_mem s' a = mp_mem s a)"

text \<open>Taking the front of the free list.\<close>

lemma allocate_from_list:
  assumes ok: "pool_ok used s" and fl: "mp_free_list s \<noteq> 0"
  shows "\<exists>s'. mp_allocate r s = Done (mp_free_list s, s') \<and> mp_free_list s \<in> set (blocks s') \<and>
    mp_free_list s \<notin> set used \<and> pool_ok (mp_free_list s # used) s' \<and>
    cleared (mp_free_list s) s' \<and> kept used s s'"
proof -
  let ?p = "mp_free_list s" and ?item = "mp_item_size s"
  obtain ps where ps: "flist (mp_mem s) ?p ps" "mset ps + mset used = mset (blocks s)"
    "mp_free_blocks s = length ps" using ok by (auto simp: pool_ok_def)
  then obtain qs where qs: "ps = ?p # qs" "flist (mp_mem s) (load_ptr (mp_mem s) ?p) qs" using fl by (cases ps) auto
  have "mset (?p # qs @ used) = mset (blocks s)" using ps(2) qs(1) by simp
  moreover have ap: "distinct (blocks s)" "apart ?item (blocks s)" "8 \<le> ?item" using ok by (simp_all add: pool_ok_def)
  ultimately have d: "distinct (?p # qs @ used)" and set: "set (?p # qs @ used) = set (blocks s)"
    by (metis distinct_count_atmost_1 set_mset_mset, metis set_mset_mset)
  then have mem: "?p \<in> set (blocks s)" "?p \<notin> set used" by auto
  let ?m = "memset0 ?p ?item (mp_mem s)"
  have "load_ptr ?m x = load_ptr (mp_mem s) x" if "x \<in> set qs" for x
    using ap that d set by (intro load_memset0_apart [of _ "blocks s"]) auto
  then have "flist ?m (load_ptr (mp_mem s) ?p) qs" using qs(2) flist_frame [of qs ?m "mp_mem s"] by simp
  define s' where "s' = s\<lparr>mp_free_list := load_ptr (mp_mem s) ?p, mp_free_blocks := mp_free_blocks s - 1, mp_mem := ?m\<rparr>"
  have "pool_ok (?p # used) s'"
    using \<open>flist ?m (load_ptr (mp_mem s) ?p) qs\<close> ok ps qs(1) by (auto simp: pool_ok_def blocks_def s'_def)
  moreover have "cleared ?p s'" by (simp add: cleared_def s'_def memset0_def)
  moreover have "kept used s s'"
    unfolding kept_def s'_def using memset0_apart [OF ap(2) mem(1)] mem(2) set by auto
  moreover have "mp_allocate r s = Done (?p, s')" "blocks s' = blocks s"
    using fl mem by (simp_all add: mp_allocate_def Let_def blocks_def s'_def)
  ultimately show ?thesis using mem by auto
qed

text \<open>Growing by a chunk when the free list is empty.\<close>

lemma linked_chunk:
  assumes "8 \<le> item" "lo \<le> i" "i < n - 1" "base + n * item \<le> 2 ^ 64"
  shows "load_ptr (store_ptr (base + (n - 1) * item) v (link_blocks base item [lo..<n - 1] m)) (base + i * item) =
    base + (i + 1) * item"
proof -
  have "base + i * item + 8 \<le> base + (n - 1) * item \<or> base + (n - 1) * item + 8 \<le> base + i * item"
    using assms(1,3) by (intro blocks_apart) simp_all
  moreover have "(i + 1) * item + item \<le> n * item" using mult_le_mono1 [of "Suc (Suc i)" n item] assms(3) by (simp add: Suc_le_eq less_diff_conv)
  then have "base + (i + 1) * item < 2 ^ 64" using assms(1,4) by linarith
  ultimately show ?thesis
    using link_blocks_at [OF assms(1), of "[lo..<n - 1]" i base m] assms(2,3) by (simp add: load_store_other)
qed

lemma chunk_memory_outside:
  assumes "8 \<le> item" "0 < n" "a < base \<or> base + n * item \<le> a"
  shows "store_ptr (base + (n - 1) * item) v (link_blocks base item [lo..<n - 1] m) a = m a"
proof -
  have "\<forall>i\<in>set [lo..<n - 1]. i < n" by auto
  from link_blocks_outside [OF this assms(1,3)] store_outside [of "n - 1" n item a base] assms show ?thesis by simp
qed

lemma allocate_from_chunk:
  assumes ok: "pool_ok used s" and fl: "mp_free_list s = 0" and bs: "2 \<le> mp_block_size s"
    and fresh: "fresh_chunk base (mp_block_size s) s"
  shows "\<exists>s'. mp_allocate (Some base) s = Done (base, s') \<and> base \<in> set (blocks s') \<and> base \<notin> set used \<and>
    pool_ok (base # used) s' \<and> cleared base s' \<and> kept used s s'"
proof -
  let ?item = "mp_item_size s" and ?n = "mp_block_size s"
  define m1 where "m1 = store_ptr (base + (?n - 1) * ?item) 0 (link_blocks base ?item [1..<?n - 1] (mp_mem s))"
  define m2 where "m2 = memset0 base ?item m1"
  define s' where "s' = s\<lparr>mp_chunks := mp_chunks s @ [(base, ?n)], mp_total_blocks := mp_total_blocks s + ?n,
    mp_free_blocks := mp_free_blocks s + ?n - 1, mp_free_list := base + ?item, mp_mem := m2\<rparr>"
  have item: "8 \<le> ?item" using ok by (simp add: pool_ok_def)
  have base: "0 < base" "base + ?n * ?item \<le> 2 ^ 64" using fresh by (simp_all add: fresh_chunk_def)
  note new = fresh_chunk_blocks [OF ok fresh]
  have bl: "blocks s' = blocks s @ chunk_blocks ?item (base, ?n)" by (rule blocks_add_chunk) (simp_all add: s'_def)
  obtain ps where ps: "flist (mp_mem s) 0 ps" "mset ps + mset used = mset (blocks s)" "mp_free_blocks s = length ps"
    using ok fl by (auto simp: pool_ok_def)
  then have [simp]: "ps = []" by (cases ps) auto
  then have "mset used = mset (blocks s)" using ps(2) by simp
  then have used: "set used = set (blocks s)" by (rule mset_eq_setD)
  have out: "load_ptr m2 (base + i * ?item) = load_ptr m1 (base + i * ?item)" if "1 \<le> i" for i
  proof (rule load_same)
    fix a assume "base + i * ?item \<le> a"
    moreover have "?item \<le> i * ?item" using that by (cases i) auto
    ultimately have "\<not> a < base + ?item" by linarith
    then show "m2 a = m1 a" by (simp add: m2_def memset0_def)
  qed
  have "flist m2 (base + 1 * ?item) (map (\<lambda>i. base + i * ?item) [1..<?n] @ [])"
  proof (rule flist_linked)
    show "load_ptr m2 (base + i * ?item) = base + (i + 1) * ?item" if "1 \<le> i" "i < ?n - 1" for i
      using out [OF that(1)] linked_chunk [OF item that base(2), of 0 "mp_mem s"] by (simp add: m1_def)
    show "flist m2 (load_ptr m2 (base + (?n - 1) * ?item)) []"
      using out [of "?n - 1"] bs load_store_same [of 0] by (simp add: m1_def)
  qed (use bs item base in simp_all)
  moreover have "mset (map (\<lambda>i. base + i * ?item) [1..<?n]) + mset (base # used) = mset (blocks s')"
    using ps(2) bs by (simp add: bl mset_chunk_split)
  ultimately have "pool_ok (base # used) s'"
    using ok ps(3) bs new bl unfolding pool_ok_def
    by (intro conjI exI [of _ "map (\<lambda>i. base + i * ?item) [1..<?n]"])
      (auto simp: s'_def chunk_blocks_def)
  moreover have in_chunk: "base \<in> set (chunk_blocks ?item (base, ?n))" using bs by (intro base_in_chunk) simp
  moreover have "base \<notin> set used" using in_chunk new(4) used by blast
  moreover have "mp_allocate (Some base) s = Done (base, s')"
    using fl bs base by (simp add: mp_allocate_def Let_def s'_def m1_def m2_def mult.commute)
  moreover have "cleared base s'" by (simp add: cleared_def s'_def m2_def memset0_def)
  moreover have "kept used s s'"
    unfolding kept_def
  proof (intro conjI ballI allI impI)
    fix b a assume "b \<in> set used" "b \<le> a \<and> a < b + ?item"
    then have "a < base \<or> base + ?n * ?item \<le> a" using fresh used by (fastforce simp: fresh_chunk_def)
    moreover have "?item \<le> ?n * ?item" using bs by (cases ?n) auto
    moreover from calculation have "\<not> (base \<le> a \<and> a < base + ?item)" by linarith
    ultimately show "mp_mem s' a = mp_mem s a"
      using chunk_memory_outside [OF item, of ?n a base] bs by (auto simp: s'_def m2_def m1_def memset0_def)
  qed (simp add: s'_def)
  ultimately show ?thesis using bl by auto
qed

lemma deallocate_ok:
  assumes ok: "pool_ok used s" and p: "p \<in> set used"
  shows "\<exists>s'. mp_deallocate p s = Done s' \<and> pool_ok (remove1 p used) s' \<and> kept (remove1 p used) s s'"
proof -
  obtain ps where ps: "flist (mp_mem s) (mp_free_list s) ps" "mset ps + mset used = mset (blocks s)"
    "mp_free_blocks s = length ps" using ok by (auto simp: pool_ok_def)
  have "mset (ps @ used) = mset (blocks s)" using ps(2) by simp
  moreover have bl: "distinct (blocks s)" "0 \<notin> set (blocks s)" "apart (mp_item_size s) (blocks s)" "8 \<le> mp_item_size s"
    "\<forall>b\<in>set (blocks s). b < 2 ^ 64" using ok by (simp_all add: pool_ok_def)
  ultimately have d: "distinct (ps @ used)" and set: "set (ps @ used) = set (blocks s)"
    by (metis distinct_count_atmost_1 set_mset_mset, metis set_mset_mset)
  then have mem: "p \<in> set (blocks s)" "p \<notin> set ps" "p \<notin> set (remove1 p used)" using p by auto
  then have "p \<noteq> 0" using bl(2) by metis
  define s' where "s' = s\<lparr>mp_mem := store_ptr p (mp_free_list s) (mp_mem s), mp_free_list := p,
    mp_free_blocks := mp_free_blocks s + 1\<rparr>"
  have other: "mp_mem s' a = mp_mem s a" if "x \<in> set (blocks s)" "x \<noteq> p" "x \<le> a" "a < x + mp_item_size s" for x a
  proof -
    have "x + mp_item_size s \<le> p \<or> p + mp_item_size s \<le> x" using bl(3) mem(1) that(1,2) by (auto simp: apart_def)
    with that(3,4) bl(4) show ?thesis by (auto simp: s'_def store_ptr_def)
  qed
  have "load_ptr (mp_mem s') x = load_ptr (mp_mem s) x" if "x \<in> set ps" for x
    using mem(2) that set bl(4) by (intro load_same other [of x]) auto
  from flist_frame [OF this] have "flist (mp_mem s') (mp_free_list s) ps" using ps(1) by simp
  moreover have "mp_free_list s < 2 ^ 64" using flist_head [OF ps(1)] bl(5) set by auto
  then have "load_ptr (mp_mem s') p = mp_free_list s" by (simp add: s'_def load_store_same)
  ultimately have "flist (mp_mem s') p (p # ps)" using \<open>p \<noteq> 0\<close> by simp
  moreover have "mset (p # ps) + mset (remove1 p used) = mset (blocks s)"
    using ps(2) p mem(1) by (metis add_mset_remove_trivial_eq insert_DiffM mset.simps(2) mset_remove1 set_mset_mset
        union_mset_add_mset_left union_mset_add_mset_right)
  ultimately have "pool_ok (remove1 p used) s'"
    using ok ps(3) unfolding pool_ok_def
    by (intro conjI exI [of _ "p # ps"]) (simp_all add: s'_def blocks_def)
  moreover have "mp_deallocate p s = Done s'" using mem \<open>p \<noteq> 0\<close> by (simp add: mp_deallocate_def s'_def)
  moreover have "kept (remove1 p used) s s'"
    unfolding kept_def
  proof (intro conjI ballI allI impI)
    fix b a assume b: "b \<in> set (remove1 p used)" "b \<le> a \<and> a < b + mp_item_size s"
    then have "b \<in> set (blocks s)" "b \<noteq> p" using set mem(3) set_remove1_subset [of p used] by auto
    with b other show "mp_mem s' a = mp_mem s a" by blast
  qed (simp add: s'_def)
  ultimately show ?thesis by blast
qed

section \<open>The allocator interface\<close>

text \<open>
  \<open>ok used s\<close>: the allocator has handed out exactly \<open>used\<close>. \<open>ready r s\<close>: the environment's
  answer \<open>r\<close> lets the next allocation succeed.
\<close>

locale allocator =
  fixes alloc :: "'r \<Rightarrow> 's \<Rightarrow> ('p \<times> 's) access"
    and dealloc :: "'p \<Rightarrow> 's \<Rightarrow> 's access"
    and ok :: "'p list \<Rightarrow> 's \<Rightarrow> bool"
    and ready :: "'r \<Rightarrow> 's \<Rightarrow> bool"
  assumes alloc_fresh: "ok used s \<Longrightarrow> ready r s \<Longrightarrow>
      \<exists>p s'. alloc r s = Done (p, s') \<and> p \<notin> set used \<and> ok (p # used) s'"
    and dealloc_used: "ok used s \<Longrightarrow> p \<in> set used \<Longrightarrow>
      \<exists>s'. dealloc p s = Done s' \<and> ok (remove1 p used) s'"
begin

fun alloc_many :: "'r list \<Rightarrow> 's \<Rightarrow> ('p list \<times> 's) access" where
  "alloc_many [] s = Done ([], s)"
| "alloc_many (r # rs) s =
     (case alloc r s of
        Out_Of_Bounds \<Rightarrow> Out_Of_Bounds
      | Done (p, s') \<Rightarrow>
          (case alloc_many rs s' of Out_Of_Bounds \<Rightarrow> Out_Of_Bounds | Done (ps, s'') \<Rightarrow> Done (p # ps, s'')))"

fun all_ready :: "'r list \<Rightarrow> 's \<Rightarrow> bool" where
  "all_ready [] s \<longleftrightarrow> True"
| "all_ready (r # rs) s \<longleftrightarrow>
     ready r s \<and> (case alloc r s of Out_Of_Bounds \<Rightarrow> False | Done (p, s') \<Rightarrow> all_ready rs s')"

lemma alloc_many_distinct:
  "ok used s \<Longrightarrow> distinct used \<Longrightarrow> all_ready rs s \<Longrightarrow>
   \<exists>ps s'. alloc_many rs s = Done (ps, s') \<and> length ps = length rs \<and> distinct (ps @ used) \<and>
     ok (rev ps @ used) s'"
proof (induction rs arbitrary: s used)
  case (Cons r rs)
  obtain p s1 where a: "alloc r s = Done (p, s1)" "p \<notin> set used" "ok (p # used) s1"
    using alloc_fresh [OF Cons.prems(1)] Cons.prems(3) by fastforce
  then obtain ps s2 where "alloc_many rs s1 = Done (ps, s2)" "length ps = length rs"
    "distinct (ps @ p # used)" "ok (rev ps @ p # used) s2"
    using Cons.IH [of "p # used" s1] Cons.prems(2,3) by auto
  with a show ?case by (intro exI [of _ "p # ps"] exI [of _ s2]) auto
qed simp

lemma alloc_dealloc:
  assumes "ok used s" "ready r s"
  shows "\<exists>p s1 s2. alloc r s = Done (p, s1) \<and> dealloc p s1 = Done s2 \<and> ok used s2"
proof -
  obtain p s1 where a: "alloc r s = Done (p, s1)" "ok (p # used) s1" using alloc_fresh [OF assms] by blast
  from dealloc_used [OF a(2), of p] obtain s2 where "dealloc p s1 = Done s2" "ok used s2" by auto
  with a show ?thesis by blast
qed

end

definition malloc_ready :: "nat option \<Rightarrow> mem_pool \<Rightarrow> bool" where
  "malloc_ready r s \<longleftrightarrow> mp_free_list s \<noteq> 0 \<or>
     (2 \<le> mp_block_size s \<and> (\<exists>base. r = Some base \<and> fresh_chunk base (mp_block_size s) s))"

lemma mp_allocate_fresh:
  assumes "pool_ok used s" "malloc_ready r s"
  shows "\<exists>p s'. mp_allocate r s = Done (p, s') \<and> p \<in> set (blocks s') \<and> p \<notin> set used \<and>
    pool_ok (p # used) s' \<and> cleared p s' \<and> kept used s s'"
proof (cases "mp_free_list s = 0")
  case True
  with assms(2) obtain base where "r = Some base" "2 \<le> mp_block_size s"
    "fresh_chunk base (mp_block_size s) s" by (auto simp: malloc_ready_def)
  with allocate_from_chunk [OF assms(1) True] show ?thesis by blast
next
  case False
  from allocate_from_list [OF assms(1) False, of r] show ?thesis by blast
qed

interpretation mp: allocator mp_allocate mp_deallocate pool_ok malloc_ready
  using mp_allocate_fresh deallocate_ok by unfold_locales blast+

section \<open>Pre-allocation\<close>

lemma add_batch_ok:
  assumes ok: "pool_ok used s" and n: "0 < n" and fresh: "fresh_chunk base n s"
  shows "pool_ok used (add_batch base n s)"
proof -
  let ?item = "mp_item_size s"
  define m2 where "m2 = store_ptr (base + (n - 1) * ?item) (mp_free_list s) (link_blocks base ?item [0..<n - 1] (mp_mem s))"
  have s': "add_batch base n s = s\<lparr>mp_chunks := mp_chunks s @ [(base, n)], mp_total_blocks := mp_total_blocks s + n,
    mp_free_blocks := mp_free_blocks s + n, mp_free_list := base, mp_mem := m2\<rparr>" (is "_ = ?s'")
    by (simp add: add_batch_def Let_def m2_def)
  have item: "8 \<le> ?item" "\<forall>b\<in>set (blocks s). b < 2 ^ 64" and base: "0 < base" "base + n * ?item \<le> 2 ^ 64"
    using ok fresh by (simp_all add: pool_ok_def fresh_chunk_def)
  note new = fresh_chunk_blocks [OF ok fresh]
  have bl: "blocks ?s' = blocks s @ chunk_blocks ?item (base, n)" by (rule blocks_add_chunk) simp_all
  obtain ps where ps: "flist (mp_mem s) (mp_free_list s) ps" "mset ps + mset used = mset (blocks s)"
    "mp_free_blocks s = length ps" using ok by (auto simp: pool_ok_def)
  then have sub: "set ps \<subseteq> set (blocks s)" by (metis set_mset_mset set_mset_union sup_ge1)
  have "load_ptr m2 x = load_ptr (mp_mem s) x" if "x \<in> set ps" for x
  proof (rule load_same)
    fix a assume "x \<le> a" "a < x + 8"
    moreover have "x + ?item \<le> base \<or> base + n * ?item \<le> x" using fresh that sub by (auto simp: fresh_chunk_def)
    ultimately have "a < base \<or> base + n * ?item \<le> a" using item(1) by linarith
    then show "m2 a = mp_mem s a" using chunk_memory_outside [OF item(1) n] by (simp add: m2_def)
  qed
  then have "flist m2 (mp_free_list s) ps" using flist_frame [of ps m2 "mp_mem s"] ps(1) by blast
  moreover have "mp_free_list s < 2 ^ 64" using flist_head [OF ps(1)] item(2) sub by blast
  ultimately have "flist m2 (load_ptr m2 (base + (n - 1) * ?item)) ps" by (simp add: m2_def load_store_same)
  then have "flist m2 (base + 0 * ?item) (map (\<lambda>i. base + i * ?item) [0..<n] @ ps)"
  proof (intro flist_linked)
    show "load_ptr m2 (base + i * ?item) = base + (i + 1) * ?item" if "0 \<le> i" "i < n - 1" for i
      using linked_chunk [OF item(1) that base(2), of "mp_free_list s" "mp_mem s"] by (simp add: m2_def)
  qed (use n item base in simp_all)
  moreover have "mset (map (\<lambda>i. base + i * ?item) [0..<n] @ ps) + mset used = mset (blocks ?s')"
    using ps(2) by (simp add: bl chunk_blocks_def)
  ultimately have "pool_ok used ?s'"
    using ok ps(3) new bl unfolding pool_ok_def
    by (intro conjI exI [of _ "map (\<lambda>i. base + i * ?item) [0..<n] @ ps"]) (auto simp: chunk_blocks_def)
  then show ?thesis by (simp add: s')
qed

text \<open>\<open>malloc\<close> answers every request of the loop with a fresh chunk.\<close>

fun fresh_batches :: "nat option list \<Rightarrow> nat \<Rightarrow> mem_pool \<Rightarrow> bool" where
  "fresh_batches [] todo s \<longleftrightarrow> todo = 0"
| "fresh_batches (r # rs) todo s \<longleftrightarrow>
     (if todo = 0 then True
      else let batch = min todo (mp_block_size s) in
        case r of None \<Rightarrow> False
        | Some base \<Rightarrow> fresh_chunk base batch s \<and> fresh_batches rs (todo - batch) (add_batch base batch s))"

lemma add_batch_fields [simp]:
  "mp_block_size (add_batch base n s) = mp_block_size s"
  "mp_total_blocks (add_batch base n s) = mp_total_blocks s + n"
  "mp_free_blocks (add_batch base n s) = mp_free_blocks s + n"
  by (simp_all add: add_batch_def Let_def)

lemma pre_allocate_ok:
  "pool_ok used s \<Longrightarrow> 0 < mp_block_size s \<Longrightarrow> fresh_batches rs n s \<Longrightarrow>
   \<exists>s'. mp_pre_allocate rs n s = Done s' \<and> pool_ok used s' \<and>
     mp_total_blocks s' = mp_total_blocks s + n \<and> mp_free_blocks s' = mp_free_blocks s + n"
proof (induction rs n s rule: mp_pre_allocate.induct)
  case (2 r rs todo s)
  show ?case
  proof (cases "todo = 0")
    case False
    let ?b = "min todo (mp_block_size s)"
    from False "2.prems"(3) obtain base where r: "r = Some base" "fresh_chunk base ?b s"
      "fresh_batches rs (todo - ?b) (add_batch base ?b s)" by (auto simp: Let_def split: option.splits)
    have b: "0 < ?b" using False "2.prems"(2) by simp
    have "?b * mp_item_size s < 2 ^ 64" using r(2) by (simp only: fresh_chunk_def) linarith
    then have fits: "\<not> (?b = 0 \<or> 2 ^ 64 \<le> mp_item_size s * ?b)" using b by (simp add: mult.commute)
    have "\<exists>s'. mp_pre_allocate rs (todo - ?b) (add_batch base ?b s) = Done s' \<and> pool_ok used s' \<and>
        mp_total_blocks s' = mp_total_blocks s + ?b + (todo - ?b) \<and>
        mp_free_blocks s' = mp_free_blocks s + ?b + (todo - ?b)"
      using "2.IH" [OF False refl r(1) fits] b add_batch_ok [OF "2.prems"(1) b r(2)] "2.prems"(2) r(3) by simp
    with False b r(1) fits show ?thesis by (simp add: Let_def)
  qed (use "2.prems" in simp)
qed simp

lemma size_class_power:
  assumes "size_class a sz = Some y" "\<exists>k. a = 2 ^ k"
  shows "(\<exists>k. y = 2 ^ k) \<and> \<not> y < sz"
proof -
  have "(\<exists>k. a = 2 ^ k) \<longrightarrow> (\<exists>k. y = 2 ^ k) \<and> \<not> y < sz"
  proof (rule size_class.raw_induct [OF _ assms(1)])
    fix f and a sz y :: u64
    assume IH: "\<And>a sz y. f a sz = Some y \<Longrightarrow> (\<exists>k. a = 2 ^ k) \<longrightarrow> (\<exists>k. y = 2 ^ k) \<and> \<not> y < sz"
      and eq: "(if a < sz then f (a * 2) sz else Some a) = Some y"
    show "(\<exists>k. a = 2 ^ k) \<longrightarrow> (\<exists>k. y = 2 ^ k) \<and> \<not> y < sz"
    proof (cases "a < sz")
      case True
      have "\<exists>k. a * 2 = 2 ^ k" if "\<exists>k. a = 2 ^ k" using that by (metis power_Suc2)
      with True eq IH [of "a * 2" sz y] show ?thesis by auto
    qed (use eq in auto)
  qed
  with assms(2) show ?thesis by blast
qed

lemma power_2_le: "(2 :: u64) ^ k \<le> 2 ^ 63"
proof (cases "k < 64")
  case True
  have pow: "unat (2 ^ i :: u64) = 2 ^ i" if "i < 64" for i
  proof -
    have "(2 :: nat) ^ i < 2 ^ 64" using that by (intro power_strict_increasing) auto
    then have "unat (of_nat (2 ^ i) :: u64) = 2 ^ i" by (subst unat_of_nat) simp
    then show ?thesis by simp
  qed
  have "(2 :: nat) ^ k \<le> 2 ^ 63" using True by (intro power_increasing) auto
  with pow [OF True] pow [of 63] show ?thesis by (simp only: word_le_nat_alt)
next
  case False
  then have zero: "(2 :: u64) ^ k = 0" by (simp add: exp_eq_zero_iff)
  show ?thesis unfolding zero by simp
qed

lemma size_class_step: "a < sz \<Longrightarrow> size_class a sz = size_class (a * 2) sz"
  by (subst size_class.simps) simp

lemma size_class_stop: "\<not> a < sz \<Longrightarrow> size_class a sz = Some a"
  by (subst size_class.simps) simp

lemma size_class_finds:
  assumes "sz \<le> 2 ^ 63" "k \<le> 63"
  shows "\<exists>j. k \<le> j \<and> j \<le> 63 \<and> size_class (2 ^ k) sz = Some (2 ^ j) \<and> sz \<le> 2 ^ j \<and> (j = k \<or> 2 ^ (j - 1) < sz)"
  using assms(2)
proof (induction "63 - k" arbitrary: k)
  case 0
  then have "k = 63" by simp
  with assms(1) show ?case by (intro exI [of _ 63]) (simp add: size_class_stop)
next
  case (Suc d)
  show ?case
  proof (cases "(2 :: u64) ^ k < sz")
    case True
    have "\<exists>j. Suc k \<le> j \<and> j \<le> 63 \<and> size_class (2 ^ Suc k) sz = Some (2 ^ j) \<and> sz \<le> 2 ^ j \<and>
        (j = Suc k \<or> 2 ^ (j - 1) < sz)" using Suc by (intro Suc.hyps(1)) auto
    then obtain j where "Suc k \<le> j" "j \<le> 63" "size_class (2 ^ Suc k) sz = Some (2 ^ j)" "sz \<le> 2 ^ j"
      "j = Suc k \<or> 2 ^ (j - 1) < sz" by blast
    with True show ?thesis by (intro exI [of _ j]) (auto simp: size_class_step mult.commute)
  next
    case False
    with Suc.prems show ?thesis by (intro exI [of _ k]) (auto simp: size_class_stop)
  qed
qed

section \<open>Properties\<close>

text \<open>
  C26: A pool that grows by at least two blocks is a correct allocator: as long as \<open>malloc\<close>
  supplies fresh memory when the free list is empty, \<open>allocate\<close> returns a block that is
  not in use and all of whose bytes are zero, without touching a byte of the blocks in use. Every block in use can then be
  returned, which touches no byte of the others, and the pool again accounts
  for every block exactly once.
\<close>

theorem memory_pool_allocates_fresh:
  assumes "pool_ok used s" "malloc_ready r s"
  shows "\<exists>p s'. mp_allocate r s = Done (p, s') \<and> p \<in> set (blocks s') \<and> p \<notin> set used \<and>
    cleared p s' \<and> kept used s s' \<and> pool_ok (p # used) s' \<and>
    (\<forall>q\<in>set (p # used). \<exists>s''. mp_deallocate q s' = Done s'' \<and> pool_ok (remove1 q (p # used)) s'' \<and>
      kept (remove1 q (p # used)) s' s'')"
  using mp_allocate_fresh [OF assms] deallocate_ok by metis

definition empty_pool :: "nat \<Rightarrow> mem_pool" where
  "empty_pool n = \<lparr>mp_item_size = 8, mp_block_size = n, mp_free_list = 0, mp_total_blocks = 0,
     mp_free_blocks = 0, mp_chunks = [], mp_mem = (\<lambda>_. 0)\<rparr>"

lemma empty_pool_ok: "pool_ok [] (empty_pool n)"
  by (auto simp: pool_ok_def empty_pool_def blocks_def apart_def intro!: exI [of _ "[]"])

theorem memory_pool_allocates_fresh_witness:
  "\<exists>p s'. mp_allocate (Some 4096) (empty_pool 32) = Done (p, s') \<and> pool_ok [p] s' \<and> cleared p s'"
  using memory_pool_allocates_fresh [OF empty_pool_ok, of "Some 4096" 32]
  by (force simp: malloc_ready_def fresh_chunk_def empty_pool_def blocks_def)

text \<open>
  \<open>pre_allocate\<close> adds exactly the requested number of free blocks, in batches of at most
  \<open>block_size_\<close>, and keeps the pool consistent.
\<close>

theorem pre_allocate_adds_exactly:
  assumes "pool_ok used s" "0 < mp_block_size s" "fresh_batches rs n s"
  shows "\<exists>s'. mp_pre_allocate rs n s = Done s' \<and> pool_ok used s' \<and>
    mp_total_blocks s' = mp_total_blocks s + n \<and> mp_free_blocks s' = mp_free_blocks s + n \<and>
    mp_used_blocks s' = mp_used_blocks s"
  using pre_allocate_ok [OF assms] by (auto simp: mp_used_blocks_def)

theorem pre_allocate_adds_exactly_witness:
  "\<exists>s'. mp_pre_allocate [Some 4096, Some 8192] 3 (empty_pool 2) = Done s' \<and> mp_total_blocks s' = 3"
  using pre_allocate_adds_exactly [OF empty_pool_ok, of 2 "[Some 4096, Some 8192]" 3]
  by (auto simp: fresh_chunk_def empty_pool_def blocks_def add_batch_def chunk_blocks_def Let_def)

text \<open>
  A pool that grows by one block is broken: its first \<open>allocate\<close> leaves the free list
  pointing just past the chunk, and the second follows that pointer outside the pool's memory.
\<close>

theorem single_block_growth_out_of_bounds:
  assumes "0 < base"
  shows "\<exists>s. mp_allocate (Some base) (empty_pool 1) = Done (base, s) \<and>
    mp_free_list s = base + 8 \<and> mp_allocate r s = Out_Of_Bounds"
  using assms by (simp add: mp_allocate_def empty_pool_def blocks_def chunk_blocks_def Let_def)

theorem single_block_growth_out_of_bounds_witness:
  "\<exists>s. mp_allocate (Some 4096) (empty_pool 1) = Done (4096, s) \<and> mp_allocate (Some 8192) s = Out_Of_Bounds"
  using single_block_growth_out_of_bounds [of 4096 "Some 8192"] by auto

text \<open>
  C40: The size class of \<open>get_pool\<close> is the smallest power of two that is at least 64 and at least
  the size asked for, for sizes up to \<open>2 ^ 63\<close>; for larger sizes the doubling wraps to 0 and
  the search never ends.
\<close>

theorem size_class_smallest_power:
  "if sz \<le> 2 ^ 63
   then \<exists>k. 6 \<le> k \<and> k \<le> 63 \<and> size_class 64 sz = Some (2 ^ k) \<and> sz \<le> 2 ^ k \<and> (k = 6 \<or> 2 ^ (k - 1) < sz)
   else size_class 64 sz = None"
proof (cases "sz \<le> 2 ^ 63")
  case True
  have "(6 :: nat) \<le> 63" and p: "(2 :: u64) ^ 6 = 64" by simp_all
  from size_class_finds [OF True this(1), unfolded p] show ?thesis unfolding if_P [OF True] by blast
next
  case False
  have "size_class 64 sz \<noteq> Some y" for y
  proof
    assume "size_class 64 sz = Some y"
    moreover have "\<exists>k. (64 :: u64) = 2 ^ k" by (intro exI [of _ 6]) simp
    ultimately obtain k where "y = 2 ^ k" "\<not> y < sz" using size_class_power [of 64 sz y] by blast
    then have "sz \<le> 2 ^ k" by (simp only: not_less)
    from order_trans [OF this power_2_le] False show False by blast
  qed
  then have "size_class 64 sz = None" by (cases "size_class 64 sz") auto
  then show ?thesis unfolding if_not_P [OF False] .
qed

end
