(* ===== verification/Object_Pool.thy ===== *)
theory Object_Pool
  imports Memory_Pool
begin

text \<open>
  The template \<open>ObjectPool\<close> (\<open>src/base/object_pool/object_pool.h\<close>). A slot is named by its
  chunk and its index there; \<open>op_next\<close> is the store of the \<open>next\<close> fields. Using a slot of a
  chunk that the pool does not own any more is \<open>Out_Of_Bounds\<close>. What the memory allocator
  returns, and whether the constructor and the callbacks throw, are arguments. The pool is a
  second instance of the locale \<open>allocator\<close>.
\<close>

section \<open>State and operations\<close>

type_synonym slot = "nat \<times> nat"

definition CHUNK_SIZE :: nat where
  "CHUNK_SIZE = 64"

record object_pool =
  op_free_list :: "slot option"
  op_free_list_size :: u64
  op_allocated :: u64
  op_total_created :: u64
  op_chunks :: "nat list"
  op_next :: "slot \<Rightarrow> slot option"

definition ObjectPool_init :: object_pool where
  "ObjectPool_init = \<lparr>op_free_list = None, op_free_list_size = 0, op_allocated = 0,
     op_total_created = 0, op_chunks = [], op_next = (\<lambda>_. None)\<rparr>"

definition valid_slot :: "object_pool \<Rightarrow> slot \<Rightarrow> bool" where
  "valid_slot s p \<longleftrightarrow> fst p \<in> set (op_chunks s) \<and> snd p < CHUNK_SIZE"

definition pop_free :: "object_pool \<Rightarrow> (slot option \<times> object_pool) access" where
  "pop_free s =
     (case op_free_list s of
        None \<Rightarrow> Done (None, s)
      | Some p \<Rightarrow>
          if valid_slot s p
          then Done (Some p, s\<lparr>op_free_list := op_next s p, op_free_list_size := op_free_list_size s - 1\<rparr>)
          else Out_Of_Bounds)"

definition push_free :: "slot \<Rightarrow> object_pool \<Rightarrow> object_pool access" where
  "push_free p s =
     (if valid_slot s p
      then Done (s\<lparr>op_next := (op_next s)(p := op_free_list s), op_free_list := Some p,
                   op_free_list_size := op_free_list_size s + 1\<rparr>)
      else Out_Of_Bounds)"

text \<open>The loop that links the slots of a new chunk, and the new chunk in front of the free list.\<close>

fun link_slots :: "nat \<Rightarrow> nat list \<Rightarrow> (slot \<Rightarrow> slot option) \<Rightarrow> slot \<Rightarrow> slot option" where
  "link_slots c [] nxt = nxt"
| "link_slots c (i # is) nxt = link_slots c is (nxt((c, i - 1) := Some (c, i)))"

definition add_chunk :: "nat \<Rightarrow> object_pool \<Rightarrow> object_pool" where
  "add_chunk c s =
     s\<lparr>op_next := (link_slots c [1..<CHUNK_SIZE] (op_next s))((c, CHUNK_SIZE - 1) := op_free_list s),
       op_free_list := Some (c, 0),
       op_free_list_size := op_free_list_size s + of_nat CHUNK_SIZE,
       op_chunks := op_chunks s @ [c]\<rparr>"

datatype obj_result = Obj slot | Null | Bad_Alloc | On_Create_Threw

text \<open>
  From taking the slot to the end of \<open>allocate\<close>: counting, placement new, and the creation
  callback, whose exceptions leave \<open>allocate\<close>.
\<close>

definition construct :: "bool \<Rightarrow> bool \<Rightarrow> slot \<Rightarrow> object_pool \<Rightarrow> (obj_result \<times> object_pool) access" where
  "construct ctor_ok create_ok p s =
     (let s1 = s\<lparr>op_allocated := op_allocated s + 1, op_total_created := op_total_created s + 1\<rparr>
      in if \<not> ctor_ok
         then (case push_free p s1 of
                 Out_Of_Bounds \<Rightarrow> Out_Of_Bounds
               | Done s2 \<Rightarrow> Done (Null, s2\<lparr>op_allocated := op_allocated s2 - 1\<rparr>))
         else if \<not> create_ok then Done (On_Create_Threw, s1)
         else Done (Obj p, s1))"

definition obj_allocate :: "nat option \<Rightarrow> bool \<Rightarrow> bool \<Rightarrow> object_pool \<Rightarrow> (obj_result \<times> object_pool) access" where
  "obj_allocate new_chunk ctor_ok create_ok s =
     (case pop_free s of
        Out_Of_Bounds \<Rightarrow> Out_Of_Bounds
      | Done (Some p, s1) \<Rightarrow> construct ctor_ok create_ok p s1
      | Done (None, s1) \<Rightarrow>
          (case new_chunk of
             None \<Rightarrow> Done (Bad_Alloc, s1)
           | Some c \<Rightarrow>
               (case pop_free (add_chunk c s1) of
                  Out_Of_Bounds \<Rightarrow> Out_Of_Bounds
                | Done (None, s2) \<Rightarrow> Done (Null, s2)
                | Done (Some p, s2) \<Rightarrow> construct ctor_ok create_ok p s2)))"

text \<open>
  \<open>deallocate\<close>; the argument \<open>None\<close> is the null pointer. An exception of the destruction
  callback leaves the function before the object is returned.
\<close>

definition obj_deallocate :: "bool \<Rightarrow> slot option \<Rightarrow> object_pool \<Rightarrow> object_pool access" where
  "obj_deallocate destroy_ok ptr s =
     (case ptr of
        None \<Rightarrow> Done s
      | Some p \<Rightarrow>
          if \<not> destroy_ok then Done s
          else (case push_free p s of
                  Out_Of_Bounds \<Rightarrow> Out_Of_Bounds
                | Done s1 \<Rightarrow> Done (s1\<lparr>op_allocated := op_allocated s1 - 1\<rparr>)))"

fun deallocate_range :: "slot option list \<Rightarrow> object_pool \<Rightarrow> object_pool access" where
  "deallocate_range [] s = Done s"
| "deallocate_range (p # ps) s =
     (case obj_deallocate True p s of Out_Of_Bounds \<Rightarrow> Out_Of_Bounds | Done s1 \<Rightarrow> deallocate_range ps s1)"

text \<open>
  The loop of \<open>pre_allocate\<close>; \<open>env\<close> gives, for each turn, the new chunk if one is needed and
  whether the constructor succeeds. The callbacks do not throw.
\<close>

fun obj_pre_allocate :: "(nat option \<times> bool) list \<Rightarrow> object_pool \<Rightarrow> object_pool access" where
  "obj_pre_allocate [] s = Done s"
| "obj_pre_allocate ((c, ctor_ok) # env) s =
     (case obj_allocate c ctor_ok True s of
        Out_Of_Bounds \<Rightarrow> Out_Of_Bounds
      | Done (Obj p, s1) \<Rightarrow>
          (case obj_deallocate True (Some p) s1 of
             Out_Of_Bounds \<Rightarrow> Out_Of_Bounds
           | Done s2 \<Rightarrow> obj_pre_allocate env s2)
      | Done (_, s1) \<Rightarrow> Done s1)"

definition ObjectPool_new :: "(nat option \<times> bool) list \<Rightarrow> object_pool access" where
  "ObjectPool_new env = obj_pre_allocate env ObjectPool_init"

definition obj_clear :: "object_pool \<Rightarrow> object_pool" where
  "obj_clear s = s\<lparr>op_free_list := None, op_free_list_size := 0, op_chunks := []\<rparr>"

text \<open>
  \<open>make_pooled\<close>: a unique pointer whose deleter returns the object to the pool. The arguments for the
  constructor are ignored. \<open>Threw\<close> is an exception that leaves \<open>allocate\<close>.
\<close>

datatype pooled = Handle "slot option" | Threw

definition make_pooled :: "nat option \<Rightarrow> bool \<Rightarrow> bool \<Rightarrow> object_pool \<Rightarrow> (pooled \<times> object_pool) access" where
  "make_pooled new_chunk ctor_ok create_ok s =
     (case obj_allocate new_chunk ctor_ok create_ok s of
        Out_Of_Bounds \<Rightarrow> Out_Of_Bounds
      | Done (r, s1) \<Rightarrow>
          Done (case r of Obj p \<Rightarrow> Handle (Some p) | Null \<Rightarrow> Handle None | _ \<Rightarrow> Threw, s1))"

definition pooled_delete :: "slot option \<Rightarrow> object_pool \<Rightarrow> object_pool access" where
  "pooled_delete h s = (if h = None then Done s else obj_deallocate True h s)"

section \<open>Invariant\<close>

text \<open>
  The free slots, followed from \<open>free_list_\<close>, and the slots in use are together exactly the
  slots of the chunks; the counters count them.
\<close>

fun chain :: "(slot \<Rightarrow> slot option) \<Rightarrow> slot option \<Rightarrow> slot list \<Rightarrow> bool" where
  "chain nxt h [] \<longleftrightarrow> h = None"
| "chain nxt h (p # ps) \<longleftrightarrow> h = Some p \<and> chain nxt (nxt p) ps"

definition chunk_slots :: "nat \<Rightarrow> slot list" where
  "chunk_slots c = map (Pair c) [0..<CHUNK_SIZE]"

definition slots :: "object_pool \<Rightarrow> slot list" where
  "slots s = concat (map chunk_slots (op_chunks s))"

definition free_ok :: "slot list \<Rightarrow> object_pool \<Rightarrow> bool" where
  "free_ok used s \<longleftrightarrow> distinct (op_chunks s) \<and>
     (\<exists>ps. chain (op_next s) (op_free_list s) ps \<and> mset ps + mset used = mset (slots s) \<and>
           op_free_list_size s = of_nat (length ps))"

definition obj_ok :: "slot list \<Rightarrow> object_pool \<Rightarrow> bool" where
  "obj_ok used s \<longleftrightarrow> free_ok used s \<and> op_allocated s = of_nat (length used)"

lemma set_slots: "set (slots s) = {p. valid_slot s p}"
  by (auto simp: slots_def chunk_slots_def valid_slot_def)

lemma distinct_slots: "distinct (op_chunks s) \<Longrightarrow> distinct (slots s)"
proof -
  have "distinct cs \<Longrightarrow> distinct (concat (map chunk_slots cs))" for cs
    by (induction cs) (auto simp: chunk_slots_def distinct_map inj_on_def)
  then show "distinct (op_chunks s) \<Longrightarrow> distinct (slots s)" by (simp add: slots_def)
qed

lemma chain_frame: "\<forall>p\<in>set ps. n1 p = n2 p \<Longrightarrow> chain n1 h ps = chain n2 h ps"
  by (induction ps arbitrary: h) auto

lemma link_slots_other: "p \<notin> (\<lambda>i. (c, i - 1)) ` set is \<Longrightarrow> link_slots c is nxt p = nxt p"
  by (induction "is" arbitrary: nxt) auto

lemma link_slots_at:
  "i \<in> set is \<Longrightarrow> \<forall>j\<in>set is. 0 < j \<Longrightarrow> distinct is \<Longrightarrow> link_slots c is nxt (c, i - 1) = Some (c, i)"
proof (induction "is" arbitrary: nxt)
  case (Cons j js)
  show ?case
  proof (cases "i = j")
    case True
    have "(c, i - 1) \<notin> (\<lambda>i. (c, i - 1)) ` set js" using Cons.prems True by (auto simp: image_iff) (metis Suc_pred)
    then show ?thesis using True by (simp add: link_slots_other)
  qed (use Cons in auto)
qed simp

lemma chain_linked:
  assumes "\<And>i. 0 < i \<Longrightarrow> i < n \<Longrightarrow> nxt (c, i - 1) = Some (c, i)" "nxt (c, n - 1) = h" "chain nxt h ps" "k < n"
  shows "chain nxt (Some (c, k)) (map (Pair c) [k..<n] @ ps)"
  using assms(4)
proof (induction "n - k" arbitrary: k)
  case (Suc d)
  show ?case
  proof (cases "Suc k = n")
    case True
    then have "[k..<n] = [k]" by auto
    then show ?thesis using assms(2,3) True by auto
  next
    case False
    then have "chain nxt (Some (c, Suc k)) (map (Pair c) [Suc k..<n] @ ps)" using Suc by (intro Suc.hyps(1)) auto
    moreover have "nxt (c, k) = Some (c, Suc k)" using assms(1) [of "Suc k"] False Suc.prems by simp
    ultimately show ?thesis using Suc.prems by (simp add: upt_conv_Cons)
  qed
qed simp

lemma free_ok_update [simp]:
  "free_ok used (s\<lparr>op_allocated := a\<rparr>) = free_ok used s"
  "free_ok used (s\<lparr>op_total_created := b\<rparr>) = free_ok used s"
  by (simp_all add: free_ok_def slots_def)

lemma free_ok_used:
  assumes "free_ok used s"
  shows "distinct used" "p \<in> set used \<Longrightarrow> valid_slot s p"
proof -
  from assms obtain ps where "mset ps + mset used = mset (slots s)" "distinct (op_chunks s)" by (auto simp: free_ok_def)
  then have "mset (ps @ used) = mset (slots s)" "distinct (slots s)" by (simp_all add: distinct_slots)
  then have "distinct (ps @ used)" "set (ps @ used) = set (slots s)" by (metis mset_eq_imp_distinct_iff, metis mset_eq_setD)
  then show "distinct used" "p \<in> set used \<Longrightarrow> valid_slot s p" using set_slots by auto
qed

lemma add_chunk_ok:
  assumes ok: "free_ok used s" and c: "c \<notin> set (op_chunks s)"
  shows "free_ok used (add_chunk c s)"
proof -
  obtain ps where ps: "chain (op_next s) (op_free_list s) ps" "mset ps + mset used = mset (slots s)"
    "op_free_list_size s = of_nat (length ps)" using ok by (auto simp: free_ok_def)
  let ?n = "(link_slots c [1..<CHUNK_SIZE] (op_next s))((c, CHUNK_SIZE - 1) := op_free_list s)"
  have "set ps \<subseteq> set (slots s)" using ps(2) by (metis mset_subset_eq_add_left set_mset_mono set_mset_mset)
  then have ne: "fst p \<noteq> c" if "p \<in> set ps" for p using that c set_slots by (fastforce simp: valid_slot_def)
  have "?n p = op_next s p" if "p \<in> set ps" for p
    using ne [OF that] by (cases p) (auto simp: link_slots_other image_iff)
  then have "chain ?n (op_free_list s) ps" using ps(1) chain_frame [of ps ?n "op_next s"] by blast
  moreover have "?n (c, i - 1) = Some (c, i)" if "0 < i" "i < CHUNK_SIZE" for i
    using that link_slots_at [of i "[1..<CHUNK_SIZE]" c "op_next s"] by auto
  ultimately have "chain ?n (Some (c, 0)) (map (Pair c) [0..<CHUNK_SIZE] @ ps)"
    by (intro chain_linked [where h = "op_free_list s"]) (auto simp: CHUNK_SIZE_def)
  moreover have "mset (map (Pair c) [0..<CHUNK_SIZE] @ ps) + mset used = mset (slots (add_chunk c s))"
    using ps(2) by (simp add: add_chunk_def slots_def chunk_slots_def)
  ultimately show ?thesis
    using ok c ps(3) unfolding free_ok_def
    by (intro conjI exI [of _ "map (Pair c) [0..<CHUNK_SIZE] @ ps"]) (simp_all add: add_chunk_def)
qed

lemma pop_free_ok:
  assumes ok: "free_ok used s" and h: "op_free_list s = Some p"
  shows "\<exists>s'. pop_free s = Done (Some p, s') \<and> valid_slot s' p \<and> p \<notin> set used \<and> free_ok (p # used) s' \<and>
    op_allocated s' = op_allocated s \<and> op_total_created s' = op_total_created s \<and> op_chunks s' = op_chunks s"
proof -
  obtain ps where ps: "chain (op_next s) (op_next s p) ps" "mset (p # ps) + mset used = mset (slots s)"
    "op_free_list_size s = of_nat (length (p # ps))"
    using ok h unfolding free_ok_def by (metis chain.elims(2) option.distinct(1) option.inject)
  let ?s = "s\<lparr>op_free_list := op_next s p, op_free_list_size := op_free_list_size s - 1\<rparr>"
  have ok': "free_ok (p # used) ?s" using ok ps by (auto simp: free_ok_def slots_def)
  then have "valid_slot ?s p" "p \<notin> set used" using free_ok_used [OF ok'] by simp_all
  moreover from this have "pop_free s = Done (Some p, ?s)" using h by (simp add: pop_free_def valid_slot_def)
  ultimately show ?thesis using ok' by simp
qed

lemma push_free_ok:
  assumes ok: "free_ok used s" and p: "p \<in> set used"
  shows "\<exists>s'. push_free p s = Done s' \<and> free_ok (remove1 p used) s' \<and> op_allocated s' = op_allocated s \<and>
    op_total_created s' = op_total_created s \<and> op_chunks s' = op_chunks s"
proof -
  obtain ps where ps: "chain (op_next s) (op_free_list s) ps" "mset ps + mset used = mset (slots s)"
    "op_free_list_size s = of_nat (length ps)" using ok by (auto simp: free_ok_def)
  have "distinct (slots s)" using ok by (simp add: free_ok_def distinct_slots)
  moreover have "mset (ps @ used) = mset (slots s)" using ps(2) by simp
  ultimately have "distinct (ps @ used)" by (metis mset_eq_imp_distinct_iff)
  with p have "p \<notin> set ps" by auto
  let ?s = "s\<lparr>op_next := (op_next s)(p := op_free_list s), op_free_list := Some p, op_free_list_size := op_free_list_size s + 1\<rparr>"
  have "chain (op_next ?s) (op_free_list ?s) (p # ps)"
    using ps(1) \<open>p \<notin> set ps\<close> chain_frame [of ps "op_next ?s" "op_next s"] by auto
  moreover have "mset (p # ps) + mset (remove1 p used) = mset ps + mset used" using p by simp
  then have "mset (p # ps) + mset (remove1 p used) = mset (slots ?s)" unfolding ps(2) by (simp add: slots_def)
  ultimately have "free_ok (remove1 p used) ?s"
    using ok ps(3) unfolding free_ok_def by (intro conjI exI [of _ "p # ps"]) simp_all
  then show ?thesis using free_ok_used(2) [OF ok p] by (simp add: push_free_def)
qed

definition obj_outcome :: "bool \<Rightarrow> bool \<Rightarrow> slot \<Rightarrow> obj_result" where
  "obj_outcome ctor_ok create_ok p = (if ctor_ok then if create_ok then Obj p else On_Create_Threw else Null)"

lemma construct_ok:
  assumes "free_ok (p # used) s" "op_allocated s = of_nat (length used)" "p \<notin> set used"
  shows "\<exists>s'. construct ctor_ok create_ok p s =
      Done (obj_outcome ctor_ok create_ok p, s') \<and>
    obj_ok (if ctor_ok then p # used else used) s' \<and> op_total_created s' = op_total_created s + 1 \<and>
    op_chunks s' = op_chunks s"
proof (cases ctor_ok)
  case False
  let ?s = "s\<lparr>op_allocated := op_allocated s + 1, op_total_created := op_total_created s + 1\<rparr>"
  have "free_ok (p # used) ?s" using assms(1) by simp
  from push_free_ok [OF this, of p] obtain s' where "push_free p ?s = Done s'" "free_ok used s'"
    "op_allocated s' = op_allocated ?s" "op_total_created s' = op_total_created ?s" "op_chunks s' = op_chunks ?s" by auto
  then show ?thesis using False assms(2) by (simp add: construct_def Let_def obj_ok_def obj_outcome_def)
qed (use assms in \<open>simp add: construct_def Let_def obj_ok_def obj_outcome_def\<close>)

definition obj_ready :: "nat option \<Rightarrow> object_pool \<Rightarrow> bool" where
  "obj_ready c s \<longleftrightarrow> op_free_list s \<noteq> None \<or> (\<exists>k. c = Some k \<and> k \<notin> set (op_chunks s))"

text \<open>The slot that \<open>allocate\<close> takes: the head of the free list, or the first of the new chunk.\<close>

lemma obj_allocate_ok:
  assumes ok: "obj_ok used s" and ready: "obj_ready c s"
  shows "\<exists>p s'. obj_allocate c ctor_ok create_ok s =
      Done (obj_outcome ctor_ok create_ok p, s') \<and>
    p \<notin> set used \<and> valid_slot s' p \<and> obj_ok (if ctor_ok then p # used else used) s' \<and>
    op_total_created s' = op_total_created s + 1 \<and>
    op_chunks s' = (if op_free_list s = None then op_chunks s @ [the c] else op_chunks s)"
proof (cases "op_free_list s")
  case (Some p)
  from ok have f: "free_ok used s" by (simp add: obj_ok_def)
  from pop_free_ok [OF f Some] obtain s1 where s1: "pop_free s = Done (Some p, s1)" "valid_slot s1 p" "p \<notin> set used"
    "free_ok (p # used) s1" "op_allocated s1 = op_allocated s" "op_total_created s1 = op_total_created s"
    "op_chunks s1 = op_chunks s" by blast
  have "op_allocated s1 = of_nat (length used)" using ok s1(5) by (simp add: obj_ok_def)
  from construct_ok [OF s1(4) this s1(3), of ctor_ok create_ok] obtain s2 where
    "construct ctor_ok create_ok p s1 = Done (obj_outcome ctor_ok create_ok p, s2)"
    "obj_ok (if ctor_ok then p # used else used) s2" "op_total_created s2 = op_total_created s1 + 1"
    "op_chunks s2 = op_chunks s1" by blast
  with s1 Some show ?thesis
    by (intro exI [of _ p] exI [of _ s2]) (simp add: obj_allocate_def valid_slot_def)
next
  case None
  with ready obtain k where k: "c = Some k" "k \<notin> set (op_chunks s)" by (auto simp: obj_ready_def)
  from ok k(2) have f: "free_ok used (add_chunk k s)" by (simp add: obj_ok_def add_chunk_ok)
  have "op_free_list (add_chunk k s) = Some (k, 0)" by (simp add: add_chunk_def)
  from pop_free_ok [OF f this] obtain s1 where s1: "pop_free (add_chunk k s) = Done (Some (k, 0), s1)"
    "valid_slot s1 (k, 0)" "(k, 0) \<notin> set used" "free_ok ((k, 0) # used) s1" "op_allocated s1 = op_allocated s"
    "op_total_created s1 = op_total_created s" "op_chunks s1 = op_chunks s @ [k]" by (auto simp: add_chunk_def)
  have "op_allocated s1 = of_nat (length used)" using ok s1(5) by (simp add: obj_ok_def)
  from construct_ok [OF s1(4) this s1(3), of ctor_ok create_ok] obtain s2 where
    "construct ctor_ok create_ok (k, 0) s1 = Done (obj_outcome ctor_ok create_ok (k, 0), s2)"
    "obj_ok (if ctor_ok then (k, 0) # used else used) s2" "op_total_created s2 = op_total_created s1 + 1"
    "op_chunks s2 = op_chunks s1" by blast
  moreover have "pop_free s = Done (None, s)" using None by (simp add: pop_free_def)
  ultimately show ?thesis using s1 None k(1)
    by (intro exI [of _ "(k, 0)"] exI [of _ s2]) (simp add: obj_allocate_def valid_slot_def)
qed

lemma obj_deallocate_ok:
  assumes "obj_ok used s" "p \<in> set used"
  shows "\<exists>s'. obj_deallocate True (Some p) s = Done s' \<and> obj_ok (remove1 p used) s' \<and>
    op_total_created s' = op_total_created s \<and> op_chunks s' = op_chunks s"
proof -
  from assms(1) have "free_ok used s" by (simp add: obj_ok_def)
  from push_free_ok [OF this assms(2)] obtain s' where s': "push_free p s = Done s'" "free_ok (remove1 p used) s'"
    "op_allocated s' = op_allocated s" "op_total_created s' = op_total_created s" "op_chunks s' = op_chunks s" by blast
  have "1 \<le> length used" using assms(2) by (cases used) auto
  then have "(of_nat (length used) :: u64) - 1 = of_nat (length used - 1)" by (simp only: of_nat_diff of_nat_1)
  then show ?thesis using s' assms by (simp add: obj_deallocate_def obj_ok_def length_remove1)
qed

definition obj_take :: "nat option \<Rightarrow> object_pool \<Rightarrow> (slot \<times> object_pool) access" where
  "obj_take c s = (case obj_allocate c True True s of Done (Obj p, s') \<Rightarrow> Done (p, s') | _ \<Rightarrow> Out_Of_Bounds)"

interpretation op: allocator obj_take "obj_deallocate True \<circ> Some" obj_ok obj_ready
proof unfold_locales
  show "\<exists>p s'. obj_take r s = Done (p, s') \<and> p \<notin> set used \<and> obj_ok (p # used) s'"
    if "obj_ok used s" "obj_ready r s" for used s r
    using obj_allocate_ok [OF that, of True True] by (auto simp: obj_take_def obj_outcome_def)
  show "\<exists>s'. (obj_deallocate True \<circ> Some) p s = Done s' \<and> obj_ok (remove1 p used) s'"
    if "obj_ok used s" "p \<in> set used" for used s p
    using obj_deallocate_ok [OF that] by auto
qed

lemma obj_ok_all_free:
  assumes "obj_ok [] s"
  shows "op_free_list_size s = of_nat (CHUNK_SIZE * length (op_chunks s))"
    and "op_free_list s = None \<longleftrightarrow> op_chunks s = []"
proof -
  from assms obtain ps where ps: "chain (op_next s) (op_free_list s) ps" "mset ps = mset (slots s)"
    "op_free_list_size s = of_nat (length ps)" by (auto simp: obj_ok_def free_ok_def)
  have "length (concat (map chunk_slots cs)) = CHUNK_SIZE * length cs" for cs
    by (induction cs) (simp_all add: chunk_slots_def)
  then have n: "length ps = CHUNK_SIZE * length (op_chunks s)"
    using mset_eq_length [OF ps(2)] by (simp add: slots_def)
  then show "op_free_list_size s = of_nat (CHUNK_SIZE * length (op_chunks s))" using ps(3) by simp
  have "op_free_list s = None \<longleftrightarrow> ps = []" using ps(1) by (cases ps) auto
  with n show "op_free_list s = None \<longleftrightarrow> op_chunks s = []"
    by (metis CHUNK_SIZE_def length_0_conv mult_is_0 zero_neq_numeral)
qed

lemma obj_pre_allocate_turn:
  assumes "obj_ok [] s" "obj_ready c s"
  shows "\<exists>s'. obj_pre_allocate ((c, True) # env) s = obj_pre_allocate env s' \<and> obj_ok [] s' \<and>
    op_total_created s' = op_total_created s + 1 \<and>
    op_chunks s' = (if op_free_list s = None then op_chunks s @ [the c] else op_chunks s)"
proof -
  from obj_allocate_ok [OF assms, of True True] obtain p s1 where s1: "obj_allocate c True True s = Done (Obj p, s1)"
    "obj_ok [p] s1" "op_total_created s1 = op_total_created s + 1"
    "op_chunks s1 = (if op_free_list s = None then op_chunks s @ [the c] else op_chunks s)"
    by (auto simp: obj_outcome_def)
  from obj_deallocate_ok [OF s1(2), of p] obtain s2 where "obj_deallocate True (Some p) s1 = Done s2" "obj_ok [] s2"
    "op_total_created s2 = op_total_created s1" "op_chunks s2 = op_chunks s1" by auto
  with s1 show ?thesis by (intro exI [of _ s2]) simp
qed

lemma obj_pre_allocate_recycles:
  "obj_ok [] s \<Longrightarrow> op_chunks s \<noteq> [] \<Longrightarrow> \<forall>(c, ctor_ok)\<in>set env. ctor_ok \<Longrightarrow>
   \<exists>s'. obj_pre_allocate env s = Done s' \<and> obj_ok [] s' \<and> op_chunks s' = op_chunks s \<and>
     op_total_created s' = op_total_created s + of_nat (length env)"
proof (induction env arbitrary: s)
  case (Cons e env)
  obtain c where e: "e = (c, True)" using Cons.prems(3) by (cases e) auto
  have "op_free_list s \<noteq> None" using Cons.prems(1,2) by (simp add: obj_ok_all_free)
  then obtain s1 where s1: "obj_pre_allocate (e # env) s = obj_pre_allocate env s1" "obj_ok [] s1"
    "op_total_created s1 = op_total_created s + 1" "op_chunks s1 = op_chunks s"
    using obj_pre_allocate_turn [OF Cons.prems(1), of c env] e by (auto simp: obj_ready_def)
  from Cons.IH [OF s1(2)] s1 Cons.prems show ?case by (auto simp: add.commute add.left_commute)
qed simp

section \<open>Properties\<close>

text \<open>
  C27: \<open>allocate\<close> on a consistent pool takes a slot that is not in use, on every outcome: when
  the constructor throws the slot goes back and null is returned, when the creation callback
  throws the slot stays counted as in use although the caller never sees it, and otherwise the
  object is handed out. The pool stays consistent and every slot in use can be returned.
\<close>

theorem object_pool_allocates_fresh:
  assumes "obj_ok used s" "obj_ready c s"
  shows "\<exists>p s'. obj_allocate c ctor_ok create_ok s =
      Done (if ctor_ok then if create_ok then Obj p else On_Create_Threw else Null, s') \<and>
    p \<notin> set used \<and> valid_slot s' p \<and> op_total_created s' = op_total_created s + 1 \<and>
    obj_ok (if ctor_ok then p # used else used) s' \<and>
    (\<forall>q\<in>set (if ctor_ok then p # used else used). \<exists>s''. obj_deallocate True (Some q) s' = Done s'' \<and>
       obj_ok (remove1 q (if ctor_ok then p # used else used)) s'')"
proof -
  from obj_allocate_ok [OF assms, of ctor_ok create_ok] obtain p s' where
    a: "obj_allocate c ctor_ok create_ok s = Done (obj_outcome ctor_ok create_ok p, s')" "p \<notin> set used" "valid_slot s' p"
      "obj_ok (if ctor_ok then p # used else used) s'" "op_total_created s' = op_total_created s + 1" by blast
  show ?thesis
    using a obj_deallocate_ok [OF a(4)] unfolding obj_outcome_def by (intro exI [of _ p] exI [of _ s']) blast
qed

lemma obj_init_ok: "obj_ok [] ObjectPool_init"
  by (simp add: obj_ok_def free_ok_def ObjectPool_init_def slots_def exI [of _ "[]"])

theorem object_pool_allocates_fresh_witness:
  "\<exists>p s'. obj_allocate (Some 1) True True ObjectPool_init = Done (Obj p, s') \<and> obj_ok [p] s'"
  using object_pool_allocates_fresh [OF obj_init_ok, of "Some 1" True True]
  by (auto simp: obj_ready_def ObjectPool_init_def)

text \<open>
  Pre-allocation does not allocate what it is asked for: it returns each object before it
  takes the next, so on an empty pool any count from 1 on creates one chunk of 64 slots, while
  \<open>total_created\<close> reports the count.
\<close>

theorem object_pre_allocate_one_chunk:
  assumes "\<forall>(c, ctor_ok)\<in>set env. ctor_ok"
  shows "\<exists>s. ObjectPool_new ((Some k, True) # env) = Done s \<and> obj_ok [] s \<and> op_chunks s = [k] \<and>
    op_free_list_size s = 64 \<and> op_allocated s = 0 \<and> op_total_created s = of_nat (Suc (length env))"
proof -
  have "obj_ready (Some k) ObjectPool_init" by (simp add: obj_ready_def ObjectPool_init_def)
  from obj_pre_allocate_turn [OF obj_init_ok this, of env] obtain s1 where
    s1: "ObjectPool_new ((Some k, True) # env) = obj_pre_allocate env s1" "obj_ok [] s1" "op_chunks s1 = [k]"
      "op_total_created s1 = 1" by (auto simp: ObjectPool_new_def ObjectPool_init_def)
  from obj_pre_allocate_recycles [OF s1(2) _ assms] s1 obtain s where
    s: "obj_pre_allocate env s1 = Done s" "obj_ok [] s" "op_chunks s = [k]" "op_total_created s = 1 + of_nat (length env)"
    by auto
  have "op_free_list_size s = 64" using obj_ok_all_free(1) [OF s(2)] s(3) by (simp add: CHUNK_SIZE_def)
  moreover have "op_allocated s = 0" using s(2) by (simp add: obj_ok_def)
  ultimately show ?thesis using s s1(1) by simp
qed

theorem object_pre_allocate_one_chunk_witness:
  "\<exists>s. ObjectPool_new ((Some 1, True) # replicate 999 (None, True)) = Done s \<and>
    op_free_list_size s = 64 \<and> op_total_created s = 1000"
  using object_pre_allocate_one_chunk [of "replicate 999 (None, True)" 1] by (auto simp: set_replicate_conv_if)

text \<open>
  Clearing a pool while objects are out makes them dangle: returning one afterwards writes
  into a freed chunk, and \<open>allocated\<close> still counts them.
\<close>

theorem clear_leaves_dangling:
  assumes "obj_ok used s"
  shows "op_allocated (obj_clear s) = of_nat (length used) \<and>
    obj_deallocate True (Some p) (obj_clear s) = Out_Of_Bounds"
  using assms by (simp add: obj_ok_def obj_clear_def obj_deallocate_def push_free_def valid_slot_def)

theorem clear_leaves_dangling_witness:
  "obj_deallocate True (Some (1, 0)) (obj_clear ObjectPool_init) = Out_Of_Bounds"
  using clear_leaves_dangling [OF obj_init_ok] by blast

text \<open>
  A handle made by \<open>make_pooled\<close> gives its object back when it goes out of scope: whatever the constructor does,
  after the scope exactly the objects that were in use before are in use, and the handle was
  null exactly if the constructor threw.
\<close>

theorem pooled_scope_restores:
  assumes "obj_ok used s" "obj_ready c s" "make_pooled c ctor_ok create_ok s = Done (Handle h, s1)"
  shows "\<exists>s2. pooled_delete h s1 = Done s2 \<and> obj_ok used s2 \<and> (h = None \<longleftrightarrow> \<not> ctor_ok)"
proof -
  obtain p s' where a: "obj_allocate c ctor_ok create_ok s = Done (obj_outcome ctor_ok create_ok p, s')"
    "obj_ok (if ctor_ok then p # used else used) s'" using obj_allocate_ok [OF assms(1,2)] by blast
  show ?thesis
  proof (cases ctor_ok)
    case True
    with a assms(3) have h: "h = Some p" "s1 = s'" "obj_ok (p # used) s'"
      by (auto simp: make_pooled_def obj_outcome_def split: if_splits)
    from obj_deallocate_ok [OF h(3), of p] h True show ?thesis by (auto simp: pooled_delete_def)
  next
    case False
    with a assms(3) show ?thesis by (auto simp: make_pooled_def obj_outcome_def pooled_delete_def)
  qed
qed

theorem pooled_scope_restores_witness:
  "\<exists>h s1 s2. make_pooled (Some 3) True True ObjectPool_init = Done (Handle h, s1) \<and> pooled_delete h s1 = Done s2 \<and> obj_ok [] s2"
proof -
  have r: "obj_ready (Some 3) ObjectPool_init" by (simp add: obj_ready_def ObjectPool_init_def)
  obtain p s' where "obj_allocate (Some 3) True True ObjectPool_init = Done (obj_outcome True True p, s')"
    using obj_allocate_ok [OF obj_init_ok r] by blast
  then have m: "make_pooled (Some 3) True True ObjectPool_init = Done (Handle (Some p), s')"
    by (simp add: make_pooled_def obj_outcome_def)
  from pooled_scope_restores [OF obj_init_ok r m] m show ?thesis by blast
qed

end
