(* ===== verification/Decimal.thy ===== *)
theory Decimal
  imports Prelude
begin

text \<open>
  Decimal numbers as the standard library reads and writes them: \<open>std::stoi\<close> and
  \<open>std::stoll\<close> (a throw is \<open>None\<close>), and \<open>operator<<\<close> of an output stream for integers.
\<close>

section \<open>Reading\<close>

text \<open>
  \<open>std::stoll\<close> and \<open>std::stoi\<close>: white space, a sign, the longest run of digits; without a
  digit, or out of range, they throw.
\<close>

definition digit_value :: "char \<Rightarrow> int" where
  "digit_value c = int (of_char c) - 48"

definition is_digit :: "char \<Rightarrow> bool" where
  "is_digit c \<longleftrightarrow> 0 \<le> digit_value c \<and> digit_value c \<le> 9"

definition is_space :: "char \<Rightarrow> bool" where
  "is_space c \<longleftrightarrow> (of_char c :: nat) \<in> {9, 10, 11, 12, 13, 32}"

definition parse_digits :: "string \<Rightarrow> int option" where
  "parse_digits s =
     (case takeWhile is_digit s of
        [] \<Rightarrow> None
      | ds \<Rightarrow> Some (foldl (\<lambda>n c. 10 * n + digit_value c) 0 ds))"

definition parse_signed :: "string \<Rightarrow> int option" where
  "parse_signed s =
     (case dropWhile is_space s of
        [] \<Rightarrow> None
      | c # cs \<Rightarrow> if c = CHR ''-'' then map_option uminus (parse_digits cs)
                  else if c = CHR ''+'' then parse_digits cs
                  else parse_digits (c # cs))"

definition in_range :: "nat \<Rightarrow> int \<Rightarrow> int option" where
  "in_range w n = (if - (2 ^ (w - 1)) \<le> n \<and> n < 2 ^ (w - 1) then Some n else None)"

definition stoi :: "string \<Rightarrow> int option" where
  "stoi s = Option.bind (parse_signed s) (in_range 32)"

text \<open>\<open>atoi\<close> yields 0 for a text without a number; out of range it is undefined (\<open>None\<close>).\<close>

definition atoi :: "string \<Rightarrow> int option" where
  "atoi s = (case parse_signed s of None \<Rightarrow> Some 0 | Some n \<Rightarrow> in_range 32 n)"

definition stoll :: "string \<Rightarrow> int option" where
  "stoll s = Option.bind (parse_signed s) (in_range 64)"

section \<open>Writing\<close>

definition digit_char :: "nat \<Rightarrow> char" where
  "digit_char d = char_of (48 + d)"

fun show_nat :: "nat \<Rightarrow> string" where
  "show_nat n = (if n < 10 then [digit_char n] else show_nat (n div 10) @ [digit_char (n mod 10)])"

declare show_nat.simps [simp del]

definition show_int :: "int \<Rightarrow> string" where
  "show_int n = (if n < 0 then CHR ''-'' # show_nat (nat (- n)) else show_nat (nat n))"

lemma digit_char_value: "d < 10 \<Longrightarrow> is_digit (digit_char d) \<and> digit_value (digit_char d) = int d"
  by (simp add: digit_char_def is_digit_def digit_value_def)

lemma show_nat_digits: "show_nat n \<noteq> [] \<and> (\<forall>c\<in>set (show_nat n). is_digit c)"
proof (induction n rule: show_nat.induct)
  case (1 n)
  then show ?case by (cases "n < 10") (auto simp: show_nat.simps [of n] digit_char_value)
qed

lemma show_nat_value: "foldl (\<lambda>n c. 10 * n + digit_value c) 0 (show_nat n) = int n"
proof (induction n rule: show_nat.induct)
  case (1 n)
  show ?case
  proof (cases "n < 10")
    case True
    then show ?thesis by (simp add: show_nat.simps [of n] digit_char_value)
  next
    case False
    have "int n = 10 * int (n div 10) + int (n mod 10)" by (simp flip: of_nat_mult of_nat_add add: zdiv_int zmod_int)
    with 1 [OF False] False show ?thesis by (simp add: show_nat.simps [of n] digit_char_value)
  qed
qed

lemma is_digit_chars: "is_digit c \<Longrightarrow> \<not> is_space c \<and> c \<noteq> CHR ''-'' \<and> c \<noteq> CHR ''+''"
  by (auto simp: is_digit_def digit_value_def is_space_def)

text \<open>Reading back what was written, before any character that is not a digit.\<close>

lemma parse_digits_show: "s = [] \<or> \<not> is_digit (hd s) \<Longrightarrow> parse_digits (show_nat n @ s) = Some (int n)"
proof -
  assume s: "s = [] \<or> \<not> is_digit (hd s)"
  have "takeWhile is_digit (show_nat n @ s) = show_nat n"
    using s show_nat_digits [of n] by (cases s) (auto simp: takeWhile_append2)
  then show ?thesis using show_nat_digits [of n] show_nat_value [of n]
    by (cases "show_nat n") (simp_all add: parse_digits_def)
qed

lemma parse_signed_show: "s = [] \<or> \<not> is_digit (hd s) \<Longrightarrow> parse_signed (show_int n @ s) = Some n"
proof -
  assume s: "s = [] \<or> \<not> is_digit (hd s)"
  obtain c cs where c: "show_nat (nat n) = c # cs" "is_digit c" using show_nat_digits [of "nat n"] by (cases "show_nat (nat n)") auto
  show ?thesis
  proof (cases "n < 0")
    case True
    then show ?thesis by (simp add: parse_signed_def show_int_def is_space_def parse_digits_show [OF s])
  next
    case False
    then have "show_int n @ s = c # cs @ s" using c(1) by (simp add: show_int_def)
    moreover have "parse_digits (c # cs @ s) = Some n" using parse_digits_show [OF s, of "nat n"] c(1) False by simp
    ultimately show ?thesis using is_digit_chars [OF c(2)] by (simp add: parse_signed_def)
  qed
qed

lemma stoll_show: "- (2 ^ 63) \<le> n \<Longrightarrow> n < 2 ^ 63 \<Longrightarrow> stoll (show_int n) = Some n"
  using parse_signed_show [of "[]" n] by (simp add: stoll_def in_range_def)

lemma show_int_chars: "c \<in> set (show_int n) \<Longrightarrow> is_digit c \<or> c = CHR ''-''"
  using show_nat_digits by (auto simp: show_int_def split: if_splits)

lemma show_int_nonempty: "show_int n \<noteq> []"
  using show_nat_digits by (auto simp: show_int_def)

end
