(* ===== verification/Config.thy ===== *)
theory Config
  imports Tables Decimal
begin

text \<open>
  \<open>src/base/config/config.h\<close> and \<open>config.cpp\<close>: configuration nodes, the INI reader, lookup by
  path, watchers, and the command line parser. Floating-point numbers are a type parameter.
  A conversion that throws (\<open>std::stoi\<close>, \<open>std::stoll\<close>) is \<open>None\<close>. File contents are strings.
\<close>

section \<open>Values and nodes\<close>

datatype 'd config_value =
    V_Null
  | V_Bool bool
  | V_Int int
  | V_Int64 int
  | V_Double 'd
  | V_String string
  | V_Ints "int list"
  | V_Int64s "int list"
  | V_Doubles "'d list"
  | V_Strings "string list"

text \<open>A node holds an optional value and named children (an unordered map).\<close>

datatype 'd config_node =
  Config_Node (node_value: "'d config_value option") (node_children: "(string \<times> 'd config_node) list")

definition node_empty :: "'d config_node" where
  "node_empty = Config_Node None []"

definition node_is_array :: "'d config_node \<Rightarrow> bool" where
  "node_is_array n =
     (case node_value n of
        None \<Rightarrow> False
      | Some v \<Rightarrow> (case v of V_Ints _ \<Rightarrow> True | V_Int64s _ \<Rightarrow> True | V_Doubles _ \<Rightarrow> True
                   | V_Strings _ \<Rightarrow> True | _ \<Rightarrow> False))"

definition value_as_bool :: "'d config_value \<Rightarrow> bool" where
  "value_as_bool v =
     (case v of
        V_Bool b \<Rightarrow> b
      | V_String s \<Rightarrow> s = ''true'' \<or> s = ''1'' \<or> s = ''yes'' \<or> s = ''on''
      | _ \<Rightarrow> False)"

text \<open>\<open>trunc\<close> is the conversion of a floating-point number to an integer type.\<close>

definition value_as_int :: "('d \<Rightarrow> int) \<Rightarrow> 'd config_value \<Rightarrow> int option" where
  "value_as_int trunc v =
     (case v of
        V_Int n \<Rightarrow> Some n
      | V_Int64 n \<Rightarrow> Some (signed_take_bit 31 n)
      | V_Double d \<Rightarrow> Some (trunc d)
      | V_String s \<Rightarrow> stoi s
      | _ \<Rightarrow> Some 0)"

definition value_as_int64 :: "('d \<Rightarrow> int) \<Rightarrow> 'd config_value \<Rightarrow> int option" where
  "value_as_int64 trunc v =
     (case v of
        V_Int64 n \<Rightarrow> Some n
      | V_Int n \<Rightarrow> Some n
      | V_Double d \<Rightarrow> Some (trunc d)
      | V_String s \<Rightarrow> stoll s
      | _ \<Rightarrow> Some 0)"

text \<open>\<open>dbl\<close> and \<open>stod\<close> are the conversions to floating point; \<open>zero\<close> is \<open>0.0\<close>.\<close>

definition value_as_double :: "'d \<Rightarrow> (int \<Rightarrow> 'd) \<Rightarrow> (string \<Rightarrow> 'd option) \<Rightarrow> 'd config_value \<Rightarrow> 'd option" where
  "value_as_double zero dbl stod v =
     (case v of
        V_Double d \<Rightarrow> Some d
      | V_Int n \<Rightarrow> Some (dbl n)
      | V_Int64 n \<Rightarrow> Some (dbl n)
      | V_String s \<Rightarrow> stod s
      | _ \<Rightarrow> Some zero)"

definition value_as_string :: "'d config_value \<Rightarrow> string" where
  "value_as_string v = (case v of V_String s \<Rightarrow> s | _ \<Rightarrow> '''')"

definition value_as_array :: "'d config_value \<Rightarrow> 'd config_value list" where
  "value_as_array v =
     (case v of
        V_Ints ns \<Rightarrow> map V_Int ns
      | V_Int64s ns \<Rightarrow> map V_Int64 ns
      | V_Doubles ds \<Rightarrow> map V_Double ds
      | V_Strings ss \<Rightarrow> map V_String ss
      | _ \<Rightarrow> [])"

definition has_key :: "string \<Rightarrow> 'd config_node \<Rightarrow> bool" where
  "has_key k n \<longleftrightarrow> um_find (node_children n) k \<noteq> None"

definition get_key :: "string \<Rightarrow> 'd config_node \<Rightarrow> 'd config_node option" where
  "get_key k n = um_find (node_children n) k"

definition set_key :: "string \<Rightarrow> 'd config_value \<Rightarrow> 'd config_node \<Rightarrow> 'd config_node" where
  "set_key k v n = Config_Node (node_value n) (um_set k (Config_Node (Some v) []) (node_children n))"

section \<open>Configuration\<close>

record 'd config =
  cf_root :: "'d config_node"
  cf_file_path :: string
  cf_last_content :: string
  cf_watchers :: "nat list"
  cf_watch_paths :: "string list"

definition Config_new :: "'d config" where
  "Config_new = \<lparr>cf_root = node_empty, cf_file_path = [], cf_last_content = [], cf_watchers = [],
     cf_watch_paths = []\<rparr>"

definition config_watch :: "string \<Rightarrow> nat \<Rightarrow> 'd config \<Rightarrow> 'd config" where
  "config_watch path cb c = c\<lparr>cf_watch_paths := cf_watch_paths c @ [path], cf_watchers := cf_watchers c @ [cb]\<rparr>"

definition unwatch_all :: "'d config \<Rightarrow> 'd config" where
  "unwatch_all c = c\<lparr>cf_watchers := [], cf_watch_paths := []\<rparr>"

definition config_clear :: "'d config \<Rightarrow> 'd config" where
  "config_clear c = c\<lparr>cf_root := node_empty, cf_watchers := []\<rparr>"

text \<open>The callbacks that \<open>notify_watchers\<close> calls, each with the path.\<close>

definition notify_watchers :: "string \<Rightarrow> 'd config \<Rightarrow> (nat \<times> string) list" where
  "notify_watchers path c = map (\<lambda>cb. (cb, path)) (cf_watchers c)"

text \<open>\<open>Config::get\<close>: one key per part of the path between dots.\<close>

function config_get_from :: "string \<Rightarrow> 'd config_node \<Rightarrow> 'd config_node option" where
  "config_get_from path cur =
     (if path = [] then Some cur
      else let key = takeWhile (\<lambda>c. c \<noteq> CHR ''.'') path; rest = dropWhile (\<lambda>c. c \<noteq> CHR ''.'') path in
        case get_key key cur of
          None \<Rightarrow> None
        | Some n \<Rightarrow> if rest = [] then Some n else config_get_from (tl rest) n)"
  by pat_completeness auto
termination
proof (relation "measure (length \<circ> fst)")
  fix path :: string and cur n :: "'d config_node" and key rest
  assume "path \<noteq> []" "rest = dropWhile (\<lambda>c. c \<noteq> CHR ''.'') path"
  then show "((tl rest, n), path, cur) \<in> measure (length \<circ> fst)"
    using length_dropWhile_le [of "\<lambda>c. c \<noteq> CHR ''.''" path] by (cases path; cases rest) auto
qed simp

declare config_get_from.simps [simp del]

definition config_get :: "string \<Rightarrow> 'd config \<Rightarrow> 'd config_node option" where
  "config_get path c = config_get_from path (cf_root c)"

section \<open>INI files\<close>

text \<open>\<open>std::getline\<close> until the end of the text.\<close>

function text_lines :: "string \<Rightarrow> string list" where
  "text_lines s =
     (if s = [] then []
      else takeWhile (\<lambda>c. c \<noteq> CHR 0x0A) s # text_lines (tl (dropWhile (\<lambda>c. c \<noteq> CHR 0x0A) s)))"
  by pat_completeness auto
termination
proof (relation "measure length")
  fix s :: string assume "s \<noteq> []"
  then show "(tl (dropWhile (\<lambda>c. c \<noteq> CHR 0x0A) s), s) \<in> measure length"
    using length_dropWhile_le [of "\<lambda>c. c \<noteq> CHR 0x0A" s]
    by (cases s; cases "dropWhile (\<lambda>c. c \<noteq> CHR 0x0A) s") auto
qed simp

declare text_lines.simps [simp del]

definition blank :: "char \<Rightarrow> bool" where
  "blank c \<longleftrightarrow> c = CHR '' '' \<or> c = CHR 0x09"

definition ltrim :: "string \<Rightarrow> string" where
  "ltrim s = dropWhile blank s"

definition rtrim :: "(char \<Rightarrow> bool) \<Rightarrow> string \<Rightarrow> string" where
  "rtrim P s = rev (dropWhile P (rev s))"

text \<open>Comments from \<open>#\<close> or \<open>;\<close> on, then white space and carriage returns, are removed.\<close>

definition ini_clean :: "string \<Rightarrow> string" where
  "ini_clean line =
     (let line = takeWhile (\<lambda>c. c \<noteq> CHR ''#'') line;
          line = takeWhile (\<lambda>c. c \<noteq> CHR '';'') line
      in rtrim (\<lambda>c. blank c \<or> c = CHR 0x0D) (ltrim line))"

definition ini_full_key :: "string \<Rightarrow> string \<Rightarrow> string" where
  "ini_full_key section key = (if section = [] then key else section @ ''.'' @ key)"

definition ini_entry :: "string \<Rightarrow> string \<Rightarrow> 'd config_node \<Rightarrow> 'd config_node" where
  "ini_entry section line root =
     (if CHR ''='' \<in> set line
      then let key = rtrim blank (takeWhile (\<lambda>c. c \<noteq> CHR ''='') line);
               val = rtrim blank (ltrim (tl (dropWhile (\<lambda>c. c \<noteq> CHR ''='') line)))
           in set_key (ini_full_key section key) (V_String val) root
      else root)"

definition ini_line :: "string \<Rightarrow> string \<times> 'd config_node \<Rightarrow> string \<times> 'd config_node" where
  "ini_line raw st =
     (let (section, root) = st; line = ini_clean raw in
      if line = [] then (section, root)
      else if hd line = CHR ''['' \<and> CHR '']'' \<in> set line
      then (takeWhile (\<lambda>c. c \<noteq> CHR '']'') (tl line), root)
      else (section, ini_entry section line root))"

definition parse_ini :: "string \<Rightarrow> 'd config_node \<Rightarrow> 'd config_node" where
  "parse_ini s root = snd (fold ini_line (text_lines s) ([], root))"

text \<open>
  \<open>load_ini\<close> of a file with the given contents (\<open>None\<close>: it cannot be opened). The source
  fills \<open>last_content_\<close> from iterators of two different temporary strings, which C++ leaves
  undefined; the model keeps the contents that are meant. The other results do not read it.
\<close>

definition load_ini :: "string \<Rightarrow> string option \<Rightarrow> 'd config \<Rightarrow> bool \<times> 'd config" where
  "load_ini path content c =
     (case content of
        None \<Rightarrow> (False, c)
      | Some s \<Rightarrow> (True, c\<lparr>cf_file_path := path, cf_last_content := s, cf_root := parse_ini s (cf_root c)\<rparr>))"

section \<open>Command line\<close>

record cmd_arg =
  ca_name :: string
  ca_short :: char
  ca_has_value :: bool
  ca_found :: bool
  ca_value :: string
  ca_description :: string

record cmd_parser =
  cp_args :: "(string, cmd_arg) umap"
  cp_rest :: "string list"

definition CmdLineParser_new :: cmd_parser where
  "CmdLineParser_new = \<lparr>cp_args = [], cp_rest = []\<rparr>"

definition cmd_add :: "string \<Rightarrow> char \<Rightarrow> bool \<Rightarrow> string \<Rightarrow> string \<Rightarrow> cmd_parser \<Rightarrow> cmd_parser" where
  "cmd_add name short has_val desc dflt p =
     p\<lparr>cp_args := um_set name \<lparr>ca_name = name, ca_short = short, ca_has_value = has_val,
        ca_found = False, ca_value = dflt, ca_description = desc\<rparr> (cp_args p)\<rparr>"

text \<open>\<open>std::string::operator[]\<close> at the end of a string is the null character.\<close>

definition char_at :: "string \<Rightarrow> nat \<Rightarrow> char" where
  "char_at s i = (if i < length s then s ! i else CHR 0x00)"

definition cmd_matches :: "string \<Rightarrow> string \<times> cmd_arg \<Rightarrow> bool" where
  "cmd_matches token kv =
     (if char_at token 1 = CHR ''-'' then fst kv = drop 2 token
      else ca_short (snd kv) = char_at (drop 1 token) 0)"

fun cmd_parse :: "string list \<Rightarrow> cmd_parser \<Rightarrow> cmd_parser" where
  "cmd_parse [] p = p"
| "cmd_parse (token # tokens) p =
     (if token = ''--help'' \<or> token = ''-h'' then cmd_parse tokens p
      else if char_at token 0 = CHR ''-'' then
        (case find (cmd_matches token) (cp_args p) of
           None \<Rightarrow> cmd_parse tokens (p\<lparr>cp_rest := cp_rest p @ [token]\<rparr>)
         | Some (k, a) \<Rightarrow>
             if ca_has_value a \<and> tokens \<noteq> []
             then cmd_parse (tl tokens)
                    (p\<lparr>cp_args := um_set k (a\<lparr>ca_found := True, ca_value := hd tokens\<rparr>) (cp_args p)\<rparr>)
             else cmd_parse tokens (p\<lparr>cp_args := um_set k (a\<lparr>ca_found := True\<rparr>) (cp_args p)\<rparr>))
      else cmd_parse tokens (p\<lparr>cp_rest := cp_rest p @ [token]\<rparr>))"

definition cmd_has :: "string \<Rightarrow> cmd_parser \<Rightarrow> bool" where
  "cmd_has name p = (case um_find (cp_args p) name of None \<Rightarrow> False | Some a \<Rightarrow> ca_found a)"

definition cmd_get :: "string \<Rightarrow> cmd_parser \<Rightarrow> string" where
  "cmd_get name p = (case um_find (cp_args p) name of None \<Rightarrow> '''' | Some a \<Rightarrow> ca_value a)"

definition cmd_get_default :: "string \<Rightarrow> string \<Rightarrow> cmd_parser \<Rightarrow> string" where
  "cmd_get_default name dflt p =
     (case um_find (cp_args p) name of
        None \<Rightarrow> dflt
      | Some a \<Rightarrow> if ca_found a then ca_value a else dflt)"

definition cmd_help :: "cmd_parser \<Rightarrow> string" where
  "cmd_help p = ''Usage:'' @ [CHR 0x0A] @ concat (map (\<lambda>(k, a).
     ''  '' @ (if ca_short a \<noteq> CHR 0x00 then ''-'' @ [ca_short a] @ '', '' else ''    '') @
     ''--'' @ ca_name a @ (if ca_has_value a then '' <value>'' else '''') @ ''  '' @ ca_description a @
     (if ca_value a \<noteq> [] then '' (default: '' @ ca_value a @ '')'' else '''') @ [CHR 0x0A]) (cp_args p))"

section \<open>Lookup in a flat tree\<close>

definition flat :: "'d config_node \<Rightarrow> bool" where
  "flat n \<longleftrightarrow> (\<forall>(k, m)\<in>set (node_children n). node_children m = [])"

lemma um_set_elem: "p \<in> set (um_set k x m) \<Longrightarrow> p = (k, x) \<or> p \<in> set m"
  by (induction m) (auto split: if_splits)

lemma flat_set_key:
  assumes "flat n"
  shows "flat (set_key k v n)"
  unfolding flat_def
proof
  fix p assume "p \<in> set (node_children (set_key k v n))"
  then have "p = (k, Config_Node (Some v) []) \<or> p \<in> set (node_children n)"
    using um_set_elem by (fastforce simp: set_key_def)
  with assms show "case p of (k, m) \<Rightarrow> node_children m = []" by (auto simp: flat_def)
qed

lemma flat_ini_line: "flat (snd st) \<Longrightarrow> flat (snd (ini_line raw st))"
  by (cases st) (auto simp: ini_line_def ini_entry_def Let_def flat_set_key)

lemma flat_parse_ini: "flat root \<Longrightarrow> flat (parse_ini s root)"
proof -
  have "flat (snd st) \<Longrightarrow> flat (snd (fold ini_line ls st))" for ls and st :: "string \<times> 'a config_node"
    by (induction ls arbitrary: st) (simp_all add: flat_ini_line)
  then show "flat root \<Longrightarrow> ?thesis" by (simp add: parse_ini_def)
qed

lemma break_at:
  assumes "c \<notin> set l"
  shows "takeWhile (\<lambda>x. x \<noteq> c) (l @ c # s) = l" "dropWhile (\<lambda>x. x \<noteq> c) (l @ c # s) = c # s"
  using assms by (induction l) auto

lemma config_get_flat:
  assumes "flat n" "k \<noteq> []" "CHR ''.'' \<notin> set k"
  shows "config_get_from k n = get_key k n"
    and "r \<noteq> [] \<Longrightarrow> config_get_from (k @ ''.'' @ r) n = None"
proof -
  have k: "takeWhile (\<lambda>c. c \<noteq> CHR ''.'') k = k" "dropWhile (\<lambda>c. c \<noteq> CHR ''.'') k = []"
    using assms(3) by (auto simp: takeWhile_eq_all_conv)
  show "config_get_from k n = get_key k n"
    unfolding config_get_from.simps [of k n] Let_def k using assms(2) by (simp split: option.split)
  have kr: "takeWhile (\<lambda>c. c \<noteq> CHR ''.'') (k @ ''.'' @ r) = k"
    "dropWhile (\<lambda>c. c \<noteq> CHR ''.'') (k @ ''.'' @ r) = ''.'' @ r"
    using break_at [OF assms(3), of r] by simp_all
  have leaf: "config_get_from r m = None" if "r \<noteq> []" "get_key k n = Some m" for m
  proof -
    have "node_children m = []" using assms(1) that(2) by (auto simp: flat_def get_key_def dest: map_of_SomeD)
    with that(1) show ?thesis
      unfolding config_get_from.simps [of r m] Let_def get_key_def by simp
  qed
  show "config_get_from (k @ ''.'' @ r) n = None" if "r \<noteq> []"
    unfolding config_get_from.simps [of "k @ ''.'' @ r" n] Let_def kr
    using leaf [OF that] by (simp split: option.split)
qed

section \<open>Reading plain entries\<close>

text \<open>Text that the reader does not alter: no comment, no line end, no blank at the ends.\<close>

definition ini_plain :: "string \<Rightarrow> bool" where
  "ini_plain s \<longleftrightarrow> set s \<inter> {CHR ''#'', CHR '';'', CHR 0x0A} = {} \<and>
     (s \<noteq> [] \<longrightarrow> \<not> blank (hd s) \<and> \<not> blank (last s) \<and> last s \<noteq> CHR 0x0D)"

definition ini_key :: "string \<Rightarrow> bool" where
  "ini_key k \<longleftrightarrow> ini_plain k \<and> k \<noteq> [] \<and> CHR ''='' \<notin> set k \<and> CHR ''.'' \<notin> set k \<and> hd k \<noteq> CHR ''[''"

definition print_ini :: "(string \<times> string) list \<Rightarrow> string" where
  "print_ini kvs = concat (map (\<lambda>(k, v). k @ ''='' @ v @ [CHR 0x0A]) kvs)"

lemma text_lines_line: "CHR 0x0A \<notin> set l \<Longrightarrow> text_lines (l @ CHR 0x0A # s) = l # text_lines s"
proof -
  assume "CHR 0x0A \<notin> set l"
  then have "takeWhile (\<lambda>c. c \<noteq> CHR 0x0A) (l @ CHR 0x0A # s) = l"
    "dropWhile (\<lambda>c. c \<noteq> CHR 0x0A) (l @ CHR 0x0A # s) = CHR 0x0A # s"
    by (simp_all add: break_at)
  then show ?thesis by (subst text_lines.simps) simp
qed

lemma rtrim_id: "s = [] \<or> \<not> P (last s) \<Longrightarrow> rtrim P s = s"
  by (cases s rule: rev_cases) (auto simp: rtrim_def)

lemma ltrim_id: "s = [] \<or> \<not> blank (hd s) \<Longrightarrow> ltrim s = s"
  by (cases s) (auto simp: ltrim_def)

lemma ini_clean_plain:
  assumes "ini_key k" "ini_plain v"
  shows "ini_clean (k @ ''='' @ v) = k @ ''='' @ v"
proof -
  have "CHR ''#'' \<notin> set (k @ ''='' @ v)" "CHR '';'' \<notin> set (k @ ''='' @ v)"
    using assms by (auto simp: ini_key_def ini_plain_def)
  then have "takeWhile (\<lambda>c. c \<noteq> CHR ''#'') (k @ ''='' @ v) = k @ ''='' @ v"
    "takeWhile (\<lambda>c. c \<noteq> CHR '';'') (k @ ''='' @ v) = k @ ''='' @ v"
    by (auto simp: takeWhile_eq_all_conv)
  moreover have "ltrim (k @ ''='' @ v) = k @ ''='' @ v"
    using assms by (intro ltrim_id) (auto simp: ini_key_def ini_plain_def hd_append)
  moreover have "rtrim (\<lambda>c. blank c \<or> c = CHR 0x0D) (k @ ''='' @ v) = k @ ''='' @ v"
    using assms(2) by (intro rtrim_id) (auto simp: ini_plain_def blank_def last_append)
  ultimately show ?thesis by (simp only: ini_clean_def Let_def)
qed

lemma ini_line_plain:
  assumes "ini_key k" "ini_plain v"
  shows "ini_line (k @ ''='' @ v) ([], root) = ([], set_key k (V_String v) root)"
proof -
  have "takeWhile (\<lambda>c. c \<noteq> CHR ''='') (k @ ''='' @ v) = k"
    "dropWhile (\<lambda>c. c \<noteq> CHR ''='') (k @ ''='' @ v) = ''='' @ v"
    using assms(1) break_at [of "CHR ''=''" k v] by (simp_all add: ini_key_def)
  moreover have "rtrim blank k = k" "rtrim blank (ltrim v) = v"
    using assms by (auto simp: ini_key_def ini_plain_def ltrim_id intro!: rtrim_id)
  moreover have "hd (k @ ''='' @ v) \<noteq> CHR ''[''" using assms(1) by (simp add: ini_key_def hd_append)
  ultimately show ?thesis
    using ini_clean_plain [OF assms] assms(1)
    by (simp add: ini_line_def ini_entry_def ini_full_key_def Let_def ini_key_def)
qed

lemma parse_print_ini:
  assumes "\<forall>(k, v)\<in>set kvs. ini_key k \<and> ini_plain v"
  shows "parse_ini (print_ini kvs) root = fold (\<lambda>(k, v). set_key k (V_String v)) kvs root"
proof -
  have "fold ini_line (text_lines (print_ini kvs)) ([], root) =
      ([], fold (\<lambda>(k, v). set_key k (V_String v)) kvs root)"
    using assms
  proof (induction kvs arbitrary: root)
    case Nil
    then show ?case by (simp add: print_ini_def text_lines.simps)
  next
    case (Cons kv kvs)
    obtain k v where kv: "kv = (k, v)" by fastforce
    with Cons.prems have ok: "ini_key k" "ini_plain v" by auto
    then have "CHR 0x0A \<notin> set (k @ ''='' @ v)" by (auto simp: ini_key_def ini_plain_def)
    from text_lines_line [OF this, of "print_ini kvs"]
    have "text_lines (print_ini (kv # kvs)) = (k @ ''='' @ v) # text_lines (print_ini kvs)"
      by (simp add: print_ini_def kv)
    moreover have "fold ini_line (text_lines (print_ini kvs)) ([], set_key k (V_String v) root) =
        ([], fold (\<lambda>(k, v). set_key k (V_String v)) kvs (set_key k (V_String v) root))"
      using Cons.prems by (intro Cons.IH) simp
    ultimately show ?case using ini_line_plain [OF ok, of root] by (simp add: kv)
  qed
  then show ?thesis by (simp add: parse_ini_def)
qed

lemma get_key_fold_set:
  "get_key k (fold (\<lambda>(k, v). set_key k (f v)) kvs n) =
   (case map_of (rev kvs) k of None \<Rightarrow> get_key k n | Some v \<Rightarrow> Some (Config_Node (Some (f v)) []))"
proof (induction kvs arbitrary: n)
  case (Cons kv kvs)
  then show ?case by (cases kv) (auto simp: get_key_def set_key_def map_add_def split: option.splits)
qed simp

section \<open>Long options\<close>

definition long_options :: "(string \<times> string) list \<Rightarrow> string list" where
  "long_options kvs = concat (map (\<lambda>(k, v). [''--'' @ k, v]) kvs)"

lemma find_key: "find (\<lambda>kv. fst kv = k) m = map_option (Pair k) (um_find m k)"
  by (induction m) auto

lemma cmd_parse_long:
  assumes "k \<noteq> ''help''" "um_find (cp_args p) k = Some a" "ca_has_value a"
  shows "cmd_parse ((''--'' @ k) # v # tokens) p =
    cmd_parse tokens (p\<lparr>cp_args := um_set k (a\<lparr>ca_found := True, ca_value := v\<rparr>) (cp_args p)\<rparr>)"
proof -
  have "cmd_matches (''--'' @ k) = (\<lambda>kv. fst kv = k)"
    by (simp add: cmd_matches_def char_at_def fun_eq_iff)
  then have "find (cmd_matches (''--'' @ k)) (cp_args p) = Some (k, a)" by (simp only: find_key assms(2) option.map)
  with assms(1,3) show ?thesis by (simp add: char_at_def)
qed

definition takes_values :: "(string \<times> string) list \<Rightarrow> cmd_parser \<Rightarrow> bool" where
  "takes_values kvs p \<longleftrightarrow> (\<forall>(k, v)\<in>set kvs. k \<noteq> ''help'' \<and> (\<exists>a. um_find (cp_args p) k = Some a \<and> ca_has_value a))"

lemma cmd_parse_long_options:
  assumes "takes_values kvs p"
  shows "cp_rest (cmd_parse (long_options kvs) p) = cp_rest p \<and>
    cmd_get k (cmd_parse (long_options kvs) p) = (case map_of (rev kvs) k of None \<Rightarrow> cmd_get k p | Some v \<Rightarrow> v) \<and>
    cmd_has k (cmd_parse (long_options kvs) p) = (map_of (rev kvs) k \<noteq> None \<or> cmd_has k p)"
  using assms
proof (induction kvs arbitrary: p)
  case (Cons kv kvs)
  obtain k' v a where kv: "kv = (k', v)" "k' \<noteq> ''help''" "um_find (cp_args p) k' = Some a" "ca_has_value a"
    using Cons.prems by (cases kv) (auto simp: takes_values_def)
  let ?p = "p\<lparr>cp_args := um_set k' (a\<lparr>ca_found := True, ca_value := v\<rparr>) (cp_args p)\<rparr>"
  have step: "cmd_parse (long_options (kv # kvs)) p = cmd_parse (long_options kvs) ?p"
    using cmd_parse_long [OF kv(2-4)] by (simp add: long_options_def kv(1))
  have "takes_values kvs ?p" using Cons.prems kv(4) by (fastforce simp: takes_values_def)
  from Cons.IH [OF this] show ?case
    unfolding step using kv(1) by (auto simp: cmd_get_def cmd_has_def map_add_def split: option.splits)
qed (simp add: long_options_def)

section \<open>Properties\<close>



text \<open>
  No entry of a section can be looked up: the reader stores it in the root under the whole
  name \<open>section.key\<close>, while \<open>get\<close> splits its path at the dots and descends. Whatever the file
  contains, every path with a dot inside finds nothing.
\<close>

theorem ini_section_keys_unreachable:
  assumes "k \<noteq> []" "CHR ''.'' \<notin> set k" "r \<noteq> []"
  shows "config_get (k @ ''.'' @ r) (snd (load_ini path (Some s) Config_new)) = None"
proof -
  have "flat (parse_ini s node_empty :: 'a config_node)"
    by (rule flat_parse_ini) (simp add: flat_def node_empty_def)
  from config_get_flat(2) [OF this assms] show ?thesis
    by (simp add: config_get_def load_ini_def Config_new_def)
qed

theorem ini_section_keys_unreachable_witness:
  "config_get ''server.port''
    (snd (load_ini ''f'' (Some (''[server]'' @ [CHR 0x0A] @ ''port=80'')) (Config_new :: nat config))) = None"
  using ini_section_keys_unreachable [of "''server''" "''port''" "''f''" "''[server]'' @ [CHR 0x0A] @ ''port=80''"]
  by simp

text \<open>
  Command lines of declared long options read back: after parsing \<open>--name value\<close> pairs,
  \<open>get\<close> returns the last value given for each option and its previous value for every other,
  \<open>has\<close> tells which options were given, and nothing is left over. Values may be any text, also
  one that looks like an option.
\<close>

theorem cmdline_roundtrip:
  assumes "takes_values kvs p"
  shows "cp_rest (cmd_parse (long_options kvs) p) = cp_rest p \<and>
    cmd_get k (cmd_parse (long_options kvs) p) = (case map_of (rev kvs) k of None \<Rightarrow> cmd_get k p | Some v \<Rightarrow> v) \<and>
    cmd_has k (cmd_parse (long_options kvs) p) = (map_of (rev kvs) k \<noteq> None \<or> cmd_has k p)"
  by (rule cmd_parse_long_options [OF assms])

theorem cmdline_roundtrip_witness:
  "cmd_get ''port'' (cmd_parse [''--port'', ''-80''] (cmd_add ''port'' (CHR ''p'') True ''d'' ''1'' CmdLineParser_new)) = ''-80''"
  using cmdline_roundtrip [of "[(''port'', ''-80'')]" "cmd_add ''port'' (CHR ''p'') True ''d'' ''1'' CmdLineParser_new" "''port''"]
  by (simp add: takes_values_def long_options_def cmd_add_def CmdLineParser_new_def)

end
