(* ===== verification/Config_Json.thy ===== *)
theory Config_Json
  imports Config
begin

text \<open>
  The JSON half of \<open>src/base/config/config.cpp\<close>: the helpers of namespace \<open>json_parser\<close>,
  \<open>parse_json_stream\<close>, \<open>load_json\<close>, \<open>poll_changes\<close> and \<open>to_json\<close>. An input stream is the text
  left and its fail state. A read that fails leaves its variable unchanged; a local variable
  that was never written holds \<open>junk\<close>. Loops that may not end are partial functions, so that
  \<open>None\<close> is a call that never returns. \<open>std::stod\<close> and the printing of floating-point numbers
  are parameters. The source takes the address of a returned pointer in the branch for an
  opening brace, which no compiler accepts; the model uses the returned pointer.
\<close>

section \<open>Input streams\<close>

type_synonym istream = "string \<times> bool"

definition is_get :: "char \<Rightarrow> istream \<Rightarrow> char \<times> istream" where
  "is_get c is = (if snd is \<or> fst is = [] then (c, (fst is, True)) else (hd (fst is), (tl (fst is), False)))"

definition is_putback :: "char \<Rightarrow> istream \<Rightarrow> istream" where
  "is_putback c is = (if snd is then is else (c # fst is, False))"

definition json_ws :: "char \<Rightarrow> bool" where
  "json_ws c \<longleftrightarrow> c = CHR '' '' \<or> c = CHR 0x09 \<or> c = CHR 0x0A \<or> c = CHR 0x0D"

fun skip_ws_loop :: "string \<Rightarrow> istream" where
  "skip_ws_loop [] = ([], True)"
| "skip_ws_loop (c # cs) = (if json_ws c then skip_ws_loop cs else (c # cs, False))"

definition skip_ws :: "istream \<Rightarrow> istream" where
  "skip_ws is = (if snd is then is else skip_ws_loop (fst is))"

section \<open>Values\<close>

definition unescape :: "char \<Rightarrow> char" where
  "unescape n = (if n = CHR ''n'' then CHR 0x0A else if n = CHR ''t'' then CHR 0x09
                 else if n = CHR ''r'' then CHR 0x0D else n)"

fun string_loop :: "char \<Rightarrow> string \<Rightarrow> string \<Rightarrow> string \<times> istream" where
  "string_loop junk s [] = (s, ([], True))"
| "string_loop junk s (c # cs) =
     (if c = CHR 0x5C
      then (case cs of [] \<Rightarrow> (s @ [unescape junk], ([], True))
            | n # cs' \<Rightarrow> string_loop junk (s @ [unescape n]) cs')
      else if c = CHR 0x22 then (s, (cs, False))
      else string_loop junk (s @ [c]) cs)"

definition parse_string :: "char \<Rightarrow> istream \<Rightarrow> string \<times> istream" where
  "parse_string junk is =
     (let (c, is1) = is_get junk is in if snd is1 then ([], is1) else string_loop junk [] (fst is1))"

text \<open>The loop over the elements of an array; \<open>c\<close> is the last character read.\<close>

partial_function (option) array_loop :: "char \<Rightarrow> char \<Rightarrow> string list \<Rightarrow> istream \<Rightarrow> (string list \<times> istream) option" where
  "array_loop junk c arr is =
     (let (c1, is1) = is_get c (skip_ws is) in
      if c1 = CHR '']'' then Some (arr, is1)
      else let (s, is2) = parse_string junk (is_putback c1 is1);
               (c2, is3) = is_get c1 (skip_ws is2)
           in if c2 = CHR '','' then array_loop junk c2 (arr @ [s]) is3
              else Some (arr @ [s], is_putback c2 is3))"

declare array_loop.simps [code]

text \<open>
  Elements that all read as numbers make a number array. The functions of the standard library
  throw when nothing can be read.
\<close>

definition array_value :: "(string \<Rightarrow> 'd option) \<Rightarrow> string list \<Rightarrow> 'd config_value option" where
  "array_value stod arr =
     (if \<forall>s\<in>set arr. stoi s \<noteq> None then Some (V_Int64s (map (\<lambda>s. the (stoll s)) arr))
      else if \<forall>s\<in>set arr. stod s \<noteq> None then Some (V_Doubles (map (\<lambda>s. the (stod s)) arr))
      else Some (V_Strings arr))"

definition token_end :: "char \<Rightarrow> bool" where
  "token_end c \<longleftrightarrow> json_ws c \<or> c = CHR '','' \<or> c = CHR '']'' \<or> c = CHR ''}''"

fun token_loop :: "string \<Rightarrow> string \<Rightarrow> string \<times> istream" where
  "token_loop token [] = (token, ([], True))"
| "token_loop token (c # cs) = (if token_end c then (token, (c # cs, False)) else token_loop (token @ [c]) cs)"

definition token_value :: "(string \<Rightarrow> 'd option) \<Rightarrow> string \<Rightarrow> 'd config_value option" where
  "token_value stod token =
     (if token = ''true'' then Some (V_Bool True)
      else if token = ''false'' then Some (V_Bool False)
      else if token = ''null'' then Some V_Null
      else if CHR ''.'' \<in> set token then map_option V_Double (stod token)
      else map_option V_Int64 (stoll token))"

text \<open>\<open>parse_value\<close>: the inner \<open>None\<close> is an exception.\<close>

definition parse_value ::
  "char \<Rightarrow> (string \<Rightarrow> 'd option) \<Rightarrow> istream \<Rightarrow> ('d config_value option \<times> istream) option" where
  "parse_value junk stod is =
     (let (c, is1) = is_get junk (skip_ws is) in
      if c = CHR 0x22 then
        (let (s, is2) = parse_string junk (is_putback c is1) in Some (Some (V_String s), is2))
      else if c = CHR ''['' then
        map_option (\<lambda>(arr, is2). (array_value stod arr, is2)) (array_loop junk c [] is1)
      else if c = CHR ''{'' then Some (Some V_Null, is_putback c is1)
      else let (token, is2) = (if snd is1 then ([c], is1) else token_loop [c] (fst is1))
           in Some (token_value stod token, is2))"

section \<open>The reader\<close>

text \<open>
  The stack of node pointers is the path from the root to its last node: a pushed node is a
  child of the node below it, and \<open>set_key\<close> replaces only children of the last node.
\<close>

fun node_at :: "string list \<Rightarrow> 'd config_node \<Rightarrow> 'd config_node option" where
  "node_at [] n = Some n"
| "node_at (k # ks) n = Option.bind (get_key k n) (node_at ks)"

fun update_at :: "string list \<Rightarrow> ('d config_node \<Rightarrow> 'd config_node) \<Rightarrow> 'd config_node \<Rightarrow> 'd config_node" where
  "update_at [] f n = f n"
| "update_at (k # ks) f n =
     (case get_key k n of
        None \<Rightarrow> n
      | Some m \<Rightarrow> Config_Node (node_value n) (um_set k (update_at ks f m) (node_children n)))"

definition open_brace :: "string list \<Rightarrow> string \<Rightarrow> 'd config_node \<Rightarrow> string list" where
  "open_brace stack last_key root =
     (if last_key \<noteq> [] \<and> Option.bind (node_at stack root) (get_key last_key) \<noteq> None
      then stack @ [last_key] else stack)"

definition close_brace :: "string list \<Rightarrow> string list" where
  "close_brace stack = (if stack \<noteq> [] then butlast stack else stack)"

text \<open>The branch for a quote up to the character after the key.\<close>

definition read_key :: "char \<Rightarrow> istream \<Rightarrow> string \<times> char \<times> istream" where
  "read_key junk is =
     (let (key, is1) = parse_string junk is; (c, is2) = is_get (CHR 0x22) (skip_ws is1) in (key, c, is2))"

text \<open>After the colon: white space, one character read and put back, the value.\<close>

definition read_value :: "char \<Rightarrow> (string \<Rightarrow> 'd option) \<Rightarrow> istream \<Rightarrow> ('d config_value option \<times> istream) option" where
  "read_value junk stod is =
     (let (c, is1) = is_get (CHR '':'') (skip_ws is) in parse_value junk stod (is_putback c is1))"

text \<open>
  \<open>parse_json_stream\<close>: the new tree and whether the reader returned (an exception leaves the
  tree built so far).
\<close>

partial_function (option) json_loop ::
  "char \<Rightarrow> (string \<Rightarrow> 'd option) \<Rightarrow> istream \<Rightarrow> string list \<Rightarrow> string \<Rightarrow> 'd config_node \<Rightarrow>
   (bool \<times> 'd config_node) option" where
  "json_loop junk stod is stack last_key root =
     (let (c, is1) = is_get junk is in
      if snd is1 then Some (True, root)
      else if json_ws c then json_loop junk stod is1 stack last_key root
      else if c = CHR ''{'' then json_loop junk stod is1 (open_brace stack last_key root) [] root
      else if c = CHR ''}'' then json_loop junk stod is1 (close_brace stack) [] root
      else if c = CHR 0x22 then
        (let (key, c2, is2) = read_key junk (is_putback c is1) in
         if c2 = CHR '':'' then
           (case read_value junk stod is2 of
              None \<Rightarrow> None
            | Some (v, is3) \<Rightarrow>
                (case v of
                   None \<Rightarrow> Some (False, root)
                 | Some x \<Rightarrow> json_loop junk stod is3 stack key (update_at stack (set_key key x) root)))
         else json_loop junk stod is2 stack last_key root)
      else json_loop junk stod is1 stack last_key root)"

declare json_loop.simps [code]

definition parse_json :: "char \<Rightarrow> (string \<Rightarrow> 'd option) \<Rightarrow> string \<Rightarrow> (bool \<times> 'd config_node) option" where
  "parse_json junk stod text = json_loop junk stod (text, False) [] [] node_empty"

text \<open>
  \<open>load_json\<close> of a file with the given contents. Its first result tells whether it returned,
  and what; an exception is \<open>None\<close>.
\<close>

definition load_json ::
  "char \<Rightarrow> (string \<Rightarrow> 'd option) \<Rightarrow> string \<Rightarrow> string option \<Rightarrow> 'd config \<Rightarrow> (bool option \<times> 'd config) option" where
  "load_json junk stod path content c =
     (case content of
        None \<Rightarrow> Some (Some False, c)
      | Some text \<Rightarrow>
          map_option (\<lambda>(returned, root). (if returned then Some True else None,
             c\<lparr>cf_last_content := text, cf_file_path := path, cf_root := root\<rparr>)) (parse_json junk stod text))"

text \<open>\<open>poll_changes\<close> with the watchers it calls.\<close>

definition poll_changes ::
  "char \<Rightarrow> (string \<Rightarrow> 'd option) \<Rightarrow> string option \<Rightarrow> 'd config \<Rightarrow> ((nat \<times> string) list \<times> 'd config) option" where
  "poll_changes junk stod content c =
     (if cf_file_path c = [] then Some ([], c)
      else case content of
        None \<Rightarrow> Some ([], c)
      | Some text \<Rightarrow>
          if length text = length (cf_last_content c) then Some ([], c)
          else map_option (\<lambda>(returned, root).
             let c1 = c\<lparr>cf_last_content := text, cf_root := root\<rparr>
             in (if returned then map (\<lambda>cb. (cb, cf_file_path c1)) (cf_watchers c1) else [], c1))
             (parse_json junk stod text))"

section \<open>The writer\<close>

definition json_value_text :: "('d \<Rightarrow> string) \<Rightarrow> 'd config_value option \<Rightarrow> string" where
  "json_value_text show_double v =
     (case v of
        Some (V_String s) \<Rightarrow> [CHR 0x22] @ s @ [CHR 0x22]
      | Some (V_Int n) \<Rightarrow> show_int n
      | Some (V_Double d) \<Rightarrow> show_double d
      | Some (V_Bool b) \<Rightarrow> (if b then ''true'' else ''false'')
      | _ \<Rightarrow> ''null'')"

fun json_entries :: "('d \<Rightarrow> string) \<Rightarrow> bool \<Rightarrow> (string \<times> 'd config_node) list \<Rightarrow> string" where
  "json_entries show_double first [] = []"
| "json_entries show_double first (kv # kvs) =
     (if first then [] else '','' @ [CHR 0x0A]) @ ''  '' @ [CHR 0x22] @ fst kv @ [CHR 0x22] @ '': '' @
     json_value_text show_double (node_value (snd kv)) @ json_entries show_double False kvs"

definition config_to_json :: "('d \<Rightarrow> string) \<Rightarrow> 'd config \<Rightarrow> string" where
  "config_to_json show_double c =
     ''{'' @ [CHR 0x0A] @ json_entries show_double True (node_children (cf_root c)) @ [CHR 0x0A] @ ''}''"

section \<open>Reading what was written\<close>

lemma is_get_simps [simp]:
  "is_get c (x # xs, False) = (x, (xs, False))" "is_get c (xs, True) = (c, (xs, True))" "is_get c ([], b) = (c, ([], True))"
  by (simp_all add: is_get_def)

lemma is_putback_simps [simp]: "is_putback c (xs, False) = (c # xs, False)" "is_putback c (xs, True) = (xs, True)"
  by (simp_all add: is_putback_def)

lemma skip_ws_simps [simp]:
  "skip_ws (xs, True) = (xs, True)" "skip_ws ([], False) = ([], True)"
  "json_ws c \<Longrightarrow> skip_ws (c # cs, False) = skip_ws (cs, False)"
  "\<not> json_ws c \<Longrightarrow> skip_ws (c # cs, False) = (c # cs, False)"
  by (simp_all add: skip_ws_def)

lemma json_ws_simps [simp]: "json_ws CHR '' ''" "json_ws CHR 0x0A" "\<not> json_ws CHR 0x22" "\<not> json_ws CHR '':''"
  "\<not> json_ws CHR ''{''" "\<not> json_ws CHR ''}''" "\<not> json_ws CHR '',''" "\<not> json_ws CHR ''[''"
  by (simp_all add: json_ws_def)

text \<open>Text that needs no escapes.\<close>

definition json_plain :: "string \<Rightarrow> bool" where
  "json_plain s \<longleftrightarrow> CHR 0x22 \<notin> set s \<and> CHR 0x5C \<notin> set s"

lemma string_loop_plain: "json_plain s \<Longrightarrow> string_loop junk acc (s @ CHR 0x22 # r) = (acc @ s, (r, False))"
  by (induction s arbitrary: acc) (auto simp: json_plain_def)

lemma parse_string_plain:
  "json_plain s \<Longrightarrow> parse_string junk (CHR 0x22 # s @ CHR 0x22 # r, False) = (s, (r, False))"
  by (simp add: parse_string_def string_loop_plain)

lemma token_loop_plain:
  "\<forall>c\<in>set s. \<not> token_end c \<Longrightarrow> token_end d \<Longrightarrow> token_loop acc (s @ d # r) = (acc @ s, (d # r, False))"
  by (induction s arbitrary: acc) auto

lemma parse_value_token:
  assumes "\<forall>c\<in>set (c # s). \<not> token_end c" "c \<notin> {CHR 0x22, CHR ''['', CHR ''{''}" "token_end d"
  shows "parse_value junk stod (c # s @ d # r, False) = Some (token_value stod (c # s), (d # r, False))"
proof -
  have "\<not> json_ws c" using assms(1) by (auto simp: token_end_def)
  then show ?thesis using assms token_loop_plain [of s d "[c]" r] by (simp add: parse_value_def)
qed

text \<open>The values that survive writing and reading, and what becomes of the others.\<close>

definition writable :: "'d config_value \<Rightarrow> bool" where
  "writable v = (case v of V_String s \<Rightarrow> json_plain s | V_Int n \<Rightarrow> - (2 ^ 31) \<le> n \<and> n < 2 ^ 31 | V_Double _ \<Rightarrow> False | _ \<Rightarrow> True)"

definition reread :: "'d config_value \<Rightarrow> 'd config_value" where
  "reread v = (case v of V_String s \<Rightarrow> V_String s | V_Bool b \<Rightarrow> V_Bool b | V_Int n \<Rightarrow> V_Int64 n | _ \<Rightarrow> V_Null)"

lemma show_int_token: "\<forall>c\<in>set (show_int n). \<not> token_end c \<and> c \<notin> {CHR 0x22, CHR ''['', CHR ''{'', CHR ''.''} \<and> \<not> json_ws c"
proof
  fix c assume "c \<in> set (show_int n)"
  from show_int_chars [OF this]
  show "\<not> token_end c \<and> c \<notin> {CHR 0x22, CHR ''['', CHR ''{'', CHR ''.''} \<and> \<not> json_ws c"
    by (auto simp: token_end_def json_ws_def is_digit_def digit_value_def)
qed

lemma token_value_show_int:
  assumes "- (2 ^ 31) \<le> n" "n < 2 ^ 31"
  shows "token_value stod (show_int n) = Some (V_Int64 n)"
proof -
  have ne: "show_int n \<noteq> s" if "\<exists>c\<in>set s. \<not> is_digit c \<and> c \<noteq> CHR ''-''" for s using that show_int_chars by blast
  have "show_int n \<noteq> ''true''" "show_int n \<noteq> ''false''" "show_int n \<noteq> ''null''"
    by (rule ne, simp add: is_digit_def digit_value_def)+
  moreover have "CHR ''.'' \<notin> set (show_int n)" using show_int_token by blast
  moreover have "stoll (show_int n) = Some n" using assms by (intro stoll_show) auto
  ultimately show ?thesis by (simp add: token_value_def)
qed

lemma parse_value_text:
  assumes "writable v" "token_end d"
  shows "parse_value junk stod (json_value_text show_double (Some v) @ d # r, False) = Some (Some (reread v), (d # r, False))"
proof -
  have null: "parse_value junk stod (''null'' @ d # r, False) = Some (Some V_Null, (d # r, False))"
    using parse_value_token [of "CHR ''n''" "''ull''" d junk stod r] assms(2)
    by (simp add: token_end_def json_ws_def token_value_def)
  show ?thesis
  proof (cases v)
    case (V_Bool b)
    then show ?thesis
      using parse_value_token [of "CHR ''t''" "''rue''" d junk stod r] parse_value_token [of "CHR ''f''" "''alse''" d junk stod r] assms(2)
      by (auto simp: token_end_def json_ws_def token_value_def json_value_text_def reread_def)
  next
    case (V_Int n)
    obtain c s where c: "show_int n = c # s" using show_int_nonempty [of n] by (cases "show_int n") auto
    have "parse_value junk stod (c # s @ d # r, False) = Some (token_value stod (c # s), (d # r, False))"
      using show_int_token [of n] c assms(2) by (intro parse_value_token) auto
    then show ?thesis using assms(1) c token_value_show_int [of n stod] by (simp add: V_Int json_value_text_def reread_def writable_def)
  next
    case (V_String s)
    then show ?thesis using assms(1) parse_string_plain [of s junk "d # r"]
      by (simp add: parse_value_def json_value_text_def reread_def writable_def)
  qed (use null assms(1) in \<open>simp_all add: json_value_text_def reread_def writable_def\<close>)
qed

lemma json_value_text_hd:
  assumes "writable v"
  shows "\<exists>c cs. json_value_text show_double (Some v) = c # cs \<and> \<not> json_ws c"
proof (cases v)
  case (V_Int n)
  obtain c cs where "show_int n = c # cs" using show_int_nonempty [of n] by (cases "show_int n") auto
  with show_int_token [of n] V_Int show ?thesis by (auto simp: json_value_text_def)
qed (use assms in \<open>auto simp: json_value_text_def writable_def json_ws_def\<close>)

text \<open>One turn of the loop for each kind of character.\<close>

lemma json_loop_end [simp]: "json_loop junk stod ([], b) stack key root = Some (True, root)"
  by (subst json_loop.simps) simp

lemma json_loop_failed [simp]: "json_loop junk stod (s, True) stack key root = Some (True, root)"
  by (subst json_loop.simps) simp

lemma json_loop_skip:
  "json_ws c \<or> c \<notin> {CHR ''{'', CHR ''}'', CHR 0x22} \<Longrightarrow>
   json_loop junk stod (c # cs, False) stack key root = json_loop junk stod (cs, False) stack key root"
  by (subst json_loop.simps) (auto simp: json_ws_def)

lemma json_loop_open:
  "json_loop junk stod (CHR ''{'' # cs, False) stack key root =
   json_loop junk stod (cs, False) (open_brace stack key root) [] root"
  by (subst json_loop.simps) simp

lemma json_loop_close:
  "json_loop junk stod (CHR ''}'' # cs, False) stack key root =
   json_loop junk stod (cs, False) (close_brace stack) [] root"
  by (subst json_loop.simps) simp

lemma json_loop_entry:
  assumes "json_plain k" "writable v" "token_end d"
  shows "json_loop junk stod
      (CHR 0x22 # k @ CHR 0x22 # '': '' @ json_value_text show_double (Some v) @ d # r, False) stack key root =
    json_loop junk stod (d # r, False) stack k (update_at stack (set_key k (reread v)) root)"
proof -
  obtain c cs where c: "json_value_text show_double (Some v) = c # cs" "\<not> json_ws c"
    using json_value_text_hd [OF assms(2)] by blast
  have "read_key junk (CHR 0x22 # k @ CHR 0x22 # '': '' @ c # cs @ d # r, False) = (k, CHR '':'', ('' '' @ c # cs @ d # r, False))"
    using assms(1) by (simp add: read_key_def parse_string_plain)
  moreover have "read_value junk stod ('' '' @ c # cs @ d # r, False) = Some (Some (reread v), (d # r, False))"
    using parse_value_text [OF assms(2,3), of junk stod show_double r] c by (simp add: read_value_def)
  ultimately show ?thesis using c(1) by (subst json_loop.simps) simp
qed

lemma json_loop_entries:
  assumes "\<forall>(k, m)\<in>set kvs. json_plain k \<and> (\<exists>v. m = Config_Node (Some v) [] \<and> writable v)"
  shows "json_loop junk stod (json_entries show_double first kvs @ [CHR 0x0A] @ ''}'', False) [] key root =
    Some (True, fold (\<lambda>(k, m). set_key k (reread (the (node_value m)))) kvs root)"
  using assms
proof (induction kvs arbitrary: first key root)
  case Nil
  show ?case by (simp add: json_loop_skip json_loop_close)
next
  case (Cons kv kvs)
  obtain k v where kv: "kv = (k, Config_Node (Some v) [])" "json_plain k" "writable v" using Cons.prems by (cases kv) auto
  let ?tail = "json_entries show_double False kvs @ [CHR 0x0A] @ ''}''"
  obtain d r where d: "?tail = d # r" "token_end d" by (cases kvs) (auto simp: token_end_def)
  have "json_loop junk stod (json_entries show_double first (kv # kvs) @ [CHR 0x0A] @ ''}'', False) [] key root =
      json_loop junk stod (CHR 0x22 # k @ CHR 0x22 # '': '' @ json_value_text show_double (Some v) @ ?tail, False) [] key root"
    by (cases first) (simp_all add: kv(1) json_loop_skip)
  also have "\<dots> = json_loop junk stod (?tail, False) [] k (set_key k (reread v) root)"
    unfolding d(1) using json_loop_entry [OF kv(2,3) d(2), of junk stod show_double r "[]"] by simp
  also have "\<dots> = Some (True, fold (\<lambda>(k, m). set_key k (reread (the (node_value m)))) kvs (set_key k (reread v) root))"
    using Cons.prems by (intro Cons.IH) simp
  finally show ?case by (simp add: kv(1))
qed

lemma get_key_fold_reread:
  "get_key k (fold (\<lambda>(k, m). set_key k (f m)) kvs n) =
   (case map_of (rev kvs) k of None \<Rightarrow> get_key k n | Some m \<Rightarrow> Some (Config_Node (Some (f m)) []))"
  using get_key_fold_set [of k f kvs n] by simp

section \<open>Termination\<close>

text \<open>Reading never lengthens the text; a text without an opening bracket never enters the array loop.\<close>

definition shorter :: "istream \<Rightarrow> istream \<Rightarrow> bool" where
  "shorter a b \<longleftrightarrow> length (fst a) \<le> length (fst b) \<and> set (fst a) \<subseteq> set (fst b)"

lemma shorter_refl: "shorter a a"
  by (simp add: shorter_def)

lemma shorter_trans [trans]: "shorter a b \<Longrightarrow> shorter b c \<Longrightarrow> shorter a c"
  by (auto simp: shorter_def)

lemma shorter_get: "shorter (snd (is_get c is)) is"
  by (cases "fst is") (auto simp: is_get_def shorter_def)

lemma shorter_peek: "shorter (is_putback (fst (is_get c is)) (snd (is_get c is))) is"
  by (cases "fst is") (auto simp: is_get_def is_putback_def shorter_def)

lemma shorter_skip: "shorter (skip_ws is) is"
proof -
  have "length (fst (skip_ws_loop s)) \<le> length s \<and> set (fst (skip_ws_loop s)) \<subseteq> set s" for s by (induction s) auto
  then show ?thesis by (simp add: skip_ws_def shorter_def)
qed

lemma shorter_string_loop: "length (fst (snd (string_loop j acc cs))) \<le> length cs \<and> set (fst (snd (string_loop j acc cs))) \<subseteq> set cs"
proof (induction j acc cs rule: string_loop.induct)
  case (2 junk s c cs)
  show ?case
  proof (cases "c = CHR 0x5C")
    case True
    then show ?thesis using "2.IH"(1) by (cases cs) fastforce+
  next
    case False
    then show ?thesis using "2.IH"(2) by (cases "c = CHR 0x22") fastforce+
  qed
qed simp

lemma shorter_parse_string: "shorter (snd (parse_string j is)) is"
  using shorter_string_loop [of j "[]" "tl (fst is)"]
  by (cases "fst is") (auto simp: parse_string_def is_get_def shorter_def Let_def)

lemma parse_string_consumes: "length (fst (snd (parse_string j (c # cs, False)))) \<le> length cs"
  using shorter_string_loop [of j "[]" cs] by (simp add: parse_string_def)

lemma shorter_token_loop: "length (fst (snd (token_loop tk cs))) \<le> length cs \<and> set (fst (snd (token_loop tk cs))) \<subseteq> set cs"
  by (induction tk cs rule: token_loop.induct) auto

lemma array_loop_failed:
  "c \<noteq> CHR '']'' \<Longrightarrow> c \<noteq> CHR '','' \<Longrightarrow> array_loop junk c arr (s, True) = Some (arr @ [[]], (s, True))"
  by (subst array_loop.simps) (simp add: parse_string_def)

lemma parse_value_returns:
  assumes "CHR ''['' \<notin> set (fst is)"
  shows "\<exists>v is'. parse_value junk stod is = Some (v, is') \<and> shorter is' is"
proof -
  obtain c is1 where g: "is_get junk (skip_ws is) = (c, is1)" by (rule prod.exhaust)
  have 1: "shorter is1 is" using shorter_trans [OF shorter_get [of junk] shorter_skip [of "is"]] g by simp
  have peek: "shorter (is_putback c is1) is" using shorter_trans [OF shorter_peek [of junk] shorter_skip [of "is"]] g by simp
  have bracket: "snd is1" if "c = CHR ''[''"
    using g that assms shorter_skip [of "is"] by (cases "fst (skip_ws is)") (auto simp: is_get_def shorter_def split: if_splits)
  show ?thesis
  proof (cases "c = CHR ''[''")
    case True
    then have "is1 = (fst is1, True)" using bracket by (simp add: prod_eq_iff)
    then have "array_loop junk c [] is1 = Some ([[]], is1)" using array_loop_failed [of c junk "[]" "fst is1"] True by simp
    then show ?thesis using g True 1 by (simp add: parse_value_def)
  next
    case False
    have "shorter (snd (parse_string junk (is_putback c is1))) is" using shorter_trans [OF shorter_parse_string peek] .
    moreover have "shorter (snd (token_loop [c] (fst is1))) is" using shorter_token_loop [of "[c]" "fst is1"] 1 by (auto simp: shorter_def)
    ultimately have "case parse_value junk stod is of None \<Rightarrow> False | Some (v, is') \<Rightarrow> shorter is' is"
      using g False 1 peek by (simp add: parse_value_def split_beta split: if_split) auto
    then show ?thesis by (auto split: option.splits)
  qed
qed

lemma read_value_returns:
  assumes "CHR ''['' \<notin> set (fst is)"
  shows "\<exists>v is'. read_value junk stod is = Some (v, is') \<and> shorter is' is"
proof -
  let ?g = "is_get (CHR '':'') (skip_ws is)"
  have p: "shorter (is_putback (fst ?g) (snd ?g)) is" using shorter_trans [OF shorter_peek shorter_skip] .
  then have "CHR ''['' \<notin> set (fst (is_putback (fst ?g) (snd ?g)))" using assms by (auto simp: shorter_def)
  from parse_value_returns [OF this, of junk stod] p show ?thesis by (auto simp: read_value_def split_beta intro: shorter_trans)
qed

lemma json_loop_returns:
  "CHR ''['' \<notin> set (fst is) \<Longrightarrow> \<exists>r. json_loop junk stod is stack key root = Some r"
proof (induction "length (fst is)" arbitrary: "is" stack key root rule: less_induct)
  case less
  show ?case
  proof (cases "snd is \<or> fst is = []")
    case True
    then show ?thesis by (subst json_loop.simps) (auto simp: is_get_def)
  next
    case False
    then obtain c cs where s: "is = (c # cs, False)" by (cases "is"; cases "fst is") auto
    have tail: "\<exists>r. json_loop junk stod (cs, False) stack' key' root' = Some r" for stack' key' root'
      using less.prems by (intro less.hyps) (simp_all add: s)
    obtain k c2 is2 where k: "read_key junk (c # cs, False) = (k, c2, is2)" by (metis prod_cases3)
    let ?p = "snd (parse_string junk (c # cs, False))"
    have "is2 = snd (is_get (CHR 0x22) (skip_ws ?p))" using k by (simp add: read_key_def split_beta)
    then have "shorter is2 ?p" using shorter_trans [OF shorter_get shorter_skip] by simp
    moreover have "shorter ?p (c # cs, False)" by (rule shorter_parse_string)
    ultimately have is2: "length (fst is2) < length (fst is)" "CHR ''['' \<notin> set (fst is2)"
      using parse_string_consumes [of junk c cs] less.prems by (auto simp: s shorter_def)
    obtain v is3 where v: "read_value junk stod is2 = Some (v, is3)" "shorter is3 is2"
      using read_value_returns [OF is2(2)] by blast
    then have "\<exists>r. json_loop junk stod is3 stack' key' root' = Some r" for stack' key' root'
      using is2 by (intro less.hyps) (auto simp: shorter_def)
    moreover have "\<exists>r. json_loop junk stod is2 stack' key' root' = Some r" for stack' key' root' using is2 by (intro less.hyps)
    ultimately show ?thesis unfolding s
      by (subst json_loop.simps) (use tail k v in \<open>auto split: option.split\<close>)
  qed
qed

text \<open>At the end of the text after a comma the array loop repeats without end.\<close>

lemma array_loop_diverges: "array_loop junk (CHR '','') arr (s, True) = None"
proof -
  have "c = CHR '','' \<longrightarrow> \<not> snd is" if "array_loop junk c arr is = Some y" for junk c arr "is" y
  proof (rule array_loop.raw_induct [OF _ that])
    fix f and junk c :: char and arr :: "string list" and is' :: istream and y :: "string list \<times> istream"
    assume IH: "\<And>junk c arr is y. f junk c arr is = Some y \<Longrightarrow> c = CHR '','' \<longrightarrow> \<not> snd is"
      and eq: "(let (c1, is1) = is_get c (skip_ws is') in
        if c1 = CHR '']'' then Some (arr, is1)
        else let (s, is2) = parse_string junk (is_putback c1 is1); (c2, is3) = is_get c1 (skip_ws is2)
             in if c2 = CHR '','' then f junk c2 (arr @ [s]) is3 else Some (arr @ [s], is_putback c2 is3)) = Some y"
    show "c = CHR '','' \<longrightarrow> \<not> snd is'"
    proof (intro impI notI)
      assume c: "c = CHR '',''" "snd is'"
      then have s: "is' = (fst is', True)" by (simp add: prod_eq_iff)
      from eq have "f junk c (arr @ [[]]) (fst is', True) = Some y" by (subst (asm) s) (simp add: c(1) parse_string_def)
      with IH c show False by fastforce
    qed
  qed
  from this [of junk "CHR '',''" arr "(s, True)"] show ?thesis by (cases "array_loop junk (CHR '','') arr (s, True)") auto
qed

section \<open>Properties\<close>

text \<open>
  C32: What \<open>to_json\<close> writes, \<open>load_json\<close> reads back: for a configuration of top-level keys
  with strings that need no escapes, booleans, integers, null and arrays, loading the written
  text returns true and \<open>get_key\<close> finds under every key the value \<open>reread v\<close>: strings,
  booleans and integers survive (an \<open>int\<close> becomes an \<open>int64_t\<close>), while 64-bit integers and
  arrays, which \<open>to_json\<close> writes as null, are lost.
\<close>

theorem json_roundtrip:
  assumes "cf_root c = Config_Node None (map (\<lambda>(k, v). (k, Config_Node (Some v) [])) kvs)" "distinct (map fst kvs)"
    and "\<forall>(k, v)\<in>set kvs. json_plain k \<and> writable v"
  shows "\<exists>c'. load_json junk stod path (Some (config_to_json show_double c)) Config_new = Some (Some True, c') \<and>
    (\<forall>k. get_key k (cf_root c') = map_option (\<lambda>v. Config_Node (Some (reread v)) []) (map_of kvs k))"
proof -
  let ?ms = "map (\<lambda>(k, v). (k, Config_Node (Some v) [])) kvs"
  let ?root = "fold (\<lambda>(k, m). set_key k (reread (the (node_value m)))) ?ms node_empty"
  have "parse_json junk stod (config_to_json show_double c) =
      json_loop junk stod (json_entries show_double True ?ms @ [CHR 0x0A] @ ''}'', False) [] [] node_empty"
    by (simp add: parse_json_def config_to_json_def assms(1) json_loop_open open_brace_def json_loop_skip)
  also have "\<dots> = Some (True, ?root)" using assms(3) by (intro json_loop_entries) auto
  finally have load: "load_json junk stod path (Some (config_to_json show_double c)) Config_new =
    Some (Some True, Config_new\<lparr>cf_last_content := config_to_json show_double c, cf_file_path := path, cf_root := ?root\<rparr>)"
    by (simp add: load_json_def)
  have "map_of (rev ?ms) k = map_option (\<lambda>v. Config_Node (Some v) []) (map_of kvs k)" for k
  proof -
    have "distinct (map fst ?ms)" using assms(2) by (simp add: comp_def split_beta)
    then have "map_of (rev ?ms) = map_of ?ms" by (subst map_of_inject_set) (simp_all flip: rev_map)
    then show ?thesis by (simp add: map_of_map)
  qed
  then have "get_key k ?root = map_option (\<lambda>v. Config_Node (Some (reread v)) []) (map_of kvs k)" for k
    using get_key_fold_reread [of k "\<lambda>m. reread (the (node_value m))" ?ms node_empty]
    by (simp add: get_key_def node_empty_def split: option.split)
  with load show ?thesis by simp
qed

definition sample_config :: "nat config" where
  "sample_config = Config_new\<lparr>cf_root := Config_Node None
     [(''port'', Config_Node (Some (V_Int (- 80))) []), (''name'', Config_Node (Some (V_String ''srv'')) [])]\<rparr>"

theorem json_roundtrip_witness:
  "\<exists>c'. load_json (CHR 0x00) (\<lambda>_. None) ''f'' (Some (config_to_json (\<lambda>_. []) sample_config)) (Config_new :: nat config) = Some (Some True, c') \<and>
    get_key ''port'' (cf_root c') = Some (Config_Node (Some (V_Int64 (- 80))) []) \<and>
    get_key ''name'' (cf_root c') = Some (Config_Node (Some (V_String ''srv'')) [])"
proof -
  let ?kvs = "[(''port'', V_Int (- 80)), (''name'', V_String ''srv'')] :: (string \<times> nat config_value) list"
  have "\<exists>c'. load_json (CHR 0x00) (\<lambda>_. None) ''f'' (Some (config_to_json (\<lambda>_. []) sample_config)) (Config_new :: nat config) = Some (Some True, c') \<and>
    (\<forall>k. get_key k (cf_root c') = map_option (\<lambda>v. Config_Node (Some (reread v)) []) (map_of ?kvs k))"
    by (rule json_roundtrip) (simp_all add: sample_config_def json_plain_def writable_def)
  then show ?thesis by (elim exE, intro exI) (auto simp: reread_def)
qed

text \<open>
  C33: The JSON reader returns on every text without an opening bracket, however malformed:
  \<open>load_json\<close> either succeeds or throws, it never runs forever.
\<close>

theorem json_load_terminates:
  assumes "CHR ''['' \<notin> set text"
  shows "\<exists>r c'. load_json junk stod path (Some text) c = Some (r, c') \<and> (r = Some True \<or> r = None)"
proof -
  obtain b root where "parse_json junk stod text = Some (b, root)"
    using json_loop_returns [of "(text, False)" junk stod "[]" "[]" node_empty] assms
    unfolding parse_json_def by (metis fst_conv prod.exhaust)
  then show ?thesis by (cases b) (simp_all add: load_json_def)
qed

theorem json_load_terminates_witness:
  "\<exists>r c'. load_json (CHR 0x00) (\<lambda>_. None) ''f'' (Some ''{{:}:'') (Config_new :: nat config) = Some (r, c')"
  using json_load_terminates [of "''{{:}:''" "CHR 0x00" "\<lambda>_. None" "''f''" "Config_new :: nat config"] by auto

text \<open>
  A file cut off inside an array makes \<open>load_json\<close> run forever, with an ever growing
  element list: at the end of the text the reads fail, the variable keeps its comma, and the
  loop takes that for another separator.
\<close>

theorem json_truncated_array_diverges:
  assumes "json_plain k" "json_plain s"
  shows "load_json junk stod path (Some (''{'' @ [CHR 0x22] @ k @ [CHR 0x22] @ '':['' @ [CHR 0x22] @ s @ [CHR 0x22] @ '','')) c = None"
proof -
  let ?a = "CHR ''['' # CHR 0x22 # s @ CHR 0x22 # '',''"
  have "array_loop junk (CHR ''['') [] (CHR 0x22 # s @ CHR 0x22 # '','', False) = array_loop junk (CHR '','') [s] ([], False)"
    using parse_string_plain [OF assms(2), of junk "'',''"] by (subst array_loop.simps) simp
  also have "\<dots> = array_loop junk (CHR '','') [s, []] ([], True)" by (subst array_loop.simps) (simp add: parse_string_def)
  also have "\<dots> = None" by (rule array_loop_diverges)
  finally have "read_value junk stod (?a, False) = None" by (simp add: read_value_def parse_value_def)
  moreover have "read_key junk (CHR 0x22 # k @ CHR 0x22 # CHR '':'' # ?a, False) = (k, CHR '':'', (?a, False))"
    using assms(1) by (simp add: read_key_def parse_string_plain)
  ultimately have "json_loop junk stod (CHR 0x22 # k @ CHR 0x22 # CHR '':'' # ?a, False) stack key root = None" for stack key root
    by (subst json_loop.simps) simp
  then show ?thesis by (simp add: load_json_def parse_json_def json_loop_open)
qed

theorem json_truncated_array_diverges_witness:
  "load_json (CHR 0x00) (\<lambda>_. None) ''f''
     (Some (''{'' @ [CHR 0x22] @ ''k'' @ [CHR 0x22] @ '':['' @ [CHR 0x22] @ ''a'' @ [CHR 0x22] @ '',''))
     (Config_new :: nat config) = None"
  by (rule json_truncated_array_diverges) (simp_all add: json_plain_def)

lemma json_loop_no_quote:
  "CHR 0x22 \<notin> set s \<Longrightarrow> json_loop junk stod (s, False) stack key root = Some (True, root)"
proof (induction s arbitrary: stack key)
  case (Cons c s)
  then show ?case
    by (cases "c = CHR ''{''"; cases "c = CHR ''}''") (auto simp: json_loop_open json_loop_close json_loop_skip)
qed simp

text \<open>
  Hot reloading an INI file empties the configuration: \<open>poll_changes\<close> reads the changed
  file as JSON, whatever loaded it, so that after any change of its size every key is gone; the
  watchers are told about the reload all the same.
\<close>

theorem hot_reload_of_ini_clears:
  assumes "cf_file_path c \<noteq> []" "length text \<noteq> length (cf_last_content c)" "CHR 0x22 \<notin> set text"
  shows "\<exists>c'. poll_changes junk stod (Some text) c = Some (map (\<lambda>cb. (cb, cf_file_path c)) (cf_watchers c), c') \<and>
    get_key k (cf_root c') = None \<and> cf_last_content c' = text"
proof -
  have "parse_json junk stod text = Some (True, node_empty)"
    using json_loop_no_quote [OF assms(3)] by (simp add: parse_json_def)
  with assms show ?thesis by (simp add: poll_changes_def Let_def get_key_def node_empty_def)
qed

theorem hot_reload_of_ini_clears_witness:
  "\<exists>c'. poll_changes (CHR 0x00) (\<lambda>_. None) (Some ''port=8080'') (snd (load_ini ''f'' (Some ''port=80'') (Config_new :: nat config))) = Some ([], c') \<and>
    get_key ''port'' (cf_root c') = None"
  using hot_reload_of_ini_clears [of "snd (load_ini ''f'' (Some ''port=80'') (Config_new :: nat config))" "''port=8080''"
      "CHR 0x00" "\<lambda>_. None" "''port''"]
  by (auto simp: load_ini_def Config_new_def)

end
