(* ===== verification/Config_Types.thy ===== *)
theory Config_Types
  imports Config_Json
begin

text \<open>
  The alternatives of \<open>ConfigValue\<close> (\<open>src/base/config/config.h\<close>) that end up in the trees the JSON reader
  builds, whatever text it is given, and what the accessors of \<open>ConfigNode\<close> make of them.
\<close>

section \<open>Types of the values read\<close>

text \<open>
  Integers are always \<open>int64_t\<close>, and every node below the root has a value. Keys are distinct.
\<close>

fun json_value :: "'d config_value \<Rightarrow> bool" where
  "json_value (V_Int n) = False"
| "json_value (V_Ints ns) = False"
| "json_value (V_Int64 n) = (- (2 ^ 63) \<le> n \<and> n < 2 ^ 63)"
| "json_value (V_Int64s ns) = (\<forall>n\<in>set ns. - (2 ^ 63) \<le> n \<and> n < 2 ^ 63)"
| "json_value _ = True"

definition has_json_value :: "'d config_node \<Rightarrow> bool" where
  "has_json_value n = (case node_value n of None \<Rightarrow> False | Some x \<Rightarrow> json_value x)"

function (sequential) json_node :: "'d config_node \<Rightarrow> bool" where
  "json_node (Config_Node v kvs) \<longleftrightarrow> um_wf kvs \<and> (\<forall>kv\<in>set kvs. has_json_value (snd kv) \<and> json_node (snd kv))"
  by pat_completeness auto
termination
proof (relation "measure size")
  fix v :: "'d config_value option" and kvs :: "(string \<times> 'd config_node) list" and kv
  assume "kv \<in> set kvs"
  then have "size (snd kv) < Suc (size_list (size_prod (\<lambda>_. 0) size) kvs)"
    by (induction kvs) auto
  then show "(snd kv, Config_Node v kvs) \<in> measure size" by simp
qed simp

lemma json_node_child:
  "json_node n \<Longrightarrow> get_key k n = Some m \<Longrightarrow> has_json_value m \<and> json_node m"
  by (cases n) (auto simp: get_key_def dest!: map_of_SomeD)

lemma json_node_set:
  "json_node n \<Longrightarrow> has_json_value m \<Longrightarrow> json_node m \<Longrightarrow>
   json_node (Config_Node (node_value n) (um_set k m (node_children n)))"
  by (cases n) (auto simp: um_set_mem)

lemma json_node_set_key: "json_node n \<Longrightarrow> json_value v \<Longrightarrow> json_node (set_key k v n)"
  unfolding set_key_def by (rule json_node_set) (simp_all add: has_json_value_def)

lemma update_at_value: "(\<And>n. node_value (f n) = node_value n) \<Longrightarrow> node_value (update_at ks f n) = node_value n"
  by (cases ks) (simp_all split: option.split)

lemma json_node_update_at:
  assumes "\<And>n. json_node n \<Longrightarrow> json_node (f n)" "\<And>n. node_value (f n) = node_value n"
  shows "json_node n \<Longrightarrow> json_node (update_at ks f n)"
proof (induction ks arbitrary: n)
  case (Cons k ks)
  show ?case
  proof (cases "get_key k n")
    case (Some m)
    with json_node_child [OF Cons.prems] have "has_json_value m" "json_node m" by auto
    moreover then have "has_json_value (update_at ks f m)"
      using update_at_value [of f ks m] assms(2) by (simp add: has_json_value_def)
    ultimately have "json_node (Config_Node (node_value n) (um_set k (update_at ks f m) (node_children n)))"
      using Cons by (intro json_node_set) simp_all
    with Some show ?thesis by simp
  qed (use Cons.prems in simp)
qed (simp add: assms(1))

lemma in_range_Some: "in_range 64 n = Some m \<Longrightarrow> - (2 ^ 63) \<le> m \<and> m < 2 ^ 63"
  by (auto simp: in_range_def split: if_splits)

lemma stoll_range: "stoll s = Some n \<Longrightarrow> - (2 ^ 63) \<le> n \<and> n < 2 ^ 63"
  using in_range_Some by (auto simp: stoll_def bind_eq_Some_conv)

lemma stoi_stoll: "stoi s = Some n \<Longrightarrow> stoll s = Some n"
proof -
  assume "stoi s = Some n"
  then obtain k where k: "parse_signed s = Some k" "in_range 32 k = Some n" by (auto simp: stoi_def bind_eq_Some_conv)
  then have "n = k" "- (2 ^ 31) \<le> k" "k < 2 ^ 31" by (simp_all add: in_range_def split: if_splits)
  then have "in_range 64 k = Some n" by (simp add: in_range_def)
  with k(1) show ?thesis by (simp add: stoll_def)
qed

lemma array_value_type: "array_value stod arr = Some v \<Longrightarrow> json_value v"
proof -
  assume v: "array_value stod arr = Some v"
  have "- (2 ^ 63) \<le> the (stoll s) \<and> the (stoll s) < 2 ^ 63" if "stoi s \<noteq> None" for s
    using that stoi_stoll stoll_range by (metis not_None_eq option.sel)
  with v show ?thesis by (auto simp: array_value_def split: if_splits)
qed

lemma token_value_type: "token_value stod tok = Some v \<Longrightarrow> json_value v"
  using stoll_range by (auto simp: token_value_def split: if_splits)

lemma parse_value_type: "parse_value junk stod is = Some (Some v, is') \<Longrightarrow> json_value v"
  using array_value_type token_value_type
  by (auto simp: parse_value_def split_beta Let_def split: if_splits)

lemma read_value_type: "read_value junk stod is = Some (Some v, is') \<Longrightarrow> json_value v"
  using parse_value_type by (fastforce simp: read_value_def split_beta)

lemma json_node_update_key:
  "json_node root \<Longrightarrow> json_value v \<Longrightarrow> json_node (update_at stack (set_key k v) root)"
  by (rule json_node_update_at) (simp_all add: json_node_set_key, simp add: set_key_def)

lemma json_loop_type:
  assumes "json_loop junk stod st stack key root = Some r" "json_node root"
  shows "json_node (snd r)"
proof -
  have "json_node root \<longrightarrow> json_node (snd r)"
    using assms(1)
  proof (rule json_loop.raw_induct [where P = "\<lambda>junk stod st stack key root r. json_node root \<longrightarrow> json_node (snd r)", rotated])
    fix loop :: "char \<Rightarrow> (string \<Rightarrow> 'a option) \<Rightarrow> istream \<Rightarrow> string list \<Rightarrow> string \<Rightarrow> 'a config_node \<Rightarrow> (bool \<times> 'a config_node) option"
      and junk stod st stack key root r
    assume IH: "\<And>junk stod st stack key root r. loop junk stod st stack key root = Some r \<Longrightarrow>
        json_node root \<longrightarrow> json_node (snd r)"
      and eq: "(let (c, is1) = is_get junk st in
        if snd is1 then Some (True, root)
        else if json_ws c then loop junk stod is1 stack key root
        else if c = CHR ''{'' then loop junk stod is1 (open_brace stack key root) [] root
        else if c = CHR ''}'' then loop junk stod is1 (close_brace stack) [] root
        else if c = CHR 0x22 then
          (let (key', c2, is2) = read_key junk (is_putback c is1) in
           if c2 = CHR '':'' then
             (case read_value junk stod is2 of
                None \<Rightarrow> None
              | Some (v, is3) \<Rightarrow>
                  (case v of
                     None \<Rightarrow> Some (False, root)
                   | Some x \<Rightarrow> loop junk stod is3 stack key' (update_at stack (set_key key' x) root)))
           else loop junk stod is2 stack key root)
        else loop junk stod is1 stack key root) = Some r"
    show "json_node root \<longrightarrow> json_node (snd r)"
      using eq
      by (auto simp: split_beta Let_def dest!: IH read_value_type dest: json_node_update_key
          split: if_splits option.splits)
  qed
  with assms(2) show ?thesis by blast
qed

section \<open>What the accessors make of them\<close>

lemma load_json_root:
  assumes "load_json junk stod path (Some text) c = Some (r, c')"
  shows "json_node (cf_root c')"
proof -
  obtain b root where "parse_json junk stod text = Some (b, root)" "cf_root c' = root"
    using assms by (auto simp: load_json_def)
  moreover have "json_node node_empty" by (simp add: node_empty_def)
  ultimately show ?thesis using json_loop_type by (fastforce simp: parse_json_def)
qed

lemma config_get_from_type:
  "config_get_from path n = Some m \<Longrightarrow> json_node n \<Longrightarrow> has_json_value n \<or> path \<noteq> [] \<Longrightarrow> has_json_value m"
proof (induction path n rule: config_get_from.induct)
  case (1 path cur)
  show ?case
  proof (cases "path = []")
    case True
    with 1 show ?thesis by (simp add: config_get_from.simps)
  next
    case False
    let ?rest = "dropWhile (\<lambda>c. c \<noteq> CHR ''.'') path"
    obtain n where n: "get_key (takeWhile (\<lambda>c. c \<noteq> CHR ''.'') path) cur = Some n"
      using 1(2) False by (auto simp: config_get_from.simps [of path] Let_def split: option.splits)
    then have t: "has_json_value n" "json_node n" using json_node_child [OF 1(3)] by auto
    show ?thesis
    proof (cases "?rest = []")
      case True
      with 1(2) False n t(1) show ?thesis by (simp add: config_get_from.simps [of path])
    next
      case rest: False
      with 1(2) False n have "config_get_from (tl ?rest) n = Some m"
        by (auto simp: config_get_from.simps [of path] split: if_splits)
      from 1(1) [OF False refl refl n rest this t(2)] t(1) show ?thesis by blast
    qed
  qed
qed

section \<open>Properties\<close>

text \<open>
  C31: Whatever text the JSON reader is given, if it ends, with or without an exception, the tree it
  leaves is well typed: keys are distinct, and every value that a path finds is null, a
  boolean, an \<open>int64_t\<close> in range, a floating-point number, a string or an array of one of the last three
  kinds. In particular \<open>is_int\<close> holds of no value that was read, and \<open>as_int64\<close> of an integer read returns it.
\<close>

theorem json_load_typed:
  assumes "load_json junk stod path (Some text) c = Some (r, c')" "config_get key c' = Some n" "key \<noteq> []"
  shows "json_node (cf_root c') \<and> (\<exists>v. node_value n = Some v \<and> json_value v \<and> (\<forall>k. v \<noteq> V_Int k) \<and>
    (\<forall>k. v = V_Int64 k \<longrightarrow> value_as_int64 trunc v = Some k \<and> - (2 ^ 63) \<le> k \<and> k < 2 ^ 63))"
proof -
  have j: "json_node (cf_root c')" by (rule load_json_root [OF assms(1)])
  have "config_get_from key (cf_root c') = Some n" using assms(2) by (simp add: config_get_def)
  from config_get_from_type [OF this j] assms(3) have "has_json_value n" by blast
  then obtain v where "node_value n = Some v" "json_value v" by (auto simp: has_json_value_def split: option.splits)
  with j show ?thesis by (auto simp: value_as_int64_def)
qed

definition port_text :: string where
  "port_text = ''{'' @ [CHR 0x22] @ ''port'' @ [CHR 0x22] @ '': 80}''"

lemma load_port:
  "load_json (CHR 0x00) (\<lambda>_. None) ''f'' (Some port_text) (Config_new :: nat config) =
     Some (Some True, Config_new\<lparr>cf_last_content := port_text, cf_file_path := ''f'',
       cf_root := Config_Node None [(''port'', Config_Node (Some (V_Int64 80)) [])]\<rparr>)"
proof -
  have "parse_json (CHR 0x00) (\<lambda>_. None :: nat option) port_text =
      Some (True, Config_Node None [(''port'', Config_Node (Some (V_Int64 80)) [])])"
    by code_simp
  then show ?thesis by (simp add: load_json_def)
qed

theorem json_load_typed_witness:
  "\<exists>c' n. load_json (CHR 0x00) (\<lambda>_. None) ''f'' (Some port_text) (Config_new :: nat config) = Some (Some True, c') \<and>
     config_get ''port'' c' = Some n \<and> node_value n = Some (V_Int64 80) \<and> json_node (cf_root c')"
proof -
  let ?c = "Config_new\<lparr>cf_last_content := port_text, cf_file_path := ''f'',
      cf_root := Config_Node None [(''port'', Config_Node (Some (V_Int64 80)) [])]\<rparr> :: nat config"
  have "config_get ''port'' ?c = Some (Config_Node (Some (V_Int64 80)) [])"
    by (simp add: config_get_def config_get_from.simps get_key_def)
  with json_load_typed [OF load_port this] load_port show ?thesis by fastforce
qed

end
