(* ===== verification/Message_Queue.thy ===== *)
theory Message_Queue
  imports Tables "HOL-Library.Word"
begin

text \<open>
  Classes \<open>MessageQueue\<close> and \<open>SubscribeHub\<close> (\<open>src/base/message_queue/message_queue.h\<close>,
  \<open>message_queue.cpp\<close>). A message is its run-time type and its data. Receiving from an empty
  queue without a time limit blocks, which is \<open>None\<close>; with a limit it fails. The locale
  \<open>fifo\<close> is the contract of a queue whose users only send and take.
\<close>

section \<open>First in, first out\<close>

locale fifo =
  fixes enq :: "'x \<Rightarrow> 's \<Rightarrow> 's"
    and deq :: "'s \<Rightarrow> ('x \<times> 's) option"
    and contents :: "'s \<Rightarrow> 'x list"
  assumes enq_contents: "contents (enq x s) = contents s @ [x]"
    and deq_empty: "contents s = [] \<Longrightarrow> deq s = None"
    and deq_front: "contents s = x # xs \<Longrightarrow> \<exists>s'. deq s = Some (x, s') \<and> contents s' = xs"
begin

lemma enq_all: "contents (fold enq xs s) = contents s @ xs"
  by (induction xs arbitrary: s) (simp_all add: enq_contents)

lemma deq_after_enq:
  "contents s = [] \<Longrightarrow> \<exists>s'. deq (fold enq (x # xs) s) = Some (x, s') \<and> contents s' = xs"
  using deq_front [of "fold enq (x # xs) s" x xs] enq_all [of "x # xs" s] by simp

end

section \<open>MessageQueue\<close>

record ('ty, 'd) message =
  msg_type :: 'ty
  msg_data :: 'd

record ('ty, 'd) message_queue =
  mq_queue :: "('ty, 'd) message list"

definition MessageQueue_new :: "('ty, 'd) message_queue" where
  "MessageQueue_new = \<lparr>mq_queue = []\<rparr>"

definition mq_send :: "('ty, 'd) message \<Rightarrow> ('ty, 'd) message_queue \<Rightarrow> ('ty, 'd) message_queue" where
  "mq_send m q = q\<lparr>mq_queue := mq_queue q @ [m]\<rparr>"

text \<open>Taking the front under the mutex, common to the receiving functions.\<close>

definition mq_pop :: "('ty, 'd) message_queue \<Rightarrow> (('ty, 'd) message \<times> ('ty, 'd) message_queue) option" where
  "mq_pop q = (case mq_queue q of [] \<Rightarrow> None | m # ms \<Rightarrow> Some (m, q\<lparr>mq_queue := ms\<rparr>))"

text \<open>The data written to \<open>out\<close>, if the call returns true; the queue afterwards.\<close>

definition mq_recv :: "'ty \<Rightarrow> int \<Rightarrow> ('ty, 'd) message_queue \<Rightarrow> ('d option \<times> ('ty, 'd) message_queue) option" where
  "mq_recv ty timeout_ms q =
     (case mq_pop q of
        None \<Rightarrow> if timeout_ms < 0 then None else Some (None, q)
      | Some (m, q') \<Rightarrow> Some (if msg_type m \<noteq> ty then None else Some (msg_data m), q'))"

definition mq_try_recv :: "'ty \<Rightarrow> ('ty, 'd) message_queue \<Rightarrow> 'd option \<times> ('ty, 'd) message_queue" where
  "mq_try_recv ty q =
     (case mq_pop q of
        None \<Rightarrow> (None, q)
      | Some (m, q') \<Rightarrow> (if msg_type m \<noteq> ty then None else Some (msg_data m), q'))"

definition mq_size :: "('ty, 'd) message_queue \<Rightarrow> nat" where
  "mq_size q = length (mq_queue q)"

definition mq_empty :: "('ty, 'd) message_queue \<Rightarrow> bool" where
  "mq_empty q \<longleftrightarrow> mq_queue q = []"

definition mq_clear :: "('ty, 'd) message_queue \<Rightarrow> ('ty, 'd) message_queue" where
  "mq_clear q = q\<lparr>mq_queue := []\<rparr>"

interpretation mq: fifo mq_send mq_pop mq_queue
  by unfold_locales (auto simp: mq_send_def mq_pop_def)

section \<open>SubscribeHub\<close>

text \<open>
  The stored callbacks are pairs of a number and a function, as the code means them
  (\<open>push_back\<close> of a pair into a vector of \<open>AnyCallback\<close> does not compile as written). The
  counter is a 32-bit integer; the model wraps, where C++ leaves the overflow after \<open>2^31 - 1\<close>
  subscriptions open.
\<close>

type_synonym sub_id = "32 word"

record ('ty, 'c) hub =
  hub_callbacks :: "('ty, (sub_id \<times> 'c) list) umap"
  hub_next_id :: sub_id

definition Hub_new :: "('ty, 'c) hub" where
  "Hub_new = \<lparr>hub_callbacks = [], hub_next_id = 1\<rparr>"

definition subscribers :: "'ty \<Rightarrow> ('ty, 'c) hub \<Rightarrow> (sub_id \<times> 'c) list" where
  "subscribers ty h = (case um_find (hub_callbacks h) ty of None \<Rightarrow> [] | Some cs \<Rightarrow> cs)"

text \<open>The parts of \<open>subscribe\<close>: storing the incremented counter, and the append under the mutex.\<close>

definition store_next :: "sub_id \<Rightarrow> ('ty, 'c) hub \<Rightarrow> ('ty, 'c) hub" where
  "store_next i h = h\<lparr>hub_next_id := i + 1\<rparr>"

definition append_callback :: "'ty \<Rightarrow> sub_id \<Rightarrow> 'c \<Rightarrow> ('ty, 'c) hub \<Rightarrow> ('ty, 'c) hub" where
  "append_callback ty i cb h = h\<lparr>hub_callbacks := um_set ty (subscribers ty h @ [(i, cb)]) (hub_callbacks h)\<rparr>"

fun erase_sub :: "sub_id \<Rightarrow> (sub_id \<times> 'c) list \<Rightarrow> bool \<times> (sub_id \<times> 'c) list" where
  "erase_sub i [] = (False, [])"
| "erase_sub i (p # ps) = (if fst p = i then (True, ps) else let (r, qs) = erase_sub i ps in (r, p # qs))"

definition hub_unsubscribe :: "'ty \<Rightarrow> sub_id \<Rightarrow> ('ty, 'c) hub \<Rightarrow> bool \<times> ('ty, 'c) hub" where
  "hub_unsubscribe ty i h =
     (case um_find (hub_callbacks h) ty of
        None \<Rightarrow> (False, h)
      | Some cs \<Rightarrow> (let (r, cs') = erase_sub i cs
                    in if r then (True, h\<lparr>hub_callbacks := um_set ty cs' (hub_callbacks h)\<rparr>) else (False, h)))"

text \<open>
  The hub as its threads use it. \<open>subscribe\<close> loads \<open>next_sub_id_\<close> and stores the successor without the mutex
  and then appends under it; \<open>unsubscribe\<close> is one critical section; \<open>publish\<close> takes the
  mutex, calls the callbacks one after the other, exceptions swallowed, and lets the mutex go at the end. A callback for which
  \<open>uses_hub\<close> holds calls an operation that locks the same mutex: its thread never goes on (\<open>Relocking\<close>).
  \<open>hs_calls\<close> records the calls made, with the message.
\<close>

datatype ('ty, 'c, 'm) hub_pc =
    Idle
  | Loaded 'ty 'c sub_id
  | Numbered 'ty 'c sub_id
  | Publishing 'm "'c list"
  | Relocking 'm "'c list"

record ('ty, 'c, 'm) hub_state =
  hs_hub :: "('ty, 'c) hub"
  hs_lock :: "nat option"
  hs_pc :: "nat \<Rightarrow> ('ty, 'c, 'm) hub_pc"
  hs_calls :: "('c \<times> 'm) list"

definition hub_start :: "('ty, 'c, 'm) hub_state" where
  "hub_start = \<lparr>hs_hub = Hub_new, hs_lock = None, hs_pc = (\<lambda>_. Idle), hs_calls = []\<rparr>"

text \<open>What a step does to the table, as seen from outside: its place in the order of the critical sections.\<close>

datatype ('ty, 'c, 'm) hub_event =
    Internal
  | Added 'ty sub_id 'c
  | Removed 'ty sub_id bool
  | Published 'ty 'm

abbreviation set_pc :: "nat \<Rightarrow> ('ty, 'c, 'm) hub_pc \<Rightarrow> ('ty, 'c, 'm) hub_state \<Rightarrow> ('ty, 'c, 'm) hub_state" where
  "set_pc t p s \<equiv> s\<lparr>hs_pc := (hs_pc s)(t := p)\<rparr>"

inductive hub_step ::
  "('c \<Rightarrow> bool) \<Rightarrow> ('ty, 'c, 'm) hub_state \<Rightarrow> ('ty, 'c, 'm) hub_event \<Rightarrow> ('ty, 'c, 'm) hub_state \<Rightarrow> bool"
  for uses_hub where
  sub_load: "hs_pc s t = Idle \<Longrightarrow> hub_step uses_hub s Internal (set_pc t (Loaded ty cb (hub_next_id (hs_hub s))) s)"
| sub_store: "hs_pc s t = Loaded ty cb i \<Longrightarrow>
    hub_step uses_hub s Internal (set_pc t (Numbered ty cb i) (s\<lparr>hs_hub := store_next i (hs_hub s)\<rparr>))"
| sub_append: "hs_pc s t = Numbered ty cb i \<Longrightarrow> hs_lock s = None \<Longrightarrow>
    hub_step uses_hub s (Added ty i cb) (set_pc t Idle (s\<lparr>hs_hub := append_callback ty i cb (hs_hub s)\<rparr>))"
| unsub: "hs_pc s t = Idle \<Longrightarrow> hs_lock s = None \<Longrightarrow> hub_unsubscribe ty i (hs_hub s) = (r, h') \<Longrightarrow>
    hub_step uses_hub s (Removed ty i r) (s\<lparr>hs_hub := h'\<rparr>)"
| pub_lock: "hs_pc s t = Idle \<Longrightarrow> hs_lock s = None \<Longrightarrow>
    hub_step uses_hub s (Published ty m)
      (set_pc t (Publishing m (map snd (subscribers ty (hs_hub s)))) (s\<lparr>hs_lock := Some t\<rparr>))"
| pub_call: "hs_pc s t = Publishing m (c # cs) \<Longrightarrow>
    hub_step uses_hub s Internal
      (set_pc t (if uses_hub c then Relocking m cs else Publishing m cs) (s\<lparr>hs_calls := hs_calls s @ [(c, m)]\<rparr>))"
| pub_unlock: "hs_pc s t = Publishing m [] \<Longrightarrow>
    hub_step uses_hub s Internal (set_pc t Idle (s\<lparr>hs_lock := None\<rparr>))"

inductive hub_run ::
  "('c \<Rightarrow> bool) \<Rightarrow> ('ty, 'c, 'm) hub_event list \<Rightarrow> ('ty, 'c, 'm) hub_state \<Rightarrow> bool"
  for uses_hub where
  run_start: "hub_run uses_hub [] hub_start"
| run_step: "hub_run uses_hub evs s \<Longrightarrow> hub_step uses_hub s e s' \<Longrightarrow> hub_run uses_hub (evs @ [e]) s'"

text \<open>
  The specification: one list of subscriptions in the order in which they were entered. Unsubscribing removes the first one with
  that type and number, and says whether there was one.
\<close>

type_synonym ('ty, 'c) sub_list = "('ty \<times> sub_id \<times> 'c) list"

fun remove_sub :: "'ty \<Rightarrow> sub_id \<Rightarrow> ('ty, 'c) sub_list \<Rightarrow> ('ty, 'c) sub_list" where
  "remove_sub ty i [] = []"
| "remove_sub ty i ((ty', j, c) # subs) = (if ty' = ty \<and> j = i then subs else (ty', j, c) # remove_sub ty i subs)"

fun spec_apply :: "('ty, 'c, 'm) hub_event \<Rightarrow> ('ty, 'c) sub_list \<Rightarrow> ('ty, 'c) sub_list" where
  "spec_apply (Added ty i cb) subs = subs @ [(ty, i, cb)]"
| "spec_apply (Removed ty i r) subs = remove_sub ty i subs"
| "spec_apply _ subs = subs"

fun spec_answer :: "('ty, 'c, 'm) hub_event \<Rightarrow> ('ty, 'c) sub_list \<Rightarrow> bool" where
  "spec_answer (Removed ty i r) subs \<longleftrightarrow> r = (\<exists>cb. (ty, i, cb) \<in> set subs)"
| "spec_answer _ subs \<longleftrightarrow> True"

fun spec_calls :: "('ty, 'c, 'm) hub_event \<Rightarrow> ('ty, 'c) sub_list \<Rightarrow> ('c \<times> 'm) list" where
  "spec_calls (Published ty m) subs = [(c, m). (ty', _, c) \<leftarrow> subs, ty' = ty]"
| "spec_calls _ subs = []"

text \<open>The answers and the calls of a whole history.\<close>

fun history_answers :: "('ty, 'c, 'm) hub_event list \<Rightarrow> ('ty, 'c) sub_list \<Rightarrow> bool" where
  "history_answers [] subs \<longleftrightarrow> True"
| "history_answers (e # es) subs \<longleftrightarrow> spec_answer e subs \<and> history_answers es (spec_apply e subs)"

fun history_calls :: "('ty, 'c, 'm) hub_event list \<Rightarrow> ('ty, 'c) sub_list \<Rightarrow> ('c \<times> 'm) list" where
  "history_calls [] subs = []"
| "history_calls (e # es) subs = spec_calls e subs @ history_calls es (spec_apply e subs)"

lemma history_answers_snoc:
  "history_answers (es @ [e]) subs \<longleftrightarrow> history_answers es subs \<and> spec_answer e (fold spec_apply es subs)"
  by (induction es arbitrary: subs) auto

lemma history_calls_snoc:
  "history_calls (es @ [e]) subs = history_calls es subs @ spec_calls e (fold spec_apply es subs)"
  by (induction es arbitrary: subs) auto

text \<open>The subscriptions to a type, and how the operations on the table act on them.\<close>

abbreviation subs_of :: "'ty \<Rightarrow> ('ty, 'c) sub_list \<Rightarrow> (sub_id \<times> 'c) list" where
  "subs_of ty subs \<equiv> map snd (filter (\<lambda>p. fst p = ty) subs)"

lemma subscribers_append:
  "subscribers ty' (append_callback ty i cb h) =
   (if ty' = ty then subscribers ty h @ [(i, cb)] else subscribers ty' h)"
  by (simp add: append_callback_def subscribers_def)

lemma subscribers_store [simp]: "subscribers ty (store_next i h) = subscribers ty h"
  by (simp add: store_next_def subscribers_def)

lemma erase_sub_spec:
  "erase_sub i (subs_of ty subs) = ((\<exists>cb. (ty, i, cb) \<in> set subs), subs_of ty (remove_sub ty i subs))"
  by (induction ty i subs rule: remove_sub.induct) auto

lemma remove_other_type: "ty' \<noteq> ty \<Longrightarrow> subs_of ty' (remove_sub ty i subs) = subs_of ty' subs"
  by (induction ty i subs rule: remove_sub.induct) auto

lemma remove_absent: "\<forall>cb. (ty, i, cb) \<notin> set subs \<Longrightarrow> remove_sub ty i subs = subs"
  by (induction ty i subs rule: remove_sub.induct) auto

lemma unsubscribe_refines:
  assumes "\<And>t. subscribers t h = subs_of t subs" "hub_unsubscribe ty i h = (r, h')"
  shows "r = (\<exists>cb. (ty, i, cb) \<in> set subs)" "subscribers t h' = subs_of t (remove_sub ty i subs)"
proof -
  have *: "r = (\<exists>cb. (ty, i, cb) \<in> set subs) \<and> subscribers t h' = subs_of t (remove_sub ty i subs)"
  proof (cases "um_find (hub_callbacks h) ty")
    case None
    then have "subs_of ty subs = []" using assms(1) [of ty] by (simp add: subscribers_def)
    then have no: "\<forall>cb. (ty, i, cb) \<notin> set subs" by (auto simp: filter_empty_conv)
    moreover have "h' = h" "\<not> r" using assms(2) None by (auto simp: hub_unsubscribe_def)
    ultimately show ?thesis using assms(1) [of t] remove_absent [OF no] by simp
  next
    case (Some cs)
    then have "cs = subs_of ty subs" using assms(1) [of ty] by (simp add: subscribers_def)
    then have e: "erase_sub i cs = ((\<exists>cb. (ty, i, cb) \<in> set subs), subs_of ty (remove_sub ty i subs))"
      by (simp add: erase_sub_spec)
    show ?thesis
    proof (cases "\<exists>cb. (ty, i, cb) \<in> set subs")
      case True
      then have "r" "h' = h\<lparr>hub_callbacks := um_set ty (subs_of ty (remove_sub ty i subs)) (hub_callbacks h)\<rparr>"
        using assms(2) Some e by (auto simp: hub_unsubscribe_def)
      then show ?thesis using True assms(1) [of t] remove_other_type [of t ty i subs]
        by (cases "t = ty") (simp_all add: subscribers_def)
    next
      case False
      then have "\<not> r" "h' = h" using assms(2) Some e by (auto simp: hub_unsubscribe_def)
      then show ?thesis using False assms(1) [of t] remove_absent [of ty i subs] by simp
    qed
  qed
  then show "r = (\<exists>cb. (ty, i, cb) \<in> set subs)" "subscribers t h' = subs_of t (remove_sub ty i subs)" by simp_all
qed

text \<open>The calls a publishing thread has still to make, and the invariant: only the owner of the mutex publishes.\<close>

definition pending_calls :: "('ty, 'c, 'm) hub_state \<Rightarrow> ('c \<times> 'm) list" where
  "pending_calls s =
     (case hs_lock s of
        None \<Rightarrow> []
      | Some t \<Rightarrow> (case hs_pc s t of Publishing m cs \<Rightarrow> map (\<lambda>c. (c, m)) cs | Relocking m cs \<Rightarrow> map (\<lambda>c. (c, m)) cs | _ \<Rightarrow> []))"

fun in_publish :: "('ty, 'c, 'm) hub_pc \<Rightarrow> bool" where
  "in_publish (Publishing m cs) \<longleftrightarrow> True"
| "in_publish (Relocking m cs) \<longleftrightarrow> True"
| "in_publish _ \<longleftrightarrow> False"

definition owner_publishes :: "('ty, 'c, 'm) hub_state \<Rightarrow> bool" where
  "owner_publishes s \<longleftrightarrow> (\<forall>t. in_publish (hs_pc s t) \<longleftrightarrow> hs_lock s = Some t)"

lemma owner_publishes_step:
  assumes "hub_step uses_hub s e s'" "owner_publishes s"
  shows "owner_publishes s'"
proof -
  have o: "in_publish (hs_pc s t) \<longleftrightarrow> hs_lock s = Some t" for t using assms(2) by (simp add: owner_publishes_def)
  have "in_publish (hs_pc s' t) \<longleftrightarrow> hs_lock s' = Some t" for t
    using assms(1) o [of t] by (cases rule: hub_step.cases) (use o in \<open>force split: if_splits\<close>)+
  then show ?thesis by (simp add: owner_publishes_def)
qed

lemma owner_publishes_run: "hub_run uses_hub evs s \<Longrightarrow> owner_publishes s"
  by (induction rule: hub_run.induct) (auto simp: owner_publishes_def hub_start_def dest: owner_publishes_step [unfolded owner_publishes_def])

lemma spec_calls_of: "spec_calls (Published ty m) subs = map (\<lambda>c. (c, m)) (map snd (subs_of ty subs))"
  by (induction subs) auto

definition hub_refines :: "('ty, 'c, 'm) hub_event list \<Rightarrow> ('ty, 'c, 'm) hub_state \<Rightarrow> bool" where
  "hub_refines evs s \<longleftrightarrow>
     (\<forall>ty. subscribers ty (hs_hub s) = subs_of ty (fold spec_apply evs [])) \<and>
     history_answers evs [] \<and> hs_calls s @ pending_calls s = history_calls evs []"

lemma pending_calls_same:
  "hs_lock s' = hs_lock s \<Longrightarrow> (\<And>t. hs_lock s = Some t \<Longrightarrow> hs_pc s' t = hs_pc s t) \<Longrightarrow> pending_calls s' = pending_calls s"
  by (simp add: pending_calls_def split: option.splits)

lemma owner_not_idle: "owner_publishes s \<Longrightarrow> hs_lock s = Some t \<Longrightarrow> in_publish (hs_pc s t)"
  by (simp add: owner_publishes_def)

lemma hub_refines_step:
  assumes "hub_step uses_hub s e s'" "owner_publishes s" "hub_refines evs s"
  shows "hub_refines (evs @ [e]) s'"
  using assms(1)
proof (cases rule: hub_step.cases)
  case (sub_load t ty cb)
  then have "pending_calls s' = pending_calls s"
    by (intro pending_calls_same) (use assms(2) in \<open>auto dest: owner_not_idle\<close>)
  with sub_load assms(3) show ?thesis by (simp add: hub_refines_def history_answers_snoc history_calls_snoc)
next
  case (sub_store t ty cb i)
  then have "pending_calls s' = pending_calls s"
    by (intro pending_calls_same) (use assms(2) in \<open>auto dest: owner_not_idle\<close>)
  with sub_store assms(3) show ?thesis by (simp add: hub_refines_def history_answers_snoc history_calls_snoc)
next
  case (sub_append t ty cb i)
  then have "pending_calls s' = []" "pending_calls s = []" by (simp_all add: pending_calls_def)
  with sub_append assms(3) show ?thesis
    by (simp add: hub_refines_def history_answers_snoc history_calls_snoc subscribers_append)
next
  case (unsub t ty i r h')
  from assms(3) have r: "subscribers t (hs_hub s) = subs_of t (fold spec_apply evs [])" for t by (simp add: hub_refines_def)
  from unsub have "pending_calls s' = []" "pending_calls s = []" by (simp_all add: pending_calls_def)
  with unsub assms(3) unsubscribe_refines [OF r] show ?thesis
    by (simp add: hub_refines_def history_answers_snoc history_calls_snoc)
next
  case (pub_lock t ty m)
  then have "pending_calls s' = map (\<lambda>c. (c, m)) (map snd (subscribers ty (hs_hub s)))" "pending_calls s = []"
    by (simp_all add: pending_calls_def)
  with pub_lock assms(3) show ?thesis
    by (simp add: hub_refines_def history_answers_snoc history_calls_snoc spec_calls_of del: spec_calls.simps(1))
next
  case (pub_call t m c cs)
  then have "hs_lock s = Some t" using assms(2) by (metis owner_publishes_def in_publish.simps(1))
  with pub_call have "pending_calls s = (c, m) # pending_calls s'" by (simp add: pending_calls_def)
  with pub_call assms(3) show ?thesis by (simp add: hub_refines_def history_answers_snoc history_calls_snoc)
next
  case (pub_unlock t m)
  then have "hs_lock s = Some t" using assms(2) by (metis owner_publishes_def in_publish.simps(1))
  with pub_unlock have "pending_calls s = []" "pending_calls s' = []" by (simp_all add: pending_calls_def)
  with pub_unlock assms(3) show ?thesis by (simp add: hub_refines_def history_answers_snoc history_calls_snoc)
qed

lemma hub_refines_run: "hub_run uses_hub evs s \<Longrightarrow> hub_refines evs s"
proof (induction rule: hub_run.induct)
  case run_start
  then show ?case by (simp add: hub_refines_def hub_start_def Hub_new_def subscribers_def pending_calls_def)
qed (blast intro: hub_refines_step owner_publishes_run)

section \<open>Properties\<close>

text \<open>
  C30: The hub refines a list of subscriptions, for every interleaving of its threads. In the order of
  the critical sections, the table holds for each type the subscriptions entered and not removed since, in the order
  of their entry; \<open>unsubscribe\<close> answers whether a subscription with that type and number is present, and removes the
  first such one (numbers may coincide); and the calls made, with those a running \<open>publish\<close> has still to make, are for each
  \<open>publish\<close> in turn the callbacks of its type at that moment, each once, in the order of entry.
\<close>

theorem hub_publish_refines:
  assumes "hub_run uses_hub evs s"
  shows "subscribers ty (hs_hub s) = [(i, cb). (ty', i, cb) \<leftarrow> fold spec_apply evs [], ty' = ty] \<and>
    history_answers evs [] \<and> hs_calls s @ pending_calls s = history_calls evs []"
proof -
  have "[(i, cb). (ty', i, cb) \<leftarrow> subs, ty' = ty] = subs_of ty subs" for subs :: "('b \<times> sub_id \<times> 'a) list"
    by (induction subs) auto
  with hub_refines_run [OF assms] show ?thesis by (simp add: hub_refines_def)
qed

lemma shared_number_run:
  fixes ty :: 'ty and a b :: 'c and m :: 'm
  shows "\<exists>s. hub_run uses_hub [Internal, Internal, Internal, Internal, Added ty 1 a, Added ty 1 b, Removed ty 1 True, Published ty m] s \<and>
    hs_calls s = [] \<and> pending_calls s = [(b, m)]"
proof -
  let ?s0 = "hub_start :: ('ty, 'c, 'm) hub_state"
  let ?s1 = "set_pc 0 (Loaded ty a (hub_next_id (hs_hub ?s0))) ?s0"
  let ?s2 = "set_pc 1 (Loaded ty b (hub_next_id (hs_hub ?s1))) ?s1"
  let ?s3 = "set_pc 0 (Numbered ty a 1) (?s2\<lparr>hs_hub := store_next 1 (hs_hub ?s2)\<rparr>)"
  let ?s4 = "set_pc 1 (Numbered ty b 1) (?s3\<lparr>hs_hub := store_next 1 (hs_hub ?s3)\<rparr>)"
  let ?s5 = "set_pc 0 Idle (?s4\<lparr>hs_hub := append_callback ty 1 a (hs_hub ?s4)\<rparr>)"
  let ?s6 = "set_pc 1 Idle (?s5\<lparr>hs_hub := append_callback ty 1 b (hs_hub ?s5)\<rparr>)"
  let ?s7 = "?s6\<lparr>hs_hub := snd (hub_unsubscribe ty 1 (hs_hub ?s6))\<rparr>"
  let ?s8 = "set_pc 0 (Publishing m (map snd (subscribers ty (hs_hub ?s7)))) (?s7\<lparr>hs_lock := Some 0\<rparr>)"
  note d = hub_start_def Hub_new_def store_next_def append_callback_def subscribers_def hub_unsubscribe_def
  have "hub_run uses_hub ([] @ [Internal]) ?s1" by (rule run_step [OF run_start], rule sub_load) (simp add: d)
  then have "hub_run uses_hub (([] @ [Internal]) @ [Internal]) ?s2" by (rule run_step, intro sub_load) (simp add: d)
  then have "hub_run uses_hub ((([] @ [Internal]) @ [Internal]) @ [Internal]) ?s3" by (rule run_step, intro sub_store) (simp add: d)
  then have "hub_run uses_hub (((([] @ [Internal]) @ [Internal]) @ [Internal]) @ [Internal]) ?s4"
    by (rule run_step, intro sub_store) (simp add: d)
  then have "hub_run uses_hub ((((([] @ [Internal]) @ [Internal]) @ [Internal]) @ [Internal]) @ [Added ty 1 a]) ?s5"
    by (rule run_step, intro sub_append) (simp_all add: d)
  then have "hub_run uses_hub (((((([] @ [Internal]) @ [Internal]) @ [Internal]) @ [Internal]) @ [Added ty 1 a]) @ [Added ty 1 b]) ?s6"
    by (rule run_step, intro sub_append) (simp_all add: d)
  then have "hub_run uses_hub ((((((([] @ [Internal]) @ [Internal]) @ [Internal]) @ [Internal]) @ [Added ty 1 a]) @ [Added ty 1 b]) @
    [Removed ty 1 True]) ?s7"
    by (rule run_step, intro unsub [of _ 0]) (simp_all add: d)
  then have "hub_run uses_hub (((((((([] @ [Internal]) @ [Internal]) @ [Internal]) @ [Internal]) @ [Added ty 1 a]) @ [Added ty 1 b]) @
    [Removed ty 1 True]) @ [Published ty m]) ?s8"
    by (rule run_step, intro pub_lock) (simp_all add: d)
  moreover have "hs_calls ?s8 = []" "pending_calls ?s8 = [(b, m)]" by (simp_all add: pending_calls_def d)
  ultimately show ?thesis unfolding append_Nil append_Cons by blast
qed

theorem hub_publish_refines_witness:
  "\<exists>s. hub_run (\<lambda>_. False) [Internal, Internal, Internal, Internal, Added (0::nat) 1 (10::nat), Added 0 1 20, Removed 0 1 True, Published 0 ''m''] s \<and>
     subscribers 0 (hs_hub s) = [(1, 20)] \<and> hs_calls s @ pending_calls s = [(20, ''m'')]"
proof -
  obtain s where s: "hub_run (\<lambda>_. False)
      [Internal, Internal, Internal, Internal, Added (0::nat) 1 (10::nat), Added 0 1 20, Removed 0 1 True, Published 0 ''m''] s"
    using shared_number_run [of "\<lambda>_. False" "0::nat" "10::nat" 20 "''m''"] by blast
  from hub_publish_refines [OF s, of 0] s show ?thesis by (intro exI [of _ s]) simp
qed

text \<open>
  Two threads that subscribe at the same time can get the same number. The thread that takes its subscription back then
  may remove the other one's: with the number of \<open>b\<close> it is \<open>a\<close> that goes, and \<open>publish\<close> still calls \<open>b\<close>.
\<close>

theorem concurrent_subscriptions_share_number:
  fixes ty :: 'ty and a b :: 'c and m :: 'm
  shows "\<exists>(i :: sub_id) evs s. hub_run uses_hub (evs @ [Added ty i a, Added ty i b, Removed ty i True, Published ty m]) s \<and>
    hs_calls s = [] \<and> pending_calls s = [(b, m)]"
  using shared_number_run [of uses_hub ty a b m] by (intro exI [of _ 1] exI [of _ "[Internal, Internal, Internal, Internal]"]) simp

text \<open>
  A callback that uses the hub never returns: its thread keeps the mutex, and from then on no thread enters or
  removes a subscription or publishes.
\<close>

theorem hub_reentry_deadlocks:
  assumes "owner_publishes s" "hs_lock s = Some t" "hs_pc s t = Relocking m cs" "hub_step uses_hub s e s'"
  shows "e = Internal \<and> hs_lock s' = Some t \<and> hs_pc s' t = Relocking m cs \<and> hs_calls s' = hs_calls s"
proof -
  have "t' = t" if "in_publish (hs_pc s t')" for t' using assms(1,2) that by (simp add: owner_publishes_def)
  with assms(4,2,3) show ?thesis by (cases rule: hub_step.cases) (auto split: if_splits, (metis in_publish.simps hub_pc.distinct)+)
qed

text \<open>
  Asking for the wrong type destroys the message: every receiving call that finds the
  queue not empty removes its front, also when it returns false because the types differ.
\<close>

theorem recv_wrong_type_loses_message:
  assumes "mq_queue q = m # ms" "msg_type m \<noteq> ty"
  shows "mq_try_recv ty q = (None, q\<lparr>mq_queue := ms\<rparr>) \<and> mq_recv ty timeout q = Some (None, q\<lparr>mq_queue := ms\<rparr>)"
  using assms by (simp add: mq_try_recv_def mq_recv_def mq_pop_def)

theorem recv_wrong_type_loses_message_witness:
  "mq_try_recv (2::nat) \<lparr>mq_queue = [\<lparr>msg_type = 1, msg_data = ''x''\<rparr>]\<rparr> = (None, \<lparr>mq_queue = []\<rparr>)"
  using recv_wrong_type_loses_message [of "\<lparr>mq_queue = [\<lparr>msg_type = 1, msg_data = ''x''\<rparr>]\<rparr>" _ _ "2::nat"] by simp

text \<open>
  Messages of one type arrive in the order they were sent: after sending them, repeated
  \<open>try_recv\<close> of that type yields exactly their data and then nothing.
\<close>

fun recv_all :: "nat \<Rightarrow> 'ty \<Rightarrow> ('ty, 'd) message_queue \<Rightarrow> 'd option list" where
  "recv_all 0 ty q = []"
| "recv_all (Suc n) ty q = fst (mq_try_recv ty q) # recv_all n ty (snd (mq_try_recv ty q))"

lemma recv_all_queue:
  "\<forall>m\<in>set (mq_queue q). msg_type m = ty \<Longrightarrow>
   recv_all (length (mq_queue q) + k) ty q = map (Some \<circ> msg_data) (mq_queue q) @ replicate k None"
proof (induction "mq_queue q" arbitrary: q)
  case Nil
  have "mq_queue q = [] \<Longrightarrow> recv_all k ty q = replicate k None" for k
    by (induction k) (simp_all add: mq_try_recv_def mq_pop_def)
  with Nil show ?case by simp
next
  case (Cons m ms)
  then have q: "mq_queue q = m # ms" by simp
  have "recv_all (length ms + k) ty (q\<lparr>mq_queue := ms\<rparr>) = map (Some \<circ> msg_data) ms @ replicate k None"
    using Cons.hyps(1) [of "q\<lparr>mq_queue := ms\<rparr>"] Cons.prems q by simp
  then show ?case using Cons.prems by (simp add: q mq_try_recv_def mq_pop_def)
qed

lemma message_queue_fifo:
  assumes "\<forall>m\<in>set ms. msg_type m = ty"
  shows "recv_all (length ms + k) ty (fold mq_send ms MessageQueue_new) =
    map (Some \<circ> msg_data) ms @ replicate k None"
proof -
  have "mq_queue (fold mq_send ms MessageQueue_new) = ms" by (simp add: mq.enq_all MessageQueue_new_def)
  with recv_all_queue [of "fold mq_send ms MessageQueue_new" ty k] assms show ?thesis by simp
qed

end
