(* ===== verification/Monitor.thy ===== *)
theory Monitor
  imports Decimal
begin

text \<open>
  Class \<open>Monitor\<close> (\<open>src/core/monitor/monitor.h\<close>, \<open>monitor.cpp\<close>): counters updated by any
  number of threads. Every access of an atomic is one step, so that the compare-exchange loop
  of \<open>on_connect\<close> runs interleaved with the others. The counters of type \<open>int\<close> are 32-bit
  words compared as signed numbers; arithmetic of atomics wraps.
\<close>

section \<open>State and operations\<close>

record monitor =
  connections_alive :: u32
  connections_total :: u32
  connections_peak :: u32
  task_queue_length :: u64
  threadpool_active :: u32
  threadpool_total :: u32
  msgs_sent :: u64
  msgs_recv :: u64
  msgs_error :: u64
  bytes_sent :: u64
  bytes_recv :: u64
  memory_rss_kb :: u64
  memory_peak_rss_kb :: u64

definition Monitor_new :: monitor where
  "Monitor_new = \<lparr>connections_alive = 0, connections_total = 0, connections_peak = 0, task_queue_length = 0,
     threadpool_active = 0, threadpool_total = 0, msgs_sent = 0, msgs_recv = 0, msgs_error = 0,
     bytes_sent = 0, bytes_recv = 0, memory_rss_kb = 0, memory_peak_rss_kb = 0\<rparr>"

definition on_disconnect :: "monitor \<Rightarrow> monitor" where
  "on_disconnect m = m\<lparr>connections_alive := connections_alive m - 1\<rparr>"

definition set_task_queue_length :: "u64 \<Rightarrow> monitor \<Rightarrow> monitor" where
  "set_task_queue_length n m = m\<lparr>task_queue_length := n\<rparr>"

definition set_threadpool_stats :: "u32 \<Rightarrow> u32 \<Rightarrow> monitor \<Rightarrow> monitor" where
  "set_threadpool_stats active tot m = m\<lparr>threadpool_active := active, threadpool_total := tot\<rparr>"

definition on_msg_sent :: "u64 \<Rightarrow> monitor \<Rightarrow> monitor" where
  "on_msg_sent bytes m =
     (let m = m\<lparr>msgs_sent := msgs_sent m + 1\<rparr>
      in if bytes \<noteq> 0 then m\<lparr>bytes_sent := bytes_sent m + bytes\<rparr> else m)"

definition on_msg_recv :: "u64 \<Rightarrow> monitor \<Rightarrow> monitor" where
  "on_msg_recv bytes m =
     (let m = m\<lparr>msgs_recv := msgs_recv m + 1\<rparr>
      in if bytes \<noteq> 0 then m\<lparr>bytes_recv := bytes_recv m + bytes\<rparr> else m)"

definition on_msg_error :: "monitor \<Rightarrow> monitor" where
  "on_msg_error m = m\<lparr>msgs_error := msgs_error m + 1\<rparr>"

text \<open>\<open>refresh\<close> with the answer of \<open>getrusage\<close>, by a thread that is not interrupted.\<close>

definition refresh :: "u64 option \<Rightarrow> monitor \<Rightarrow> monitor" where
  "refresh rusage m =
     (case rusage of
        None \<Rightarrow> m
      | Some rss_kb \<Rightarrow>
          let m = m\<lparr>memory_rss_kb := rss_kb\<rparr>
          in if memory_peak_rss_kb m < rss_kb then m\<lparr>memory_peak_rss_kb := rss_kb\<rparr> else m)"

text \<open>
  \<open>snapshot\<close>: the clock and a copy of the counters.
\<close>

definition snapshot :: "int \<Rightarrow> monitor \<Rightarrow> int \<times> monitor" where
  "snapshot now m = (now, m)"

text \<open>
  \<open>on_connect\<close> as the program of a thread: \<open>Counting\<close> has incremented \<open>connections_alive_\<close>,
  \<open>Counted\<close> holds its total, \<open>Trying\<close> also the peak it has seen. A weak compare-exchange may fail
  although the values agree; a failed one loads the current value.
\<close>

datatype connect_pc = Idle | Counting | Counted u32 | Trying u32 u32

record mon_state =
  mon :: monitor
  pcs :: "nat \<Rightarrow> connect_pc"

definition cas_peak :: "u32 \<Rightarrow> u32 \<Rightarrow> bool \<Rightarrow> monitor \<Rightarrow> connect_pc \<times> monitor" where
  "cas_peak tot peak spurious m =
     (if \<not> sint peak < sint tot then (Idle, m)
      else if connections_peak m = peak \<and> \<not> spurious then (Idle, m\<lparr>connections_peak := tot\<rparr>)
      else (Trying tot (connections_peak m), m))"

fun connect_step :: "bool \<Rightarrow> connect_pc \<Rightarrow> monitor \<Rightarrow> connect_pc \<times> monitor" where
  "connect_step spurious Idle m = (Counting, m\<lparr>connections_alive := connections_alive m + 1\<rparr>)"
| "connect_step spurious Counting m =
     (Counted (connections_total m + 1), m\<lparr>connections_total := connections_total m + 1\<rparr>)"
| "connect_step spurious (Counted tot) m = (Trying tot (connections_peak m), m)"
| "connect_step spurious (Trying tot peak) m = cas_peak tot peak spurious m"

text \<open>\<open>on_connect\<close> of a thread that runs alone.\<close>

definition on_connect :: "monitor \<Rightarrow> monitor" where
  "on_connect m =
     (let tot = connections_total m + 1;
          m = m\<lparr>connections_alive := connections_alive m + 1, connections_total := tot\<rparr>
      in if sint (connections_peak m) < sint tot then m\<lparr>connections_peak := tot\<rparr> else m)"

text \<open>
  Reachable states with the number of connections counted so far; any thread may take its next
  step, and any thread may report a disconnection.
\<close>

inductive mon_reach :: "nat \<Rightarrow> mon_state \<Rightarrow> bool" where
  start: "mon_reach 0 \<lparr>mon = Monitor_new, pcs = (\<lambda>_. Idle)\<rparr>"
| connect: "mon_reach n s \<Longrightarrow> connect_step spurious (pcs s t) (mon s) = (pc, m) \<Longrightarrow>
    mon_reach (if pcs s t = Counting then Suc n else n) \<lparr>mon = m, pcs = (pcs s)(t := pc)\<rparr>"
| disconnect: "mon_reach n s \<Longrightarrow> mon_reach n (s\<lparr>mon := on_disconnect (mon s)\<rparr>)"

section \<open>Invariant\<close>

text \<open>
  The total a thread holds never exceeds the counter, its view of the peak never exceeds the
  peak, and while the peak lags behind the counter some thread still holds that count.
\<close>

fun pc_ok :: "monitor \<Rightarrow> connect_pc \<Rightarrow> bool" where
  "pc_ok m (Counted tot) \<longleftrightarrow> sint tot \<le> sint (connections_total m)"
| "pc_ok m (Trying tot peak) \<longleftrightarrow>
     sint tot \<le> sint (connections_total m) \<and> sint peak \<le> sint (connections_peak m)"
| "pc_ok m _ \<longleftrightarrow> True"

fun pc_holds :: "u32 \<Rightarrow> connect_pc \<Rightarrow> bool" where
  "pc_holds tot (Counted t) \<longleftrightarrow> t = tot"
| "pc_holds tot (Trying t _) \<longleftrightarrow> t = tot"
| "pc_holds tot _ \<longleftrightarrow> False"

definition mon_inv :: "nat \<Rightarrow> mon_state \<Rightarrow> bool" where
  "mon_inv n s \<longleftrightarrow> sint (connections_total (mon s)) = int n \<and>
     sint (connections_peak (mon s)) \<le> int n \<and> (\<forall>t. pc_ok (mon s) (pcs s t)) \<and>
     (connections_peak (mon s) = connections_total (mon s) \<or> (\<exists>t. pc_holds (connections_total (mon s)) (pcs s t)))"

lemma sint_plus_1:
  assumes "sint (w :: u32) = int n" "Suc n < 2 ^ 31"
  shows "sint (w + 1) = int (Suc n)"
proof -
  have "sint (w + 1) = signed_take_bit 31 (sint w + 1)" by (simp add: sint_word_ariths)
  with assms show ?thesis by (simp add: signed_take_bit_int_eq_self)
qed

lemma pc_ok_mono:
  "pc_ok m pc \<Longrightarrow> sint (connections_total m) \<le> sint (connections_total m') \<Longrightarrow>
   sint (connections_peak m) \<le> sint (connections_peak m') \<Longrightarrow> pc_ok m' pc"
  by (cases pc) auto

lemma mon_inv_step:
  assumes "sint (connections_total m) = int n" "sint (connections_peak m) \<le> int n" "pc_ok m pc"
    and "\<And>u. u \<noteq> t \<Longrightarrow> pc_ok m (f u)"
    and "connections_peak m = connections_total m \<or> pc_holds (connections_total m) pc \<or>
      (\<exists>u. u \<noteq> t \<and> pc_holds (connections_total m) (f u))"
  shows "mon_inv n \<lparr>mon = m, pcs = f(t := pc)\<rparr>"
  using assms(1-4) assms(5) by (fastforce simp: mon_inv_def)

lemma cas_peak_inv:
  assumes inv: "mon_inv n s" and pc: "pcs s t = Trying tot peak" and step: "cas_peak tot peak spurious (mon s) = (pc, m)"
  shows "mon_inv n \<lparr>mon = m, pcs = (pcs s)(t := pc)\<rparr>"
proof -
  let ?total = "connections_total (mon s)" and ?peak = "connections_peak (mon s)"
  have n: "sint ?total = int n" "sint ?peak \<le> int n" and ok: "\<And>u. pc_ok (mon s) (pcs s u)"
    and lag: "?peak = ?total \<or> (\<exists>u. pc_holds ?total (pcs s u))" using inv by (auto simp: mon_inv_def)
  have t: "sint tot \<le> int n" "sint peak \<le> sint ?peak" using ok [of t] n by (simp_all add: pc)
  consider (stop) "\<not> sint peak < sint tot" | (swap) "sint peak < sint tot" "?peak = peak" "\<not> spurious"
    | (retry) "sint peak < sint tot" "\<not> (?peak = peak \<and> \<not> spurious)"
    by (cases "sint peak < sint tot"; cases "?peak = peak \<and> \<not> spurious") iprover+
  then show ?thesis
  proof cases
    case stop
    with step have m: "pc = Idle" "m = mon s" by (simp_all add: cas_peak_def)
    have "?peak = ?total" if "tot = ?total"
    proof -
      from that stop n t have "sint ?peak = sint ?total" by simp
      then show ?thesis by (rule signed_word_eqI)
    qed
    then have "?peak = ?total \<or> (\<exists>u. u \<noteq> t \<and> pc_holds ?total (pcs s u))" using lag pc by (metis pc_holds.simps(2))
    then show ?thesis using n ok by (intro mon_inv_step) (simp_all add: m)
  next
    case swap
    with step have m: "pc = Idle" "m = mon s\<lparr>connections_peak := tot\<rparr>" by (simp_all add: cas_peak_def)
    have "?peak \<noteq> ?total" using swap n t by auto
    then have "tot = ?total \<or> (\<exists>u. u \<noteq> t \<and> pc_holds ?total (pcs s u))" using lag pc by (metis pc_holds.simps(2))
    moreover have "pc_ok m (pcs s u)" for u using ok [of u] by (rule pc_ok_mono) (use swap in \<open>simp_all add: m\<close>)
    ultimately show ?thesis using n t by (intro mon_inv_step) (simp_all add: m)
  next
    case retry
    with step have m: "pc = Trying tot ?peak" "m = mon s" by (auto simp: cas_peak_def)
    have "?peak = ?total \<or> tot = ?total \<or> (\<exists>u. u \<noteq> t \<and> pc_holds ?total (pcs s u))"
      using lag pc by (metis pc_holds.simps(2))
    then show ?thesis using n t ok by (intro mon_inv_step) (simp_all add: m)
  qed
qed

lemma mon_inv_connect:
  assumes inv: "mon_inv n s" and step: "connect_step spurious (pcs s t) (mon s) = (pc, m)"
    and bound: "(if pcs s t = Counting then Suc n else n) < 2 ^ 31"
  shows "mon_inv (if pcs s t = Counting then Suc n else n) \<lparr>mon = m, pcs = (pcs s)(t := pc)\<rparr>"
proof -
  let ?total = "connections_total (mon s)" and ?peak = "connections_peak (mon s)"
  have n: "sint ?total = int n" "sint ?peak \<le> int n" and ok: "\<And>u. pc_ok (mon s) (pcs s u)"
    and lag: "?peak = ?total \<or> (\<exists>u. pc_holds ?total (pcs s u))" using inv by (auto simp: mon_inv_def)
  show ?thesis
  proof (cases "pcs s t")
    case Idle
    with step have m: "pc = Counting" "m = mon s\<lparr>connections_alive := connections_alive (mon s) + 1\<rparr>" by auto
    have "pc_ok m (pcs s u)" for u using ok [of u] by (rule pc_ok_mono) (simp_all add: m)
    moreover have "?peak = ?total \<or> (\<exists>u. u \<noteq> t \<and> pc_holds ?total (pcs s u))" using lag Idle by (metis pc_holds.simps(3))
    ultimately have "mon_inv n \<lparr>mon = m, pcs = (pcs s)(t := pc)\<rparr>" using n by (intro mon_inv_step) (simp_all add: m)
    with Idle show ?thesis by simp
  next
    case Counting
    with step have m: "pc = Counted (?total + 1)" "m = mon s\<lparr>connections_total := ?total + 1\<rparr>" by auto
    have s: "sint (?total + 1) = int (Suc n)" using n bound Counting by (intro sint_plus_1) auto
    have "pc_ok m (pcs s u)" for u using ok [of u] by (rule pc_ok_mono) (simp_all add: m s n)
    then have "mon_inv (Suc n) \<lparr>mon = m, pcs = (pcs s)(t := pc)\<rparr>"
      using n s by (intro mon_inv_step) (simp_all add: m)
    with Counting show ?thesis by simp
  next
    case (Counted tot)
    with step have m: "pc = Trying tot ?peak" "m = mon s" by auto
    have "sint tot \<le> int n" using ok [of t] n Counted by simp
    moreover have "?peak = ?total \<or> tot = ?total \<or> (\<exists>u. u \<noteq> t \<and> pc_holds ?total (pcs s u))"
      using lag Counted by (metis pc_holds.simps(1))
    ultimately have "mon_inv n \<lparr>mon = m, pcs = (pcs s)(t := pc)\<rparr>" using n ok by (intro mon_inv_step) (simp_all add: m)
    with Counted show ?thesis by simp
  next
    case (Trying tot peak)
    with step show ?thesis using cas_peak_inv [OF inv Trying] by simp
  qed
qed

lemma mon_reach_inv: "mon_reach n s \<Longrightarrow> n < 2 ^ 31 \<Longrightarrow> mon_inv n s"
proof (induction rule: mon_reach.induct)
  case start
  then show ?case by (simp add: mon_inv_def Monitor_new_def)
next
  case (connect n s spurious t pc m)
  then have "mon_inv n s" by (auto split: if_splits)
  then show ?case using connect by (intro mon_inv_connect) auto
next
  case (disconnect n s)
  have "pc_ok (on_disconnect m) pc = pc_ok m pc" for m pc by (cases pc) (auto simp: on_disconnect_def)
  with disconnect show ?case by (simp add: mon_inv_def) (simp add: on_disconnect_def)
qed

text \<open>A thread that runs alone and whose compare-exchange does not fail performs \<open>on_connect\<close>.\<close>

definition connect_alone :: "connect_pc \<times> monitor \<Rightarrow> connect_pc \<times> monitor" where
  "connect_alone = (\<lambda>(pc, m). connect_step False pc m)"

lemma connect_alone_on_connect: "(connect_alone ^^ 4) (Idle, m) = (Idle, on_connect m)"
  by (simp add: connect_alone_def eval_nat_numeral cas_peak_def on_connect_def Let_def)

section \<open>The status page\<close>

definition json_line :: "string \<Rightarrow> int \<Rightarrow> string \<Rightarrow> string" where
  "json_line label n sep = label @ show_int n @ sep @ [CHR 0x0A]"

definition quoted :: "string \<Rightarrow> string" where
  "quoted s = [CHR 0x22] @ s @ [CHR 0x22]"

definition monitor_to_json :: "int \<Rightarrow> monitor \<Rightarrow> string" where
  "monitor_to_json now m =
     (let (timestamp, s) = snapshot now m in
      ''{'' @ [CHR 0x0A] @
      json_line (''  '' @ quoted ''timestamp'' @ '': '') timestamp '','' @
      ''  '' @ quoted ''connections'' @ '': {'' @ [CHR 0x0A] @
      json_line (''    '' @ quoted ''alive'' @ '': '') (sint (connections_alive s)) '','' @
      json_line (''    '' @ quoted ''total'' @ '': '') (sint (connections_total s)) '','' @
      json_line (''    '' @ quoted ''peak'' @ '': '') (sint (connections_peak s)) [] @
      ''  },'' @ [CHR 0x0A] @
      json_line (''  '' @ quoted ''task_queue_length'' @ '': '') (uint (task_queue_length s)) '','' @
      ''  '' @ quoted ''threadpool'' @ '': {'' @ [CHR 0x0A] @
      json_line (''    '' @ quoted ''active'' @ '': '') (sint (threadpool_active s)) '','' @
      json_line (''    '' @ quoted ''total'' @ '': '') (sint (threadpool_total s)) [] @
      ''  },'' @ [CHR 0x0A] @
      ''  '' @ quoted ''messages'' @ '': {'' @ [CHR 0x0A] @
      json_line (''    '' @ quoted ''sent'' @ '': '') (uint (msgs_sent s)) '','' @
      json_line (''    '' @ quoted ''recv'' @ '': '') (uint (msgs_recv s)) '','' @
      json_line (''    '' @ quoted ''error'' @ '': '') (uint (msgs_error s)) [] @
      ''  },'' @ [CHR 0x0A] @
      ''  '' @ quoted ''bytes'' @ '': {'' @ [CHR 0x0A] @
      json_line (''    '' @ quoted ''sent'' @ '': '') (uint (bytes_sent s)) '','' @
      json_line (''    '' @ quoted ''recv'' @ '': '') (uint (bytes_recv s)) [] @
      ''  },'' @ [CHR 0x0A] @
      ''  '' @ quoted ''memory'' @ '': {'' @ [CHR 0x0A] @
      json_line (''    '' @ quoted ''rss_kb'' @ '': '') (uint (memory_rss_kb s)) '','' @
      json_line (''    '' @ quoted ''peak_rss_kb'' @ '': '') (uint (memory_peak_rss_kb s)) [] @
      ''  }'' @ [CHR 0x0A] @ ''}'')"

text \<open>The numbers of a text: its maximal runs of digits and minus signs.\<close>

definition num_char :: "char \<Rightarrow> bool" where
  "num_char c \<longleftrightarrow> is_digit c \<or> c = CHR ''-''"

function numbers :: "string \<Rightarrow> string list" where
  "numbers [] = []"
| "numbers (c # cs) =
     (if num_char c then (c # takeWhile num_char cs) # numbers (dropWhile num_char cs) else numbers cs)"
  by pat_completeness auto
termination
  by (relation "measure length") (auto simp: le_imp_less_Suc length_dropWhile_le)

lemma numbers_skip: "\<forall>c\<in>set l. \<not> num_char c \<Longrightarrow> numbers (l @ s) = numbers s"
  by (induction l) auto

lemma numbers_num:
  assumes "\<forall>c\<in>set n. num_char c" "n \<noteq> []" "\<not> num_char d"
  shows "numbers (n @ d # s) = n # numbers (d # s)"
proof -
  obtain c cs where n: "n = c # cs" using assms(2) by (cases n) auto
  have "takeWhile num_char (cs @ d # s) = cs" "dropWhile num_char (cs @ d # s) = d # s"
    using assms n by (auto simp: takeWhile_append2 dropWhile_append3)
  then show ?thesis using assms n by simp
qed

lemma numbers_json_line:
  assumes "\<forall>c\<in>set label. \<not> num_char c" "sep = [] \<or> sep = '',''"
  shows "numbers (json_line label n sep @ s) = show_int n # numbers s"
proof -
  have "\<forall>c\<in>set (show_int n). num_char c" using show_int_chars by (auto simp: num_char_def)
  moreover have "\<not> num_char (CHR 0x0A)" "\<not> num_char (CHR '','')" by (simp_all add: num_char_def is_digit_def digit_value_def)
  ultimately show ?thesis using assms show_int_nonempty [of n]
    by (auto simp: json_line_def numbers_skip numbers_num)
qed

lemma parse_show_int: "parse_signed (show_int n) = Some n"
  using parse_signed_show [of "[]" n] by simp

section \<open>Service threads\<close>

text \<open>
  The flags and threads of \<open>start_logging\<close>, \<open>stop_logging\<close>, \<open>start_http_server\<close> and
  \<open>stop_http_server\<close>. Assigning to a thread object that is still joinable terminates the
  program, which is \<open>None\<close>.
\<close>

record services =
  sv_logging :: bool
  sv_logging_joinable :: bool
  sv_http_port :: int
  sv_http_running :: bool
  sv_http_joinable :: bool

definition services_new :: services where
  "services_new = \<lparr>sv_logging = False, sv_logging_joinable = False, sv_http_port = - 1, sv_http_running = False, sv_http_joinable = False\<rparr>"

definition start_logging :: "services \<Rightarrow> services option" where
  "start_logging v =
     (if sv_logging v then Some v
      else if sv_logging_joinable v then None
      else Some (v\<lparr>sv_logging := True, sv_logging_joinable := True\<rparr>))"

definition stop_logging :: "services \<Rightarrow> services" where
  "stop_logging v = (if \<not> sv_logging v then v else v\<lparr>sv_logging := False, sv_logging_joinable := False\<rparr>)"

definition start_http_server :: "int \<Rightarrow> services \<Rightarrow> services option" where
  "start_http_server port v =
     (if sv_http_running v then Some v
      else if sv_http_joinable v then None
      else Some (v\<lparr>sv_http_port := port, sv_http_running := True, sv_http_joinable := True\<rparr>))"

definition stop_http_server :: "services \<Rightarrow> services" where
  "stop_http_server v = (if \<not> sv_http_running v then v else v\<lparr>sv_http_running := False, sv_http_joinable := False\<rparr>)"

text \<open>The body of the logging thread's loop: what it reports, if it was not stopped while asleep.\<close>

definition logging_turn :: "bool \<Rightarrow> int \<Rightarrow> u64 option \<Rightarrow> monitor \<Rightarrow> (int \<times> monitor) option \<times> monitor" where
  "logging_turn still_logging now rusage m =
     (if \<not> still_logging then (None, m) else let m = refresh rusage m in (Some (snapshot now m), m))"

datatype service_call = Start_Logging | Stop_Logging | Start_Http int | Stop_Http

fun service_step :: "service_call \<Rightarrow> services \<Rightarrow> services option" where
  "service_step Start_Logging v = start_logging v"
| "service_step Stop_Logging v = Some (stop_logging v)"
| "service_step (Start_Http port) v = start_http_server port v"
| "service_step Stop_Http v = Some (stop_http_server v)"

fun service_run :: "service_call list \<Rightarrow> services \<Rightarrow> services option" where
  "service_run [] v = Some v"
| "service_run (c # cs) v = Option.bind (service_step c v) (service_run cs)"

definition services_ok :: "services \<Rightarrow> bool" where
  "services_ok v \<longleftrightarrow> sv_logging_joinable v = sv_logging v \<and> sv_http_joinable v = sv_http_running v"

text \<open>No sequence of calls by one thread terminates the program, and after the destructor's stops no thread is left.\<close>

lemma services_safe: "services_ok v \<Longrightarrow> \<exists>v'. service_run cs v = Some v' \<and> services_ok v'"
proof (induction cs arbitrary: v)
  case (Cons c cs)
  have "\<exists>v1. service_step c v = Some v1 \<and> services_ok v1" using Cons.prems
    by (cases c) (auto simp: services_ok_def start_logging_def stop_logging_def start_http_server_def stop_http_server_def)
  with Cons.IH show ?case by auto
qed simp

lemma services_stopped:
  "services_ok v \<Longrightarrow> \<not> sv_logging_joinable (stop_http_server (stop_logging v)) \<and> \<not> sv_http_joinable (stop_http_server (stop_logging v))"
  by (auto simp: services_ok_def stop_logging_def stop_http_server_def)

section \<open>Properties\<close>

text \<open>
  C29: Whatever the interleaving of the threads that report connections and disconnections,
  when no thread is inside \<open>on_connect\<close> the total counter is the number of connections made,
  and the compare-exchange loop has raised \<open>connections_peak_\<close> to that total: no update is
  lost, and the reported peak is the number of connections ever made, not the largest number
  alive at one time.
\<close>

theorem monitor_peak_is_total:
  assumes "mon_reach n s" "n < 2 ^ 31" "\<forall>t. pcs s t = Idle"
  shows "sint (connections_total (mon s)) = int n \<and> connections_peak (mon s) = connections_total (mon s)"
  using mon_reach_inv [OF assms(1,2)] assms(3) by (auto simp: mon_inv_def)

definition flap :: "mon_state \<Rightarrow> mon_state" where
  "flap s = s\<lparr>mon := on_disconnect (on_connect (mon s))\<rparr>"

lemma mon_reach_flap:
  assumes "mon_reach n s" "pcs s = (\<lambda>_. Idle)"
  shows "mon_reach (Suc n) (flap s)"
proof -
  let ?m = "mon s"
  define m1 where "m1 = ?m\<lparr>connections_alive := connections_alive ?m + 1\<rparr>"
  define m2 where "m2 = m1\<lparr>connections_total := connections_total m1 + 1\<rparr>"
  let ?st = "\<lambda>m pc. \<lparr>mon = m, pcs = (pcs s)(0 := pc)\<rparr>"
  have 1: "mon_reach n (?st m1 Counting)"
    using mon_reach.connect [OF assms(1), of False 0] assms(2) by (simp add: m1_def)
  have 2: "mon_reach (Suc n) (?st m2 (Counted (connections_total m2)))"
    using mon_reach.connect [OF 1, of False 0] by (simp add: m2_def)
  have 3: "mon_reach (Suc n) (?st m2 (Trying (connections_total m2) (connections_peak m2)))"
    using mon_reach.connect [OF 2, of False 0] by simp
  have 4: "mon_reach (Suc n) (?st (on_connect ?m) Idle)"
    using mon_reach.connect [OF 3, of False 0]
    by (simp add: cas_peak_def on_connect_def Let_def m1_def m2_def split: if_splits)
  have "?st (on_connect ?m) Idle\<lparr>mon := on_disconnect (on_connect ?m)\<rparr> = flap s"
    using assms(2) by (cases s) (auto simp: flap_def)
  with mon_reach.disconnect [OF 4] show ?thesis by simp
qed

lemma pcs_flap: "pcs (flap s) = pcs s"
  by (simp add: flap_def)

theorem monitor_peak_is_total_witness:
  "connections_peak (mon (flap (flap (flap \<lparr>mon = Monitor_new, pcs = (\<lambda>_. Idle)\<rparr>)))) = 3 \<and>
   connections_alive (mon (flap (flap (flap \<lparr>mon = Monitor_new, pcs = (\<lambda>_. Idle)\<rparr>)))) = 0"
proof -
  let ?s = "\<lparr>mon = Monitor_new, pcs = (\<lambda>_. Idle)\<rparr>"
  have "mon_reach (Suc (Suc (Suc 0))) (flap (flap (flap ?s)))"
    by (intro mon_reach_flap mon_reach.start) (simp_all add: pcs_flap)
  from monitor_peak_is_total [OF this] have "sint (connections_peak (mon (flap (flap (flap ?s))))) = sint (3 :: u32)"
    by (simp add: pcs_flap)
  then have "connections_peak (mon (flap (flap (flap ?s)))) = 3" by (rule signed_word_eqI)
  then show ?thesis
    by (simp add: flap_def on_connect_def on_disconnect_def Let_def Monitor_new_def)
qed

text \<open>
  The memory peak: after any sequence of refreshes the peak is the largest size reported.
\<close>

lemma refresh_peak:
  "memory_peak_rss_kb (fold refresh rs m) = fold max (map the (filter (\<lambda>r. r \<noteq> None) rs)) (memory_peak_rss_kb m)"
proof (induction rs arbitrary: m)
  case (Cons r rs)
  have "memory_peak_rss_kb (refresh r m) = (case r of None \<Rightarrow> memory_peak_rss_kb m | Some k \<Rightarrow> max k (memory_peak_rss_kb m))"
    by (auto simp: refresh_def Let_def max_def split: option.splits)
  with Cons show ?case by (cases r) simp_all
qed simp

text \<open>
  The status page tells the counters exactly: reading the numbers of \<open>to_json\<close> from left to
  right gives back the timestamp and the thirteen counters of the snapshot, as signed or
  unsigned numbers by their types, whatever their values.
\<close>

theorem monitor_json_faithful:
  "map parse_signed (numbers (monitor_to_json now m)) =
   map Some [now, sint (connections_alive m), sint (connections_total m), sint (connections_peak m),
     uint (task_queue_length m), sint (threadpool_active m), sint (threadpool_total m),
     uint (msgs_sent m), uint (msgs_recv m), uint (msgs_error m), uint (bytes_sent m), uint (bytes_recv m),
     uint (memory_rss_kb m), uint (memory_peak_rss_kb m)]"
  by (simp add: monitor_to_json_def snapshot_def quoted_def numbers_json_line num_char_def is_digit_def digit_value_def parse_show_int)

end
