(* ===== verification/Logger.thy ===== *)
theory Logger
  imports Decimal
begin

text \<open>
  Class \<open>Logger\<close> (\<open>src/base/logger/logger.h\<close>, \<open>logger.cpp\<close>): filtering, formatting, the bounded
  queue, the log thread, flushing and shutdown. The clock, \<open>strftime\<close> with the local time zone,
  \<open>isatty\<close> and whether a path can be opened for appending are inputs. What the logger emits is a
  list of outputs. Levels are ordered as the numbers of the enumeration.
\<close>

section \<open>Levels, entries and sinks\<close>

datatype log_level = TRACE | DEBUG | INFO | WARN | ERROR | FATAL | NONE

primrec level_num :: "log_level \<Rightarrow> nat" where
  "level_num TRACE = 0"
| "level_num DEBUG = 1"
| "level_num INFO = 2"
| "level_num WARN = 3"
| "level_num ERROR = 4"
| "level_num FATAL = 5"
| "level_num NONE = 6"

lemma level_num_inject: "level_num a = level_num b \<longleftrightarrow> a = b"
  by (cases a; cases b) simp_all

instantiation log_level :: linorder
begin

definition less_eq_log_level :: "log_level \<Rightarrow> log_level \<Rightarrow> bool" where
  "less_eq_log_level a b \<longleftrightarrow> level_num a \<le> level_num b"

definition less_log_level :: "log_level \<Rightarrow> log_level \<Rightarrow> bool" where
  "less_log_level a b \<longleftrightarrow> level_num a < level_num b"

instance
  by standard (auto simp: less_eq_log_level_def less_log_level_def level_num_inject)

end

lemmas level_simps = less_eq_log_level_def less_log_level_def

definition log_level_str :: "log_level \<Rightarrow> string" where
  "log_level_str lvl =
     (case lvl of TRACE \<Rightarrow> ''TRACE'' | DEBUG \<Rightarrow> ''DEBUG'' | INFO \<Rightarrow> ''INFO '' | WARN \<Rightarrow> ''WARN ''
      | ERROR \<Rightarrow> ''ERROR'' | FATAL \<Rightarrow> ''FATAL'' | NONE \<Rightarrow> ''UNKN '')"

record log_entry =
  le_timestamp_ms :: int
  le_level :: log_level
  le_thread_id :: int
  le_tag :: string
  le_message :: string

record log_formatter =
  show_timestamp :: bool
  show_thread_id :: bool
  show_level :: bool
  show_tag :: bool
  colorful :: bool
  time_format :: string

record log_sink =
  ls_path :: string
  ls_filename_prefix :: string
  ls_max_file_size_mb :: nat
  ls_max_history_days :: int
  ls_compress :: bool
  ls_async :: bool

record logger =
  lg_fmt :: log_formatter
  lg_sinks :: "log_sink list"
  lg_console_level :: log_level
  lg_file_level :: log_level
  lg_running :: bool
  lg_queue :: "log_entry list"
  lg_queue_max :: nat
  lg_today_yday :: int
  lg_current_log_path :: string
  lg_hook :: "(log_entry \<Rightarrow> log_entry) option"
  lg_dropped :: u64
  lg_total_logged :: u64

definition LogFormatter_default :: log_formatter where
  "LogFormatter_default = \<lparr>show_timestamp = True, show_thread_id = True, show_level = True, show_tag = True,
     colorful = True, time_format = ''%Y-%m-%d %H:%M:%S''\<rparr>"

definition Logger_new :: logger where
  "Logger_new = \<lparr>lg_fmt = LogFormatter_default, lg_sinks = [], lg_console_level = INFO, lg_file_level = DEBUG,
     lg_running = False, lg_queue = [], lg_queue_max = 8192, lg_today_yday = - 1, lg_current_log_path = [],
     lg_hook = None, lg_dropped = 0, lg_total_logged = 0\<rparr>"

section \<open>Operations\<close>

text \<open>
  \<open>init\<close> creates the directories of the sinks (second result) and starts the thread.
\<close>

definition log_init ::
  "int \<Rightarrow> log_sink list \<Rightarrow> log_level \<Rightarrow> log_level \<Rightarrow> log_formatter \<Rightarrow> logger \<Rightarrow> logger \<times> string list" where
  "log_init yday sinks console_level file_level fmt s =
     (s\<lparr>lg_sinks := sinks, lg_console_level := console_level, lg_file_level := file_level, lg_fmt := fmt,
        lg_today_yday := yday, lg_running := True\<rparr>,
      filter (\<lambda>p. p \<noteq> []) (map ls_path sinks))"

definition log_init_dir ::
  "int \<Rightarrow> string \<Rightarrow> string \<Rightarrow> log_level \<Rightarrow> log_level \<Rightarrow> logger \<Rightarrow> logger \<times> string list" where
  "log_init_dir yday log_dir prefix console_level file_level s =
     log_init yday [\<lparr>ls_path = log_dir, ls_filename_prefix = prefix, ls_max_file_size_mb = 200,
       ls_max_history_days = 7, ls_compress = True, ls_async = True\<rparr>] console_level file_level LogFormatter_default s"

definition set_hook :: "(log_entry \<Rightarrow> log_entry) option \<Rightarrow> logger \<Rightarrow> logger" where
  "set_hook h s = s\<lparr>lg_hook := h\<rparr>"

definition set_console_level :: "log_level \<Rightarrow> logger \<Rightarrow> logger" where
  "set_console_level lvl s = s\<lparr>lg_console_level := lvl\<rparr>"

definition set_file_level :: "log_level \<Rightarrow> logger \<Rightarrow> logger" where
  "set_file_level lvl s = s\<lparr>lg_file_level := lvl\<rparr>"

definition set_level :: "log_level \<Rightarrow> logger \<Rightarrow> logger" where
  "set_level lvl s = s\<lparr>lg_console_level := lvl, lg_file_level := lvl\<rparr>"

text \<open>\<open>strftime\<close> takes the format and the time in seconds; division of integers truncates.\<close>

definition to_seconds :: "int \<Rightarrow> int" where
  "to_seconds ms = (if ms < 0 then - ((- ms) div 1000) else ms div 1000)"

definition format_entry :: "(string \<Rightarrow> int \<Rightarrow> string) \<Rightarrow> log_formatter \<Rightarrow> log_entry \<Rightarrow> string" where
  "format_entry strftime fmt e =
     (if show_timestamp fmt then strftime (time_format fmt) (to_seconds (le_timestamp_ms e)) @ '' '' else []) @
     (if show_level fmt then ''['' @ log_level_str (le_level e) @ ''] '' else []) @
     (if show_thread_id fmt then ''[T'' @ show_int (le_thread_id e) @ ''] '' else []) @
     (if show_tag fmt \<and> le_tag e \<noteq> [] then ''['' @ le_tag e @ ''] '' else []) @
     le_message e"

definition enqueue :: "log_entry \<Rightarrow> logger \<Rightarrow> logger" where
  "enqueue e s =
     (if length (lg_queue s) \<ge> lg_queue_max s then s\<lparr>lg_dropped := lg_dropped s + 1\<rparr>
      else s\<lparr>lg_queue := lg_queue s @ [e]\<rparr>)"

definition make_entry :: "int \<Rightarrow> int \<Rightarrow> log_level \<Rightarrow> string option \<Rightarrow> string \<Rightarrow> logger \<Rightarrow> log_entry" where
  "make_entry now tid lvl tag msg s =
     (let e = \<lparr>le_timestamp_ms = now, le_level = lvl, le_thread_id = tid,
               le_tag = (case tag of None \<Rightarrow> [] | Some t \<Rightarrow> t), le_message = msg\<rparr>
      in case lg_hook s of None \<Rightarrow> e | Some h \<Rightarrow> h e)"

definition wanted :: "log_level \<Rightarrow> logger \<Rightarrow> bool" where
  "wanted lvl s \<longleftrightarrow> \<not> (lvl < lg_console_level s \<and> lvl < lg_file_level s)"

definition log_write :: "int \<Rightarrow> int \<Rightarrow> log_level \<Rightarrow> string option \<Rightarrow> string \<Rightarrow> logger \<Rightarrow> logger" where
  "log_write now tid lvl tag msg s =
     (if \<not> wanted lvl s then s else enqueue (make_entry now tid lvl tag msg s) s)"

text \<open>The text of a C string, and \<open>vformat_to\<close>: the formatted text cut to the buffer.\<close>

definition c_str :: "string \<Rightarrow> string" where
  "c_str s = takeWhile (\<lambda>c. c \<noteq> CHR 0x00) s"

definition vformat_to :: "string \<Rightarrow> string" where
  "vformat_to formatted = take 8191 (c_str formatted)"

definition log_log :: "int \<Rightarrow> int \<Rightarrow> log_level \<Rightarrow> string option \<Rightarrow> string \<Rightarrow> logger \<Rightarrow> logger" where
  "log_log now tid lvl tag formatted s = log_write now tid lvl tag (vformat_to formatted) s"

text \<open>The output of one entry by the log thread.\<close>

datatype log_out = Stdout string | Stderr string | Append string string

record log_env =
  env_strftime :: "string \<Rightarrow> int \<Rightarrow> string"
  env_stdout_tty :: bool
  env_stderr_tty :: bool
  env_can_append :: "string \<Rightarrow> bool"

definition level_color :: "log_level \<Rightarrow> string" where
  "level_color lvl =
     (case lvl of TRACE \<Rightarrow> [CHR 0x1B] @ ''[90m'' | DEBUG \<Rightarrow> [CHR 0x1B] @ ''[36m'' | INFO \<Rightarrow> [CHR 0x1B] @ ''[32m''
      | WARN \<Rightarrow> [CHR 0x1B] @ ''[33m'' | ERROR \<Rightarrow> [CHR 0x1B] @ ''[31m'' | FATAL \<Rightarrow> [CHR 0x1B] @ ''[35;1m''
      | NONE \<Rightarrow> [])"

definition console_out :: "log_env \<Rightarrow> logger \<Rightarrow> log_entry \<Rightarrow> string \<Rightarrow> log_out list" where
  "console_out env s e line =
     (if le_level e \<ge> lg_console_level s
      then let err = (le_level e \<ge> ERROR);
               tty = (if err then env_stderr_tty env else env_stdout_tty env);
               text = (if colorful (lg_fmt s) \<and> tty
                       then level_color (le_level e) @ c_str line @ [CHR 0x1B] @ ''[0m'' else line)
           in [if err then Stderr text else Stdout text]
      else [])"

definition file_out :: "log_env \<Rightarrow> logger \<Rightarrow> log_entry \<Rightarrow> string \<Rightarrow> log_out list" where
  "file_out env s e line =
     (if le_level e \<ge> lg_file_level s
      then concat (map (\<lambda>sink.
             if ls_path sink = [] \<or> \<not> ls_async sink then []
             else if lg_current_log_path s = [] then []
             else if env_can_append env (lg_current_log_path s) then [Append (lg_current_log_path s) line]
             else []) (lg_sinks s))
      else [])"

definition entry_out :: "log_env \<Rightarrow> logger \<Rightarrow> log_entry \<Rightarrow> log_out list" where
  "entry_out env s e =
     (let line = format_entry (env_strftime env) (lg_fmt s) e @ [CHR 0x0A]
      in console_out env s e line @ file_out env s e line)"

text \<open>One turn of \<open>log_thread_loop\<close>: the whole queue is taken, then written.\<close>

definition log_turn :: "log_env \<Rightarrow> logger \<Rightarrow> log_out list \<times> logger" where
  "log_turn env s =
     (if lg_queue s = [] then ([], s)
      else let batch = lg_queue s; s1 = s\<lparr>lg_queue := []\<rparr>
           in (concat (map (entry_out env s1) batch),
               s1\<lparr>lg_total_logged := lg_total_logged s1 + of_nat (length batch)\<rparr>))"

definition log_flush :: "log_env \<Rightarrow> logger \<Rightarrow> log_out list \<times> logger" where
  "log_flush env s =
     (concat (map (\<lambda>e.
        let line = format_entry (env_strftime env) (lg_fmt s) e @ [CHR 0x0A]
        in concat (map (\<lambda>sink. if ls_path sink = [] then []
                               else if env_can_append env (ls_path sink) then [Append (ls_path sink) line]
                               else []) (lg_sinks s))) (lg_queue s)),
      s\<lparr>lg_queue := []\<rparr>)"

text \<open>
  \<open>shutdown\<close>: the thread may find the flag at the top of its loop and end at once, or be woken
  from its wait and take one more batch (\<open>drains\<close>); then the rest is flushed.
\<close>

definition log_shutdown :: "log_env \<Rightarrow> bool \<Rightarrow> logger \<Rightarrow> log_out list \<times> logger" where
  "log_shutdown env drains s =
     (if \<not> lg_running s then ([], s)
      else let s1 = s\<lparr>lg_running := False\<rparr>;
               (out1, s2) = (if drains then log_turn env s1 else ([], s1));
               (out2, s3) = log_flush env s2
           in (out1 @ out2, s3))"

text \<open>
  Rotation. \<open>compress_old_logs\<close> with the regular files of each sink's directory (\<open>None\<close>: the
  directory cannot be read) gives the shell commands it runs.
\<close>

definition contains_gz :: "string \<Rightarrow> bool" where
  "contains_gz name \<longleftrightarrow> (\<exists>i\<in>set [0..<length name]. take 3 (drop i name) = ''.gz'')"

definition path_join :: "string \<Rightarrow> string \<Rightarrow> string" where
  "path_join dir name = (if dir \<noteq> [] \<and> last dir \<noteq> CHR ''/'' then dir @ ''/'' @ name else dir @ name)"

definition compress_sink :: "(string \<Rightarrow> string list option) \<Rightarrow> log_sink \<Rightarrow> string list" where
  "compress_sink listing sink =
     (if ls_path sink = [] \<or> \<not> ls_compress sink then []
      else case listing (ls_path sink) of
        None \<Rightarrow> []
      | Some names \<Rightarrow>
          map (\<lambda>name. ''gzip '' @ [CHR 0x22] @ path_join (ls_path sink) name @ [CHR 0x22])
            (filter (\<lambda>name. \<not> contains_gz name \<and> CHR ''.'' \<in> set name) names))"

definition compress_old_logs :: "(string \<Rightarrow> string list option) \<Rightarrow> logger \<Rightarrow> string list" where
  "compress_old_logs listing s = concat (map (compress_sink listing) (lg_sinks s))"

definition check_rotate :: "int \<Rightarrow> (string \<Rightarrow> string list option) \<Rightarrow> logger \<Rightarrow> string list \<times> logger" where
  "check_rotate yday listing s =
     (if yday \<noteq> lg_today_yday s
      then let s1 = s\<lparr>lg_today_yday := yday\<rparr> in (if lg_running s1 then compress_old_logs listing s1 else [], s1)
      else ([], s))"

section \<open>Runs\<close>

text \<open>Calls by the program and turns of the log thread, in the order in which they happen.\<close>

datatype log_op = Write int int log_level "string option" string | Turn

fun log_step :: "log_env \<Rightarrow> log_op \<Rightarrow> logger \<Rightarrow> log_out list \<times> logger" where
  "log_step env (Write now tid lvl tag msg) s = ([], log_write now tid lvl tag msg s)"
| "log_step env Turn s = log_turn env s"

fun log_run :: "log_env \<Rightarrow> log_op list \<Rightarrow> logger \<Rightarrow> log_out list \<times> logger" where
  "log_run env [] s = ([], s)"
| "log_run env (x # xs) s =
     (let (out1, s1) = log_step env x s; (out2, s2) = log_run env xs s1 in (out1 @ out2, s2))"

text \<open>
  The specification of a bounded queue that refuses newcomers while it is full: the entries
  admitted, from the length \<open>n\<close> of the queue on, and the number refused.
\<close>

fun admitted :: "logger \<Rightarrow> nat \<Rightarrow> log_op list \<Rightarrow> log_entry list" where
  "admitted s n [] = []"
| "admitted s n (Turn # xs) = admitted s 0 xs"
| "admitted s n (Write now tid lvl tag msg # xs) =
     (if wanted lvl s \<and> n < lg_queue_max s then make_entry now tid lvl tag msg s # admitted s (Suc n) xs
      else admitted s n xs)"

fun refused :: "logger \<Rightarrow> nat \<Rightarrow> log_op list \<Rightarrow> nat" where
  "refused s n [] = 0"
| "refused s n (Turn # xs) = refused s 0 xs"
| "refused s n (Write now tid lvl tag msg # xs) =
     (if \<not> wanted lvl s then refused s n xs
      else if n < lg_queue_max s then refused s (Suc n) xs else Suc (refused s n xs))"

text \<open>The parts of the state that a run does not change.\<close>

definition same_setup :: "logger \<Rightarrow> logger \<Rightarrow> bool" where
  "same_setup s s' \<longleftrightarrow> (\<exists>q d n. s' = s\<lparr>lg_queue := q, lg_dropped := d, lg_total_logged := n\<rparr>)"

lemma same_setup_refl: "same_setup s s"
  unfolding same_setup_def by (intro exI [of _ "lg_queue s"] exI [of _ "lg_dropped s"] exI [of _ "lg_total_logged s"]) simp

lemma same_setup_trans: "same_setup a b \<Longrightarrow> same_setup b c \<Longrightarrow> same_setup a c"
  by (auto simp: same_setup_def) blast

lemma same_setup_fields:
  assumes "same_setup s s'"
  shows "wanted lvl s' = wanted lvl s" "make_entry now tid lvl tag msg s' = make_entry now tid lvl tag msg s"
    "lg_queue_max s' = lg_queue_max s" "lg_current_log_path s' = lg_current_log_path s" "lg_sinks s' = lg_sinks s"
    "entry_out env s' = entry_out env s" "admitted s' = admitted s" "refused s' = refused s"
proof -
  obtain q d n where s': "s' = s\<lparr>lg_queue := q, lg_dropped := d, lg_total_logged := n\<rparr>" using assms by (auto simp: same_setup_def)
  show w: "wanted lvl s' = wanted lvl s" for lvl by (simp add: s' wanted_def)
  show m: "make_entry now tid lvl tag msg s' = make_entry now tid lvl tag msg s" for now tid lvl tag msg
    by (simp add: s' make_entry_def Let_def)
  show x: "lg_queue_max s' = lg_queue_max s" "lg_current_log_path s' = lg_current_log_path s" "lg_sinks s' = lg_sinks s"
    by (simp_all add: s')
  show "entry_out env s' = entry_out env s"
    by (rule ext) (simp add: s' entry_out_def console_out_def file_out_def Let_def cong: if_cong)
  have "admitted s' k xs = admitted s k xs" for k xs
  proof (induction xs arbitrary: k)
    case (Cons y ys)
    then show ?case by (cases y) (simp_all add: w m x)
  qed simp
  then show "admitted s' = admitted s" by (intro ext)
  have "refused s' k xs = refused s k xs" for k xs
  proof (induction xs arbitrary: k)
    case (Cons y ys)
    then show ?case by (cases y) (simp_all add: w x)
  qed simp
  then show "refused s' = refused s" by (intro ext)
qed

lemma same_setup_queue: "same_setup s (s\<lparr>lg_queue := q\<rparr>)"
  unfolding same_setup_def by (intro exI [of _ q] exI [of _ "lg_dropped s"] exI [of _ "lg_total_logged s"]) simp

lemma log_turn_empties: "lg_queue (snd (log_turn env s)) = []"
  by (simp add: log_turn_def Let_def)

lemma same_setup_step: "same_setup s (snd (log_step env x s))"
proof (cases x)
  case (Write now tid lvl tag msg)
  have "same_setup s (s\<lparr>lg_dropped := d\<rparr>)" for d
    unfolding same_setup_def by (intro exI [of _ "lg_queue s"] exI [of _ d] exI [of _ "lg_total_logged s"]) simp
  then show ?thesis by (simp add: Write log_write_def enqueue_def same_setup_refl same_setup_queue)
next
  case Turn
  have "same_setup s (s\<lparr>lg_queue := q, lg_total_logged := n\<rparr>)" for q n
    unfolding same_setup_def by (intro exI [of _ q] exI [of _ "lg_dropped s"] exI [of _ n]) simp
  then show ?thesis by (simp add: Turn log_turn_def Let_def same_setup_refl)
qed

lemma log_step_spec:
  assumes "length (lg_queue s) \<le> lg_queue_max s"
  shows "\<exists>printed. fst (log_step env x s) = concat (map (entry_out env s) printed) \<and>
    printed @ lg_queue (snd (log_step env x s)) @ admitted s (length (lg_queue (snd (log_step env x s)))) xs =
      lg_queue s @ admitted s (length (lg_queue s)) (x # xs) \<and>
    lg_dropped (snd (log_step env x s)) + of_nat (refused s (length (lg_queue (snd (log_step env x s)))) xs) =
      lg_dropped s + of_nat (refused s (length (lg_queue s)) (x # xs)) \<and>
    lg_total_logged (snd (log_step env x s)) = lg_total_logged s + of_nat (length printed) \<and>
    length (lg_queue (snd (log_step env x s))) \<le> lg_queue_max s"
proof (cases x)
  case (Write now tid lvl tag msg)
  then show ?thesis using assms
    by (intro exI [of _ "[]"]) (auto simp: log_write_def enqueue_def)
next
  case Turn
  have "entry_out env (s\<lparr>lg_queue := []\<rparr>) = entry_out env s"
    by (rule same_setup_fields(6)) (rule same_setup_queue)
  with Turn show ?thesis by (intro exI [of _ "lg_queue s"]) (simp add: log_turn_def Let_def)
qed

lemma log_run_spec:
  "length (lg_queue s) \<le> lg_queue_max s \<Longrightarrow>
   \<exists>printed. fst (log_run env xs s) = concat (map (entry_out env s) printed) \<and>
     printed @ lg_queue (snd (log_run env xs s)) = lg_queue s @ admitted s (length (lg_queue s)) xs \<and>
     lg_dropped (snd (log_run env xs s)) = lg_dropped s + of_nat (refused s (length (lg_queue s)) xs) \<and>
     lg_total_logged (snd (log_run env xs s)) = lg_total_logged s + of_nat (length printed) \<and>
     length (lg_queue (snd (log_run env xs s))) \<le> lg_queue_max s \<and> same_setup s (snd (log_run env xs s))"
proof (induction xs arbitrary: s)
  case Nil
  then show ?case by (simp add: same_setup_refl)
next
  case (Cons x xs)
  let ?s1 = "snd (log_step env x s)"
  note f = same_setup_fields [OF same_setup_step [of s env x]]
  obtain p1 where p1: "fst (log_step env x s) = concat (map (entry_out env s) p1)"
    "p1 @ lg_queue ?s1 @ admitted s (length (lg_queue ?s1)) xs = lg_queue s @ admitted s (length (lg_queue s)) (x # xs)"
    "lg_dropped ?s1 + of_nat (refused s (length (lg_queue ?s1)) xs) = lg_dropped s + of_nat (refused s (length (lg_queue s)) (x # xs))"
    "lg_total_logged ?s1 = lg_total_logged s + of_nat (length p1)" "length (lg_queue ?s1) \<le> lg_queue_max s"
    using log_step_spec [OF Cons.prems, of env x xs] by blast
  have "length (lg_queue ?s1) \<le> lg_queue_max ?s1" using p1(5) f(3) by simp
  from Cons.IH [OF this] obtain p2 where p2: "fst (log_run env xs ?s1) = concat (map (entry_out env s) p2)"
    "p2 @ lg_queue (snd (log_run env xs ?s1)) = lg_queue ?s1 @ admitted s (length (lg_queue ?s1)) xs"
    "lg_dropped (snd (log_run env xs ?s1)) = lg_dropped ?s1 + of_nat (refused s (length (lg_queue ?s1)) xs)"
    "lg_total_logged (snd (log_run env xs ?s1)) = lg_total_logged ?s1 + of_nat (length p2)"
    "length (lg_queue (snd (log_run env xs ?s1))) \<le> lg_queue_max s" "same_setup ?s1 (snd (log_run env xs ?s1))"
    unfolding f by blast
  have run: "log_run env (x # xs) s = (fst (log_step env x s) @ fst (log_run env xs ?s1), snd (log_run env xs ?s1))"
    by (simp add: split_beta)
  have "(p1 @ p2) @ lg_queue (snd (log_run env xs ?s1)) = lg_queue s @ admitted s (length (lg_queue s)) (x # xs)"
    using p1(2) p2(2) by simp
  moreover have "lg_dropped (snd (log_run env xs ?s1)) = lg_dropped s + of_nat (refused s (length (lg_queue s)) (x # xs))"
    using p1(3) p2(3) by simp
  ultimately show ?case unfolding run
    using p1 p2 same_setup_trans [OF same_setup_step p2(6)] by (intro exI [of _ "p1 @ p2"]) simp
qed

section \<open>Properties\<close>

text \<open>
  C28: The logger is a bounded first-in first-out queue: for any interleaving of log calls with
  turns of the log thread, the entries the thread writes followed by those still queued are
  exactly the admitted entries in the order of the calls; a call is refused exactly when it
  finds the queue full, whatever its level, and \<open>dropped_\<close> counts the refusals; the queue never
  exceeds its bound and \<open>total_logged_\<close> counts what was written.
\<close>

theorem logger_bounded_fifo:
  assumes "lg_queue s = []" "log_run env xs s = (out, s')"
  shows "\<exists>printed. out = concat (map (entry_out env s) printed) \<and>
    printed @ lg_queue s' = admitted s 0 xs \<and> lg_dropped s' = lg_dropped s + of_nat (refused s 0 xs) \<and>
    lg_total_logged s' = lg_total_logged s + of_nat (length printed) \<and> length (lg_queue s') \<le> lg_queue_max s"
  using log_run_spec [of s env xs] assms by auto

definition quiet_env :: log_env where
  "quiet_env = \<lparr>env_strftime = (\<lambda>_ _. ''t''), env_stdout_tty = False, env_stderr_tty = False, env_can_append = (\<lambda>_. False)\<rparr>"

definition started :: logger where
  "started = fst (log_init_dir 1 ''logs'' ''app'' INFO DEBUG Logger_new)"

theorem logger_bounded_fifo_witness:
  "\<exists>printed. fst (log_run quiet_env [Write 0 1 TRACE None ''a'', Write 0 1 INFO None ''b'', Turn] started) =
     concat (map (entry_out quiet_env started) printed) \<and> printed = [make_entry 0 1 INFO None ''b'' started]"
proof -
  let ?xs = "[Write 0 1 TRACE None ''a'', Write 0 1 INFO None ''b'', Turn]"
  have "lg_queue started = []" by (simp add: started_def log_init_dir_def log_init_def Logger_new_def)
  moreover obtain out s' where r: "log_run quiet_env ?xs started = (out, s')" by (rule prod.exhaust)
  ultimately obtain printed where "out = concat (map (entry_out quiet_env started) printed)"
    "printed @ lg_queue s' = admitted started 0 ?xs" using logger_bounded_fifo [of started quiet_env ?xs out s'] by blast
  moreover have "lg_queue s' = []" using arg_cong [OF r, of "lg_queue \<circ> snd"]
    by (simp add: split_beta log_turn_empties)
  ultimately show ?thesis using r
    by (simp add: wanted_def level_simps started_def log_init_dir_def log_init_def Logger_new_def)
qed

text \<open>
  No log file is ever written: no code assigns \<open>current_log_path_\<close>, so in every run the
  log thread only writes to the console; the flush at shutdown opens the sink's directory
  itself, which cannot be opened for appending, so it writes nothing either.
\<close>

theorem log_files_never_written:
  assumes "lg_current_log_path s = []" "length (lg_queue s) \<le> lg_queue_max s"
    and "\<forall>sink\<in>set (lg_sinks s). \<not> env_can_append env (ls_path sink)"
    and "log_run env xs s = (out1, s1)" "log_shutdown env drains s1 = (out2, s2)"
  shows "Append path line \<notin> set (out1 @ out2)"
proof -
  have thread: "Append path line \<notin> set (entry_out env s' e)" if "lg_current_log_path s' = []" for s' e
    using that by (auto simp: entry_out_def console_out_def file_out_def Let_def)
  obtain printed where p: "out1 = concat (map (entry_out env s) printed)" "same_setup s s1"
    using log_run_spec [OF assms(2), of env xs] assms(4) by auto
  note f = same_setup_fields [OF p(2)]
  have 1: "Append path line \<notin> set out1" using thread [OF assms(1)] by (auto simp: p(1))
  have turn: "Append path line \<notin> set (fst (log_turn env s'))" "lg_sinks (snd (log_turn env s')) = lg_sinks s'"
    if "lg_current_log_path s' = []" for s' using that thread by (auto simp: log_turn_def Let_def)
  have flush: "Append path line \<notin> set (fst (log_flush env s'))" if "lg_sinks s' = lg_sinks s" for s'
    using assms(3) that by (auto simp: log_flush_def Let_def)
  have "lg_current_log_path (s1\<lparr>lg_running := False\<rparr>) = []" "lg_sinks (s1\<lparr>lg_running := False\<rparr>) = lg_sinks s"
    using f assms(1) by simp_all
  then have "Append path line \<notin> set (fst (log_shutdown env drains s1))"
    using turn [of "s1\<lparr>lg_running := False\<rparr>"] flush by (auto simp: log_shutdown_def Let_def split_beta split: if_splits)
  with 1 assms(5) show ?thesis by simp
qed

theorem log_files_never_written_witness:
  "Append ''logs'' l \<notin> set (fst (log_run quiet_env [Write 0 1 FATAL None ''x''] started) @
     fst (log_shutdown quiet_env True (snd (log_run quiet_env [Write 0 1 FATAL None ''x''] started))))"
proof (rule log_files_never_written [where s = started and env = quiet_env, OF _ _ _ prod.collapse [symmetric] prod.collapse [symmetric]])
qed (simp_all add: started_def log_init_dir_def log_init_def Logger_new_def quiet_env_def)

lemma flush_nothing:
  assumes "\<forall>sink\<in>set (lg_sinks s). \<not> env_can_append env (ls_path sink)"
  shows "fst (log_flush env s) = []"
proof -
  have "x \<notin> set (fst (log_flush env s))" for x using assms by (auto simp: log_flush_def Let_def)
  then show ?thesis by (cases "fst (log_flush env s)") auto
qed

text \<open>
  Shutting down can lose the last entries: when the log thread sees the cleared flag before
  the queue, \<open>flush\<close> takes the queued entries, writes none of them to the console, and the
  queue is empty afterwards.
\<close>

theorem shutdown_discards_queue:
  assumes "lg_running s" "\<forall>sink\<in>set (lg_sinks s). \<not> env_can_append env (ls_path sink)"
  shows "\<exists>s'. log_shutdown env False s = ([], s') \<and> lg_queue s' = [] \<and> lg_total_logged s' = lg_total_logged s"
proof -
  let ?s = "s\<lparr>lg_running := False\<rparr>"
  have "\<forall>sink\<in>set (lg_sinks ?s). \<not> env_can_append env (ls_path sink)" using assms(2) by simp
  from flush_nothing [OF this] have "fst (log_flush env ?s) = []" .
  moreover have "snd (log_flush env ?s) = ?s\<lparr>lg_queue := []\<rparr>" unfolding log_flush_def snd_conv ..
  ultimately have "log_flush env ?s = ([], ?s\<lparr>lg_queue := []\<rparr>)" by (simp only: prod_eq_iff fst_conv snd_conv simp_thms)
  then show ?thesis using assms(1) by (simp add: log_shutdown_def)
qed

theorem shutdown_discards_queue_witness:
  "\<exists>s'. log_shutdown quiet_env False (log_write 0 1 FATAL None ''x'' started) = ([], s') \<and> lg_queue s' = []"
proof -
  have "log_write 0 1 FATAL None ''x'' started = started\<lparr>lg_queue := [make_entry 0 1 FATAL None ''x'' started]\<rparr>"
    by (simp add: log_write_def enqueue_def wanted_def level_simps started_def log_init_dir_def log_init_def Logger_new_def)
  then have "lg_running (log_write 0 1 FATAL None ''x'' started)"
    "\<forall>sink\<in>set (lg_sinks (log_write 0 1 FATAL None ''x'' started)). \<not> env_can_append quiet_env (ls_path sink)"
    by (simp_all add: started_def log_init_dir_def log_init_def quiet_env_def)
  from shutdown_discards_queue [OF this] show ?thesis by blast
qed

text \<open>Errors go to the standard error stream and the rest to the standard output, above the console level.\<close>

lemma console_routing:
  "console_out env s e line =
   (if le_level e < lg_console_level s then []
    else if le_level e < ERROR then [Stdout (if colorful (lg_fmt s) \<and> env_stdout_tty env
      then level_color (le_level e) @ c_str line @ [CHR 0x1B] @ ''[0m'' else line)]
    else [Stderr (if colorful (lg_fmt s) \<and> env_stderr_tty env
      then level_color (le_level e) @ c_str line @ [CHR 0x1B] @ ''[0m'' else line)])"
  by (auto simp: console_out_def Let_def not_le)

end
