(* ===== verification/Db_Pool.thy ===== *)
theory Db_Pool
  imports Prelude
begin

text \<open>
  Class \<open>ConnectionPool\<close> and \<open>QueryTask\<close> (\<open>src/db/connection_pool.h\<close>, \<open>connection_pool.cpp\<close>).
  The build option \<open>USE_SQLITE\<close> is the argument \<open>use_sqlite\<close>; the SQLite library is a parameter:
  \<open>opens\<close> tells which opens of the initialisation succeed, and a statement yields an
  \<open>sql_answer\<close>, what opening and executing report with the rows that reach the callback.
\<close>

section \<open>State and operations\<close>

datatype db_type = MYSQL | SQLITE

record db_result =
  db_success :: bool
  db_affected_rows :: int
  db_insert_id :: int
  db_error_msg :: string
  db_rows :: "string list list"
  db_cols :: "string list"

definition DBResult_new :: db_result where
  "DBResult_new = \<lparr>db_success = False, db_affected_rows = 0, db_insert_id = 0, db_error_msg = [], db_rows = [], db_cols = []\<rparr>"

text \<open>Connections are numbered in the order in which they are opened.\<close>

record db_pool =
  db_type :: db_type
  db_pool :: "nat list"
  db_free_list :: "nat list"
  db_done :: bool
  db_mysql :: "string \<times> int \<times> string \<times> string \<times> string"
  db_sqlite_path :: string
  db_initialized :: bool
  db_has_thread_pool :: bool

definition ConnectionPool_new :: db_pool where
  "ConnectionPool_new = \<lparr>db_type = SQLITE, db_pool = [], db_free_list = [], db_done = False,
     db_mysql = ([], 3306, [], [], []), db_sqlite_path = [], db_initialized = False, db_has_thread_pool = False\<rparr>"

definition init_mysql :: "string \<Rightarrow> int \<Rightarrow> string \<Rightarrow> string \<Rightarrow> string \<Rightarrow> db_pool \<Rightarrow> bool \<times> db_pool" where
  "init_mysql host port user password db s =
     (True, s\<lparr>db_type := MYSQL, db_mysql := (host, port, user, password, db), db_initialized := True\<rparr>)"

definition init_sqlite :: "bool \<Rightarrow> bool list \<Rightarrow> string \<Rightarrow> db_pool \<Rightarrow> bool \<times> db_pool" where
  "init_sqlite use_sqlite opens path s =
     (let s1 = s\<lparr>db_type := SQLITE, db_sqlite_path := path\<rparr>;
          conns = (if use_sqlite then map fst (filter snd (enumerate (length (db_pool s)) opens)) else [])
      in (True, s1\<lparr>db_pool := db_pool s1 @ conns, db_free_list := db_free_list s1 @ conns, db_initialized := True\<rparr>))"

definition db_close :: "db_pool \<Rightarrow> db_pool" where
  "db_close s = s\<lparr>db_done := True, db_pool := [], db_free_list := [], db_initialized := False\<rparr>"

definition get_connection :: "db_pool \<Rightarrow> nat option \<times> db_pool" where
  "get_connection s =
     (case db_free_list s of [] \<Rightarrow> (None, s) | c # cs \<Rightarrow> (Some c, s\<lparr>db_free_list := cs\<rparr>))"

text \<open>
  A row as the callback sees it: column names, if any, and the values, of which \<open>NULL\<close> is
  \<open>None\<close>. An execution that fails may have delivered rows before, and a message.
\<close>

datatype sql_answer =
    Open_Failed string
  | Executed "(string list option \<times> string option list) list"
  | Exec_Failed "(string list option \<times> string option list) list" "string option"

definition row_callback :: "string list option \<times> string option list \<Rightarrow> db_result \<Rightarrow> db_result" where
  "row_callback r res =
     (let (names, vals) = r;
          res1 = (case names of Some ns \<Rightarrow> if db_cols res = [] then res\<lparr>db_cols := ns\<rparr> else res | None \<Rightarrow> res)
      in res1\<lparr>db_rows := db_rows res1 @ [map (\<lambda>v. case v of None \<Rightarrow> [] | Some x \<Rightarrow> x) vals]\<rparr>)"

definition execute_sql :: "bool \<Rightarrow> (string \<Rightarrow> string \<Rightarrow> sql_answer) \<Rightarrow> string \<Rightarrow> db_pool \<Rightarrow> db_result \<times> db_pool" where
  "execute_sql use_sqlite sqlite sql s =
     (if use_sqlite \<and> db_type s = SQLITE
      then let s1 = snd (get_connection s) in
        (case sqlite (db_sqlite_path s1) sql of
           Open_Failed msg \<Rightarrow> (DBResult_new\<lparr>db_success := False, db_error_msg := msg\<rparr>, s1)
         | Exec_Failed rs msg \<Rightarrow>
             (let res = (fold row_callback rs DBResult_new)\<lparr>db_success := False\<rparr>
              in (case msg of None \<Rightarrow> res | Some m \<Rightarrow> res\<lparr>db_error_msg := m\<rparr>, s1))
         | Executed rs \<Rightarrow> ((fold row_callback rs DBResult_new)\<lparr>db_success := True\<rparr>, s1))
      else (DBResult_new\<lparr>db_success := True\<rparr>, s))"

text \<open>
  \<open>execute_sql_async\<close> without a thread pool runs the statement at once and calls the callback;
  with one it hands over a task (which the class \<open>ThreadPool\<close> of this repository has no function
  to accept). The results passed to the callback now, the statements handed over, the state.
\<close>

definition execute_sql_async ::
  "bool \<Rightarrow> (string \<Rightarrow> string \<Rightarrow> sql_answer) \<Rightarrow> string \<Rightarrow> bool \<Rightarrow> db_pool \<Rightarrow> db_result list \<times> string list \<times> db_pool" where
  "execute_sql_async use_sqlite sqlite sql has_cb s =
     (if \<not> db_has_thread_pool s
      then let (r, s1) = execute_sql use_sqlite sqlite sql s in (if has_cb then [r] else [], [], s1)
      else ([], [sql], s))"

definition query_run :: "bool \<Rightarrow> (string \<Rightarrow> string \<Rightarrow> sql_answer) \<Rightarrow> string \<Rightarrow> bool \<Rightarrow> db_pool \<Rightarrow> db_result list \<times> db_pool" where
  "query_run use_sqlite sqlite sql has_cb s =
     (let (r, s1) = execute_sql use_sqlite sqlite sql s in (if has_cb then [r] else [], s1))"

definition query_run_async :: "bool \<Rightarrow> (string \<Rightarrow> string \<Rightarrow> sql_answer) \<Rightarrow> string \<Rightarrow> bool \<Rightarrow> db_pool \<Rightarrow> db_result list \<times> string list \<times> db_pool" where
  "query_run_async use_sqlite sqlite sql has_cb s = execute_sql_async use_sqlite sqlite sql has_cb s"

definition set_thread_pool :: "bool \<Rightarrow> db_pool \<Rightarrow> db_pool" where
  "set_thread_pool given s = s\<lparr>db_has_thread_pool := given\<rparr>"

text \<open>
  \<open>SQLiteConnection\<close>: a database handle, null before it is opened. Its \<open>execute\<close> appends the rows to the
  result it is given, without column names; a null handle is for SQLite to refuse.
\<close>

definition conn_row :: "string option list \<Rightarrow> db_result \<Rightarrow> db_result" where
  "conn_row vals out = out\<lparr>db_rows := db_rows out @ [map (\<lambda>v. case v of None \<Rightarrow> [] | Some x \<Rightarrow> x) vals]\<rparr>"

definition conn_execute ::
  "(string \<Rightarrow> string option list list \<times> bool \<times> string option) \<Rightarrow> string \<Rightarrow> db_result \<Rightarrow> bool \<times> db_result" where
  "conn_execute sqlite_exec sql out =
     (let (rs, ok, err) = sqlite_exec sql; out1 = fold conn_row rs out
      in if \<not> ok
         then (False, case err of None \<Rightarrow> out1\<lparr>db_success := False\<rparr>
                                | Some m \<Rightarrow> out1\<lparr>db_success := False, db_error_msg := m\<rparr>)
         else (True, out1\<lparr>db_success := True\<rparr>))"

definition conn_error :: "string option \<Rightarrow> string" where
  "conn_error db_errmsg = (case db_errmsg of None \<Rightarrow> [] | Some m \<Rightarrow> m)"

section \<open>Results\<close>

abbreviation row_values :: "string list option \<times> string option list \<Rightarrow> string list" where
  "row_values r \<equiv> map (\<lambda>v. case v of None \<Rightarrow> [] | Some x \<Rightarrow> x) (snd r)"

lemma fold_row_callback:
  "db_rows (fold row_callback rs res) = db_rows res @ map row_values rs"
  "db_cols (fold row_callback rs res) =
     (if db_cols res \<noteq> [] then db_cols res
      else case filter (\<lambda>ns. ns \<noteq> []) (map the (filter (\<lambda>ns. ns \<noteq> None) (map fst rs))) of [] \<Rightarrow> [] | ns # _ \<Rightarrow> ns)"
proof -
  show "db_rows (fold row_callback rs res) = db_rows res @ map row_values rs"
  proof (induction rs arbitrary: res)
    case (Cons r rs)
    have "db_rows (row_callback r res) = db_rows res @ [row_values r]"
      by (simp add: row_callback_def split_beta Let_def split: option.split)
    with Cons show ?case by simp
  qed simp
  show "db_cols (fold row_callback rs res) =
     (if db_cols res \<noteq> [] then db_cols res
      else case filter (\<lambda>ns. ns \<noteq> []) (map the (filter (\<lambda>ns. ns \<noteq> None) (map fst rs))) of [] \<Rightarrow> [] | ns # _ \<Rightarrow> ns)"
  proof (induction rs arbitrary: res)
    case (Cons r rs)
    have "db_cols (row_callback r res) = (case fst r of Some ns \<Rightarrow> if db_cols res = [] then ns else db_cols res | None \<Rightarrow> db_cols res)"
      by (simp add: row_callback_def split_beta Let_def split: option.split)
    with Cons show ?case by (auto split: option.splits)
  qed simp
qed

lemma execute_sql_drops:
  assumes "db_type s = SQLITE"
  shows "snd (execute_sql True sqlite sql s) = s\<lparr>db_free_list := drop 1 (db_free_list s)\<rparr>"
  using assms
  by (auto simp: execute_sql_def get_connection_def Let_def split: list.splits sql_answer.splits)

definition run_all :: "(string \<Rightarrow> string \<Rightarrow> sql_answer) \<Rightarrow> string list \<Rightarrow> db_pool \<Rightarrow> db_pool" where
  "run_all sqlite sqls s = fold (\<lambda>sql s. snd (execute_sql True sqlite sql s)) sqls s"

lemma run_all_drops:
  "db_type s = SQLITE \<Longrightarrow> db_free_list (run_all sqlite sqls s) = drop (length sqls) (db_free_list s) \<and>
     db_type (run_all sqlite sqls s) = SQLITE"
proof (induction sqls arbitrary: s)
  case (Cons q qs)
  then show ?case using Cons.IH [of "snd (execute_sql True sqlite q s)"]
    by (simp add: run_all_def execute_sql_drops)
qed (simp add: run_all_def)

section \<open>Properties\<close>

text \<open>
  A statement that SQLite executes returns its rows in order, each with \<open>NULL\<close> as the
  empty string, the column names of the first row that has any, and success.
\<close>

theorem execute_sql_returns_rows:
  assumes "db_type s = SQLITE" "sqlite (db_sqlite_path s) sql = Executed ((Some (n # ns), vs) # rs)"
  shows "db_success (fst (execute_sql True sqlite sql s)) \<and>
    db_rows (fst (execute_sql True sqlite sql s)) =
      map (map (\<lambda>v. case v of None \<Rightarrow> [] | Some x \<Rightarrow> x)) (vs # map snd rs) \<and>
    db_cols (fst (execute_sql True sqlite sql s)) = n # ns"
proof -
  have "db_sqlite_path (snd (get_connection s)) = db_sqlite_path s" by (simp add: get_connection_def split: list.split)
  then have e: "fst (execute_sql True sqlite sql s) = (fold row_callback ((Some (n # ns), vs) # rs) DBResult_new)\<lparr>db_success := True\<rparr>"
    using assms by (simp add: execute_sql_def Let_def)
  note f = fold_row_callback [of "(Some (n # ns), vs) # rs" DBResult_new]
  show ?thesis unfolding e
    using f by (simp del: fold_simps add: DBResult_new_def comp_def)
qed

theorem execute_sql_returns_rows_witness:
  "db_rows (fst (execute_sql True (\<lambda>_ _. Executed [(Some [''id''], [Some ''1'']), (Some [''id''], [None])]) ''q'' ConnectionPool_new)) =
     [[''1''], []  # []]"
  using execute_sql_returns_rows [of ConnectionPool_new "\<lambda>_ _. Executed [(Some [''id''], [Some ''1'']), (Some [''id''], [None])]" "''q''"
      "''id''" "[]" "[Some ''1'']" "[(Some [''id''], [None])]"]
  by (simp add: ConnectionPool_new_def)

text \<open>
  Connections leak: every statement takes a connection from the free list that is never
  used or returned, so after as many statements as the pool has connections \<open>get_connection\<close>
  returns null for good.
\<close>

theorem execute_sql_leaks_connections:
  assumes "db_type s = SQLITE" "length (db_free_list s) \<le> length sqls"
  shows "get_connection (run_all sqlite sqls s) = (None, run_all sqlite sqls s)"
  using run_all_drops [OF assms(1), of sqlite sqls] assms(2) by (simp add: get_connection_def)

theorem execute_sql_leaks_connections_witness:
  "fst (get_connection (run_all (\<lambda>_ _. Executed []) [''a'', ''b''] (snd (init_sqlite True [True, True] ''f'' ConnectionPool_new)))) = None"
  using execute_sql_leaks_connections [of "snd (init_sqlite True [True, True] ''f'' ConnectionPool_new)" "[''a'', ''b'']" "\<lambda>_ _. Executed []"]
  by (simp add: init_sqlite_def ConnectionPool_new_def Let_def)

text \<open>
  For MySQL, and for SQLite in a build without it, every statement succeeds with an empty
  result and nothing is executed, also before the pool is initialised and after it is closed.
\<close>

theorem execute_sql_simulated:
  assumes "\<not> (use_sqlite \<and> db_type s = SQLITE)"
  shows "execute_sql use_sqlite sqlite sql s = (DBResult_new\<lparr>db_success := True\<rparr>, s) \<and>
    db_rows (fst (execute_sql use_sqlite sqlite sql s)) = []"
  unfolding execute_sql_def if_not_P [OF assms] by (simp add: DBResult_new_def)

theorem execute_sql_simulated_witness:
  "db_success (fst (execute_sql True (\<lambda>_ _. Open_Failed []) ''DROP TABLE t''
     (db_close (snd (init_mysql ''h'' 3306 ''u'' ''p'' ''d'' ConnectionPool_new)))))"
  using execute_sql_simulated [of True "db_close (snd (init_mysql ''h'' 3306 ''u'' ''p'' ''d'' ConnectionPool_new))"]
  by (simp add: db_close_def init_mysql_def)

text \<open>
  \<open>SQLiteConnection::execute\<close> adds to its result: the rows of this statement follow those that the
  result held before, and an error message of an earlier failure stays after a success.
\<close>

lemma fold_conn_row:
  "fold conn_row rs out = out\<lparr>db_rows := db_rows out @ map (map (\<lambda>v. case v of None \<Rightarrow> [] | Some x \<Rightarrow> x)) rs\<rparr>"
  by (induction rs arbitrary: out) (simp_all add: conn_row_def)

theorem conn_execute_accumulates:
  assumes "sqlite_exec sql = (rs, True, err)"
  shows "conn_execute sqlite_exec sql out =
    (True, out\<lparr>db_success := True, db_rows := db_rows out @ map (map (\<lambda>v. case v of None \<Rightarrow> [] | Some x \<Rightarrow> x)) rs\<rparr>)"
  by (simp add: conn_execute_def assms fold_conn_row)

end
