(* ===== verification/Signal_Handler.thy ===== *)
theory Signal_Handler
  imports Main
begin

text \<open>
  Class \<open>SignalHandler\<close> (\<open>src/base/process/signal_handler.h\<close>, \<open>signal_handler.cpp\<close>), the Linux
  variant: the installed handler, shutdown requests, the waiting loop and the shutdown
  callbacks. A signal without a handler ends the process.
\<close>

section \<open>State and operations\<close>

datatype signal = SIGINT | SIGTERM | SIGHUP | SIGQUIT | SIGUSR1 | SIGUSR2

record 'c signal_handler =
  sh_shutdown_requested :: bool
  sh_callbacks :: "'c list"
  sh_installed :: "signal list"

definition SignalHandler_new :: "'c signal_handler" where
  "SignalHandler_new = \<lparr>sh_shutdown_requested = False, sh_callbacks = [], sh_installed = []\<rparr>"

text \<open>\<open>on_signal\<close> ignores both of its arguments.\<close>

definition on_signal :: "signal \<Rightarrow> 'c \<Rightarrow> 'c signal_handler \<Rightarrow> 'c signal_handler" where
  "on_signal sig cb s = s"

definition on_shutdown :: "'c \<Rightarrow> 'c signal_handler \<Rightarrow> 'c signal_handler" where
  "on_shutdown cb s = s\<lparr>sh_callbacks := sh_callbacks s @ [cb]\<rparr>"

definition sh_start :: "'c signal_handler \<Rightarrow> 'c signal_handler" where
  "sh_start s = s\<lparr>sh_installed := [SIGINT, SIGTERM, SIGHUP]\<rparr>"

definition request_shutdown :: "'c signal_handler \<Rightarrow> 'c signal_handler" where
  "request_shutdown s = (if sh_shutdown_requested s then s else s\<lparr>sh_shutdown_requested := True\<rparr>)"

text \<open>The handler that \<open>start\<close> installs does nothing; \<open>None\<close> is the end of the process.\<close>

definition deliver :: "signal \<Rightarrow> 'c signal_handler \<Rightarrow> 'c signal_handler option" where
  "deliver sig s = (if sig \<in> set (sh_installed s) then Some s else None)"

text \<open>
  \<open>wait_for_shutdown\<close> with what happens between its polls of the flag: \<open>Waiting\<close> when the
  events are used up and the flag is still clear.
\<close>

datatype sh_event = Sig signal | Request

datatype sh_wait_result = Returned | Waiting | Killed

fun wait_for_shutdown :: "sh_event list \<Rightarrow> 'c signal_handler \<Rightarrow> sh_wait_result" where
  "wait_for_shutdown es s =
     (if sh_shutdown_requested s then Returned
      else case es of
        [] \<Rightarrow> Waiting
      | Request # es' \<Rightarrow> wait_for_shutdown es' (request_shutdown s)
      | Sig sig # es' \<Rightarrow>
          (case deliver sig s of None \<Rightarrow> Killed | Some s' \<Rightarrow> wait_for_shutdown es' s'))"

declare wait_for_shutdown.simps [simp del]

text \<open>
  \<open>invoke_shutdown\<close>: the callbacks called, in order, and whether it returned. An exception of
  class \<open>std::exception\<close> is swallowed, any other leaves the function.
\<close>

datatype cb_outcome = Ends | Throws_Std | Throws_Other

fun invoke_callbacks :: "('c \<Rightarrow> cb_outcome) \<Rightarrow> 'c list \<Rightarrow> 'c list \<times> bool" where
  "invoke_callbacks run [] = ([], True)"
| "invoke_callbacks run (cb # cbs) =
     (if run cb = Throws_Other then ([cb], False)
      else let (called, ok) = invoke_callbacks run cbs in (cb # called, ok))"

definition invoke_shutdown :: "('c \<Rightarrow> cb_outcome) \<Rightarrow> 'c signal_handler \<Rightarrow> 'c list \<times> bool" where
  "invoke_shutdown run s = invoke_callbacks run (sh_callbacks s)"

section \<open>Behaviour\<close>

lemma invoke_callbacks_split:
  "invoke_callbacks run cbs =
   (let ok = takeWhile (\<lambda>cb. run cb \<noteq> Throws_Other) cbs
    in if length ok = length cbs then (cbs, True) else (take (Suc (length ok)) cbs, False))"
  by (induction cbs) (auto simp: Let_def)

lemma wait_ignores_signals:
  "\<not> sh_shutdown_requested s \<Longrightarrow> set sigs \<subseteq> set (sh_installed s) \<Longrightarrow>
   wait_for_shutdown (map Sig sigs @ es) s = wait_for_shutdown es s"
proof (induction sigs)
  case (Cons sig sigs)
  then show ?case by (subst wait_for_shutdown.simps) (simp add: deliver_def)
qed simp

lemma wait_requested: "wait_for_shutdown (Request # es) s = Returned"
  by (subst wait_for_shutdown.simps, subst wait_for_shutdown.simps) (simp add: request_shutdown_def)

section \<open>Properties\<close>

text \<open>
  After \<open>start\<close>, interrupt, termination and hang-up signals have no effect at all: however
  many arrive, and whatever callbacks \<open>on_signal\<close> was given for them, \<open>wait_for_shutdown\<close> keeps
  waiting; only a call of \<open>request_shutdown\<close> by the program makes it return.
\<close>

theorem signals_do_not_shut_down:
  assumes "\<not> sh_shutdown_requested s" "set sigs \<subseteq> {SIGINT, SIGTERM, SIGHUP}"
  shows "wait_for_shutdown (map Sig sigs) (on_signal sig cb (sh_start s)) = Waiting \<and>
    wait_for_shutdown (map Sig sigs @ Request # es) (on_signal sig cb (sh_start s)) = Returned"
proof -
  let ?s = "on_signal sig cb (sh_start s)"
  have s: "\<not> sh_shutdown_requested ?s" "set sigs \<subseteq> set (sh_installed ?s)"
    using assms by (auto simp: on_signal_def sh_start_def)
  have "wait_for_shutdown [] ?s = Waiting" using s(1) by (subst wait_for_shutdown.simps) simp
  with wait_ignores_signals [OF s, of "[]"] wait_ignores_signals [OF s, of "Request # es"] show ?thesis
    by (simp add: wait_requested)
qed

theorem signals_do_not_shut_down_witness:
  "wait_for_shutdown [Sig SIGTERM, Sig SIGINT] (on_signal SIGINT (1::nat) (sh_start SignalHandler_new)) = Waiting"
  using signals_do_not_shut_down [of SignalHandler_new "[SIGTERM, SIGINT]" SIGINT "1::nat"] by (simp add: SignalHandler_new_def)

end
