(* ===== verification/Framing.thy ===== *)
theory Framing
  imports Prelude
begin

text \<open>
  The interface between a byte stream and the component that cuts it into messages. A
  reader keeps a buffer, appends each received chunk and runs its parse loop, which delivers
  messages and keeps the rest. The locale \<open>framed_stream\<close> states what the readers of the
  framework promise about their loop on the peer's encoded packets; the lemmas proved in it
  say that fragmentation never changes what is delivered. \<open>TcpConnection\<close> and \<open>TcpClient\<close>
  interpret it.
\<close>

section \<open>Reading in chunks\<close>

definition add_msgs :: "'m list \<Rightarrow> ('m list \<times> byte list) access \<Rightarrow> ('m list \<times> byte list) access"
  where
  "add_msgs ms r = (case r of Out_Of_Bounds \<Rightarrow> Out_Of_Bounds | Done (ms', b) \<Rightarrow> Done (ms @ ms', b))"

lemma add_msgs_Done [simp]: "add_msgs ms (Done (ms', b)) = Done (ms @ ms', b)"
  by (simp add: add_msgs_def)

lemma add_msgs_OOB [simp]: "add_msgs ms Out_Of_Bounds = Out_Of_Bounds"
  by (simp add: add_msgs_def)

fun feed :: "(byte list \<Rightarrow> ('m list \<times> byte list) access) \<Rightarrow> byte list \<Rightarrow> byte list list \<Rightarrow>
    ('m list \<times> byte list) access" where
  "feed drain buf [] = Done ([], buf)"
| "feed drain buf (c # cs) =
     (case drain (buf @ c) of
        Out_Of_Bounds \<Rightarrow> Out_Of_Bounds
      | Done (ms, b) \<Rightarrow> add_msgs ms (feed drain b cs))"

section \<open>Prefixes of a stream of packets\<close>

lemma stream_prefix:
  assumes "u @ v = concat (map enc ps)"
  shows "\<exists>ps1 ps2 w. ps = ps1 @ ps2 \<and> u = concat (map enc ps1) @ w \<and> w @ v = concat (map enc ps2) \<and>
    (ps2 = [] \<longrightarrow> w = []) \<and> (\<forall>q qs. ps2 = q # qs \<longrightarrow> length w < length (enc q) \<or> w = [])"
  using assms
proof (induction ps arbitrary: u)
  case (Cons p ps)
  show ?case
  proof (cases "length u < length (enc p)")
    case True
    with Cons.prems show ?thesis by (intro exI [of _ "[]"] exI [of _ "p # ps"] exI [of _ u]) auto
  next
    case False
    with Cons.prems obtain u' where u: "u = enc p @ u'"
      by (metis append_eq_append_conv_if append_take_drop_id concat.simps(2) list.simps(9) not_le
          linorder_le_less_linear)
    with Cons.prems have "u' @ v = concat (map enc ps)" by simp
    from Cons.IH [OF this] obtain ps1 ps2 w where
      "ps = ps1 @ ps2" "u' = concat (map enc ps1) @ w" "w @ v = concat (map enc ps2)"
      "ps2 = [] \<longrightarrow> w = []" "\<forall>q qs. ps2 = q # qs \<longrightarrow> length w < length (enc q) \<or> w = []"
      by blast
    then show ?thesis
      by (intro exI [of _ "p # ps1"] exI [of _ ps2] exI [of _ w]) (simp add: u)
  qed
qed simp

section \<open>The interface\<close>

locale framed_stream =
  fixes enc :: "'p \<Rightarrow> byte list"
    and ok :: "'p \<Rightarrow> bool"
    and msg :: "'p \<Rightarrow> 'm"
    and drain :: "byte list \<Rightarrow> ('m list \<times> byte list) access"
  assumes drain_nil: "drain [] = Done ([], [])"
    and drain_frame: "ok p \<Longrightarrow> drain (enc p @ rest) = add_msgs [msg p] (drain rest)"
    and drain_partial: "ok p \<Longrightarrow> k < length (enc p) \<Longrightarrow>
      drain (take k (enc p)) = Done ([], take k (enc p))"
begin

lemma drain_frames:
  "\<forall>p\<in>set ps. ok p \<Longrightarrow>
   drain (concat (map enc ps) @ rest) = add_msgs (map msg ps) (drain rest)"
  by (induction ps) (auto simp: drain_frame add_msgs_def split: access.splits)

lemma drain_prefix:
  assumes "\<forall>p\<in>set ps2. ok p" "w @ v = concat (map enc ps2)" "ps2 = [] \<longrightarrow> w = []"
    "\<forall>q qs. ps2 = q # qs \<longrightarrow> length w < length (enc q) \<or> w = []"
  shows "drain w = Done ([], w)"
proof (cases "ps2 = [] \<or> w = []")
  case True
  then show ?thesis using assms(3) by (auto simp: drain_nil)
next
  case False
  then obtain q qs where ps2: "ps2 = q # qs" by (cases ps2) auto
  then have lt: "length w < length (enc q)" using assms(4) False by blast
  have "take (length w) (w @ v) = take (length w) (enc q @ concat (map enc qs))"
    using assms(2) ps2 by simp
  then have "w = take (length w) (enc q)" using lt by simp
  then show ?thesis using drain_partial [of q "length w"] assms(1) ps2 lt by auto
qed

text \<open>
  However the stream is cut, after any number of chunks the messages delivered are those of
  the packets received completely, in order, and the buffer holds the bytes of the packet
  that is still incomplete.
\<close>

lemma feed_stream:
  assumes "\<forall>p\<in>set ps. ok p" "buf @ concat cs @ v = concat (map enc ps)" "drain buf = Done ([], buf)"
  shows "\<exists>ps1 ps2 w. ps = ps1 @ ps2 \<and> w @ v = concat (map enc ps2) \<and>
    feed drain buf cs = Done (map msg ps1, w) \<and> drain w = Done ([], w)"
  using assms
proof (induction cs arbitrary: buf ps)
  case Nil
  then show ?case by (intro exI [of _ "[]"] exI [of _ ps] exI [of _ buf]) simp
next
  case (Cons c cs)
  have "(buf @ c) @ (concat cs @ v) = concat (map enc ps)" using Cons.prems(2) by simp
  from stream_prefix [OF this] obtain ps1 ps2 w where
    d: "ps = ps1 @ ps2" "buf @ c = concat (map enc ps1) @ w"
      "w @ concat cs @ v = concat (map enc ps2)" "ps2 = [] \<longrightarrow> w = []"
      "\<forall>q qs. ps2 = q # qs \<longrightarrow> length w < length (enc q) \<or> w = []" by blast
  have w: "drain w = Done ([], w)"
    by (rule drain_prefix [OF _ d(3,4,5)]) (use Cons.prems(1) d(1) in auto)
  have "drain (buf @ c) = Done (map msg ps1, w)"
    unfolding d(2) using Cons.prems(1) d(1) by (subst drain_frames) (auto simp: w)
  moreover obtain qs1 qs2 w' where
    "ps2 = qs1 @ qs2" "w' @ v = concat (map enc qs2)"
    "feed drain w cs = Done (map msg qs1, w')" "drain w' = Done ([], w')"
    using Cons.IH [OF _ d(3) w] Cons.prems(1) d(1) by auto
  ultimately show ?case
    by (intro exI [of _ "ps1 @ qs1"] exI [of _ qs2] exI [of _ w']) (simp add: d(1))
qed

text \<open>A buffer that the reader leaves as it is holds less than the next packet.\<close>

lemma drain_stuck:
  assumes "drain w = Done ([], w)" "w @ v = concat (map enc ps)" "\<forall>p\<in>set ps. ok p" "ps \<noteq> []"
  shows "length w < length (enc (hd ps))"
proof (rule ccontr)
  assume long: "\<not> length w < length (enc (hd ps))"
  obtain q qs where ps: "ps = q # qs" using assms(4) by (cases ps) auto
  let ?r = "drop (length (enc q)) w"
  have "take (length (enc q)) (w @ v) = enc q" using assms(2) ps by simp
  then have "take (length (enc q)) w = enc q" using long ps by simp
  then have "w = enc q @ ?r" by (metis append_take_drop_id)
  then have "add_msgs [msg q] (drain ?r) = Done ([], w)" using assms(1,3) drain_frame [of q ?r] ps by simp
  then show False by (cases "drain ?r") auto
qed

lemma feed_exact:
  assumes "\<forall>p\<in>set ps. ok p" "concat cs @ v = concat (map enc ps)"
  shows "\<exists>ps1 ps2 w. ps = ps1 @ ps2 \<and> w @ v = concat (map enc ps2) \<and>
    feed drain [] cs = Done (map msg ps1, w) \<and> (ps2 \<noteq> [] \<longrightarrow> length w < length (enc (hd ps2)))"
proof -
  have "[] @ concat cs @ v = concat (map enc ps)" using assms(2) by simp
  from feed_stream [OF assms(1) this drain_nil] obtain ps1 ps2 w where
    "ps = ps1 @ ps2" "w @ v = concat (map enc ps2)" "feed drain [] cs = Done (map msg ps1, w)" "drain w = Done ([], w)" by blast
  with drain_stuck [of w v ps2] assms(1) show ?thesis by (intro exI [of _ ps1] exI [of _ ps2] exI [of _ w]) auto
qed

lemma feed_all:
  assumes "\<forall>p\<in>set ps. ok p" "concat cs = concat (map enc ps)"
  shows "feed drain [] cs = Done (map msg ps, [])"
proof -
  have "[] @ concat cs @ [] = concat (map enc ps)" using assms(2) by simp
  from feed_stream [OF assms(1) this drain_nil] obtain ps1 ps2 w where
    d: "ps = ps1 @ ps2" "w = concat (map enc ps2)" "feed drain [] cs = Done (map msg ps1, w)"
      "drain w = Done ([], w)" by auto
  have "drain w = Done (map msg ps2, [])"
    using drain_frames [of ps2 "[]"] assms(1) d(1,2) by (simp add: drain_nil)
  with d(4) have "ps2 = []" "w = []" by auto
  with d show ?thesis by simp
qed

end

end
