(* ===== verification/Tcp_Connection.thy ===== *)
theory Tcp_Connection
  imports Packet Framing
begin

text \<open>
  Class \<open>TcpConnection\<close> (\<open>src/network/tcp/tcp_connection.h\<close> and \<open>tcp_connection.cpp\<close>):
  one connection with its read buffer, its write queue and its read and write threads. The
  outcomes of the system calls \<open>recv\<close> and \<open>send\<close>, the clock and what other threads do in
  between are inputs (scripts of events); callbacks and closed descriptors are recorded as
  effects in the order in which they happen.
\<close>

section \<open>State\<close>

datatype conn_status = CONNECTED | RECONNECTING | CLOSED

definition INVALID_SOCKET :: int where "INVALID_SOCKET = -1"

record tcp_connection =
  t_sock :: int
  t_session_id :: int
  t_status :: conn_status
  t_read_buf :: "byte list"
  t_write_queue :: "byte list list"
  t_last_recv_time :: u64
  t_closed :: bool
  t_on_message :: bool
  t_on_close :: bool
  t_on_connected :: bool

text \<open>
  What a connection does to its surroundings. The three flags of the state record whether
  the corresponding \<open>std::function\<close> is set.
\<close>

datatype conn_effect =
    On_Connected int
  | On_Message int proto_packet
  | On_Close int
  | Close_Socket int
  | Start_Reader int
  | Start_Writer int

section \<open>Operations\<close>

definition TcpConnection_new :: "int \<Rightarrow> int \<Rightarrow> u64 \<Rightarrow> tcp_connection" where
  "TcpConnection_new sock session_id tick =
     \<lparr>t_sock = sock, t_session_id = session_id, t_status = CONNECTED, t_read_buf = [],
      t_write_queue = [], t_last_recv_time = tick, t_closed = False,
      t_on_message = False, t_on_close = False, t_on_connected = False\<rparr>"

definition set_on_message :: "bool \<Rightarrow> tcp_connection \<Rightarrow> tcp_connection" where
  "set_on_message fn c = c\<lparr>t_on_message := fn\<rparr>"

definition set_on_close :: "bool \<Rightarrow> tcp_connection \<Rightarrow> tcp_connection" where
  "set_on_close fn c = c\<lparr>t_on_close := fn\<rparr>"

definition set_on_connected :: "bool \<Rightarrow> tcp_connection \<Rightarrow> tcp_connection" where
  "set_on_connected fn c = c\<lparr>t_on_connected := fn\<rparr>"

definition conn_start :: "tcp_connection \<Rightarrow> conn_effect list" where
  "conn_start c =
     (if t_on_connected c then [On_Connected (t_session_id c)] else []) @
     [Start_Reader (t_session_id c), Start_Writer (t_session_id c)]"

text \<open>\<open>close_socket\<close> of the platform layer does nothing on an invalid handle.\<close>

definition close_socket :: "int \<Rightarrow> conn_effect list" where
  "close_socket sock = (if sock = INVALID_SOCKET then [] else [Close_Socket sock])"

definition conn_close :: "tcp_connection \<Rightarrow> tcp_connection \<times> conn_effect list" where
  "conn_close c =
     (if t_closed c then (c, [])
      else (c\<lparr>t_closed := True, t_status := CLOSED, t_sock := INVALID_SOCKET\<rparr>,
            close_socket (t_sock c)))"

definition is_idle :: "u64 \<Rightarrow> u64 \<Rightarrow> tcp_connection \<Rightarrow> bool" where
  "is_idle tick timeout_ms c = (tick - t_last_recv_time c > timeout_ms)"

definition process_read :: "bool \<Rightarrow> tcp_connection \<Rightarrow>
    (bool \<times> tcp_connection \<times> conn_effect list) access" where
  "process_read le c =
     (case decode_from le (t_read_buf c) of
        Out_Of_Bounds \<Rightarrow> Out_Of_Bounds
      | Done None \<Rightarrow> Done (False, c, [])
      | Done (Some (pkt, consumed)) \<Rightarrow>
          Done (True, c\<lparr>t_read_buf := drop consumed (t_read_buf c)\<rparr>,
                if t_on_message c then [On_Message (t_session_id c) pkt] else []))"

lemma process_read_shrinks:
  "process_read le c = Done (True, c', e) \<Longrightarrow> length (t_read_buf c') < length (t_read_buf c)"
  using decode_from_Some(1,2) [of le "t_read_buf c"]
  by (fastforce simp: process_read_def split: access.splits option.splits)

text \<open>\<open>while (process_read()) { }\<close>: each turn removes at least one byte.\<close>

function process_all :: "bool \<Rightarrow> tcp_connection \<Rightarrow> (tcp_connection \<times> conn_effect list) access" where
  "process_all le c =
     (case process_read le c of
        Out_Of_Bounds \<Rightarrow> Out_Of_Bounds
      | Done (False, c', e) \<Rightarrow> Done (c', e)
      | Done (True, c', e) \<Rightarrow>
          (case process_all le c' of
             Out_Of_Bounds \<Rightarrow> Out_Of_Bounds
           | Done (c'', e') \<Rightarrow> Done (c'', e @ e')))"
  by pat_completeness auto
termination
  by (relation "measure (\<lambda>(le, c). length (t_read_buf c))") (auto dest: process_read_shrinks)

declare process_all.simps [simp del]

text \<open>
  Events seen by the read thread: \<open>recv\<close> returned data (with the clock value read after
  it), \<open>recv\<close> returned no data (with whether \<open>errno\<close> is \<open>EINTR\<close>), another thread closed
  the connection.
\<close>

datatype read_event = Recv "byte list" u64 | Recv_Nothing bool | Closed_Elsewhere

definition read_exit :: "tcp_connection \<Rightarrow> tcp_connection \<times> conn_effect list" where
  "read_exit c =
     (let (c', e) = conn_close c
      in (c', e @ (if t_on_close c' then [On_Close (t_session_id c')] else [])))"

text \<open>
  \<open>TcpConnection::read_loop\<close>. The first component of the result says whether the loop has
  ended; with no further event it is still blocked in \<open>recv\<close>.
\<close>

fun read_loop :: "bool \<Rightarrow> read_event list \<Rightarrow> tcp_connection \<Rightarrow>
    (bool \<times> tcp_connection \<times> conn_effect list) access" where
  "read_loop le [] c =
     (if t_closed c then (let (c', e) = read_exit c in Done (True, c', e)) else Done (False, c, []))"
| "read_loop le (ev # evs) c =
     (if t_closed c then (let (c', e) = read_exit c in Done (True, c', e))
      else case ev of
        Recv tmp tick \<Rightarrow>
          (case process_all le (c\<lparr>t_last_recv_time := tick, t_read_buf := t_read_buf c @ tmp\<rparr>) of
             Out_Of_Bounds \<Rightarrow> Out_Of_Bounds
           | Done (c', e) \<Rightarrow>
               (case read_loop le evs c' of
                  Out_Of_Bounds \<Rightarrow> Out_Of_Bounds
                | Done (fin, c'', e') \<Rightarrow> Done (fin, c'', e @ e')))
      | Recv_Nothing eintr \<Rightarrow>
          if eintr then read_loop le evs c
          else (let (c', e) = read_exit c in Done (True, c', e))
      | Closed_Elsewhere \<Rightarrow>
          (let (c', e) = conn_close c in
           case read_loop le evs c' of
             Out_Of_Bounds \<Rightarrow> Out_Of_Bounds
           | Done (fin, c'', e') \<Rightarrow> Done (fin, c'', e @ e')))"

text \<open>
  \<open>send_raw\<close>: repeated \<open>send\<close> on the rest of the buffer. The result is whether it
  succeeded and the bytes the socket took; with the script exhausted the thread is still
  inside \<open>send\<close> (\<open>None\<close>).
\<close>

datatype send_result = Sent nat | Send_Failed bool

fun send_loop :: "byte list \<Rightarrow> send_result list \<Rightarrow> (bool \<times> byte list) option" where
  "send_loop [] rs = Some (True, [])"
| "send_loop (b # bs) [] = None"
| "send_loop (b # bs) (Sent n # rs) =
     (case send_loop (drop n (b # bs)) rs of
        None \<Rightarrow> None
      | Some (ok, out) \<Rightarrow> Some (ok, take n (b # bs) @ out))"
| "send_loop (b # bs) (Send_Failed eintr # rs) =
     (if eintr then send_loop (b # bs) rs else Some (False, []))"

definition send_raw :: "tcp_connection \<Rightarrow> byte list \<Rightarrow> send_result list \<Rightarrow> (bool \<times> byte list) option"
  where
  "send_raw c data rs =
     (if t_closed c \<or> t_status c \<noteq> CONNECTED then Some (False, []) else send_loop data rs)"

definition send_packet :: "bool \<Rightarrow> u16 \<Rightarrow> byte list \<Rightarrow> tcp_connection \<Rightarrow> bool \<times> tcp_connection" where
  "send_packet le cmd data c =
     (True, c\<lparr>t_write_queue := t_write_queue c @ [proto_encode le (proto_packet_new cmd data)]\<rparr>)"

text \<open>
  One turn of \<open>write_loop\<close> after the wait: the flag says whether the loop goes on. The
  bytes handed to the socket are the last component.
\<close>

definition write_turn :: "tcp_connection \<Rightarrow> send_result list \<Rightarrow>
    (bool \<times> tcp_connection \<times> byte list) option" where
  "write_turn c rs =
     (if t_closed c \<and> t_write_queue c = [] then Some (False, c, [])
      else case t_write_queue c of
        [] \<Rightarrow> Some (True, c, [])
      | msg # q \<Rightarrow>
          (let c' = c\<lparr>t_write_queue := q\<rparr> in
           if msg \<noteq> [] then
             (case send_raw c' msg rs of
                None \<Rightarrow> None
              | Some (ok, out) \<Rightarrow> Some (ok, c', out))
           else Some (True, c', [])))"

text \<open>The loop over a list of scripts, one for each turn.\<close>

fun write_loop :: "send_result list list \<Rightarrow> tcp_connection \<Rightarrow>
    (bool \<times> tcp_connection \<times> byte list) option" where
  "write_loop [] c = Some (\<not> t_closed c, c, [])"
| "write_loop (rs # rss) c =
     (if t_closed c then Some (False, c, [])
      else case write_turn c rs of
        None \<Rightarrow> None
      | Some (False, c', out) \<Rightarrow> Some (False, c', out)
      | Some (True, c', out) \<Rightarrow>
          (case write_loop rss c' of
             None \<Rightarrow> None
           | Some (go, c'', out') \<Rightarrow> Some (go, c'', out @ out')))"

section \<open>The parse loop as a framed stream\<close>

text \<open>The packets among the effects, and what the parse loop does to a bare buffer.\<close>

definition messages :: "conn_effect list \<Rightarrow> proto_packet list" where
  "messages es = List.map_filter (\<lambda>e. case e of On_Message _ p \<Rightarrow> Some p | _ \<Rightarrow> None) es"

definition conn_drain :: "bool \<Rightarrow> byte list \<Rightarrow> (proto_packet list \<times> byte list) access" where
  "conn_drain le buf =
     (case process_all le (TcpConnection_new 0 0 0\<lparr>t_on_message := True, t_read_buf := buf\<rparr>) of
        Out_Of_Bounds \<Rightarrow> Out_Of_Bounds
      | Done (c, e) \<Rightarrow> Done (messages e, t_read_buf c))"

lemma messages_simps [simp]:
  "messages [] = []"
  "messages (On_Message s p # es) = p # messages es"
  "messages (On_Connected s # es) = messages es"
  "messages (On_Close s # es) = messages es"
  "messages (Close_Socket i # es) = messages es"
  "messages (Start_Reader s # es) = messages es"
  "messages (Start_Writer s # es) = messages es"
  by (simp_all add: messages_def map_filter_def)

lemma messages_append [simp]: "messages (xs @ ys) = messages xs @ messages ys"
  by (simp add: messages_def map_filter_def)

lemma messages_map_On_Message [simp]: "messages (map (On_Message s) ps) = ps"
  by (induction ps) auto

lemma process_all_stop:
  "decode_from le (t_read_buf c) = Done None \<Longrightarrow> process_all le c = Done (c, [])"
  by (subst process_all.simps) (simp add: process_read_def)

lemma process_all_oob:
  "decode_from le (t_read_buf c) = Out_Of_Bounds \<Longrightarrow> process_all le c = Out_Of_Bounds"
  by (subst process_all.simps) (simp add: process_read_def)

lemma process_all_packet:
  "decode_from le (t_read_buf c) = Done (Some (p, n)) \<Longrightarrow>
   process_all le c =
     (case process_all le (c\<lparr>t_read_buf := drop n (t_read_buf c)\<rparr>) of
        Out_Of_Bounds \<Rightarrow> Out_Of_Bounds
      | Done (c', e) \<Rightarrow> Done (c', (if t_on_message c then [On_Message (t_session_id c) p] else []) @ e))"
  by (subst process_all.simps) (simp add: process_read_def)

text \<open>On any connection with a message callback the loop acts as on the bare buffer.\<close>

lemma process_all_drain:
  "t_on_message c \<Longrightarrow> process_all le c =
     (case conn_drain le (t_read_buf c) of
        Out_Of_Bounds \<Rightarrow> Out_Of_Bounds
      | Done (ps, b) \<Rightarrow> Done (c\<lparr>t_read_buf := b\<rparr>, map (On_Message (t_session_id c)) ps))"
proof (induction "length (t_read_buf c)" arbitrary: c rule: less_induct)
  case less
  let ?b = "t_read_buf c" and ?t = "TcpConnection_new 0 0 0\<lparr>t_on_message := True\<rparr>"
  show ?case
  proof (cases "decode_from le ?b")
    case Out_Of_Bounds
    then show ?thesis by (simp add: conn_drain_def process_all_oob)
  next
    case (Done r)
    show ?thesis
    proof (cases r)
      case None
      then show ?thesis using Done by (simp add: conn_drain_def process_all_stop)
    next
      case (Some pn)
      obtain p n where pn: "pn = (p, n)" by (cases pn)
      with Done Some have dec: "decode_from le ?b = Done (Some (p, n))" by simp
      have lt: "length (drop n ?b) < length ?b" using decode_from_Some [OF dec] by simp
      have 1: "process_all le (c\<lparr>t_read_buf := drop n ?b\<rparr>) =
        (case conn_drain le (drop n ?b) of Out_Of_Bounds \<Rightarrow> Out_Of_Bounds
         | Done (ps, b) \<Rightarrow> Done (c\<lparr>t_read_buf := b\<rparr>, map (On_Message (t_session_id c)) ps))"
        using less.hyps [of "c\<lparr>t_read_buf := drop n ?b\<rparr>"] lt less.prems
        by (auto split: access.splits)
      have 2: "conn_drain le ?b = add_msgs [p] (conn_drain le (drop n ?b))"
        using dec by (simp add: conn_drain_def process_all_packet TcpConnection_new_def
            split: access.splits)
      show ?thesis
        unfolding process_all_packet [OF dec] 1 2
        using less.prems by (auto split: access.splits)
    qed
  qed
qed

lemma conn_drain_stop:
  "decode_from le buf = Done None \<Longrightarrow> conn_drain le buf = Done ([], buf)"
  by (simp add: conn_drain_def process_all_stop)

lemma conn_drain_packet:
  "decode_from le buf = Done (Some (p, n)) \<Longrightarrow>
   conn_drain le buf = add_msgs [p] (conn_drain le (drop n buf))"
  by (simp add: conn_drain_def process_all_packet TcpConnection_new_def split: access.splits)

interpretation conn: framed_stream "proto_encode le'" encodable "\<lambda>p. p" "conn_drain le" for le le'
proof unfold_locales
  show "conn_drain le [] = Done ([], [])"
    by (simp add: conn_drain_stop decode_from_short)
next
  fix p rest assume "encodable p"
  from decode_from_encode [OF this]
  show "conn_drain le (proto_encode le' p @ rest) = add_msgs [p] (conn_drain le rest)"
    by (simp add: conn_drain_packet)
next
  fix p k assume "encodable p" "k < length (proto_encode le' p)"
  then show "conn_drain le (take k (proto_encode le' p)) = Done ([], take k (proto_encode le' p))"
    by (simp add: conn_drain_stop decode_from_strict_prefix)
qed

text \<open>The read thread on a run of received chunks is the framed stream's reader.\<close>

definition recv_events :: "(byte list \<times> u64) list \<Rightarrow> read_event list" where
  "recv_events cs = map (\<lambda>(d, t). Recv d t) cs"

lemma read_loop_feed:
  assumes "t_on_message c" "\<not> t_closed c"
  shows "read_loop le (recv_events cs) c =
    (case feed (conn_drain le) (t_read_buf c) (map fst cs) of
       Out_Of_Bounds \<Rightarrow> Out_Of_Bounds
     | Done (ps, b) \<Rightarrow>
         Done (False,
           c\<lparr>t_read_buf := b,
             t_last_recv_time := (if cs = [] then t_last_recv_time c else snd (last cs))\<rparr>,
           map (On_Message (t_session_id c)) ps))"
  using assms
proof (induction cs arbitrary: c)
  case (Cons x cs)
  obtain d t where x: "x = (d, t)" by (cases x)
  have IH: "read_loop le (recv_events cs) (c\<lparr>t_last_recv_time := t, t_read_buf := b\<rparr>) =
    (case feed (conn_drain le) b (map fst cs) of
       Out_Of_Bounds \<Rightarrow> Out_Of_Bounds
     | Done (ps, b') \<Rightarrow>
         Done (False,
           c\<lparr>t_read_buf := b', t_last_recv_time := (if cs = [] then t else snd (last cs))\<rparr>,
           map (On_Message (t_session_id c)) ps))" for b
    using Cons.IH [of "c\<lparr>t_last_recv_time := t, t_read_buf := b\<rparr>"] Cons.prems
    by (auto split: access.splits)
  show ?case
    using Cons.prems
    by (auto simp: x recv_events_def process_all_drain IH [unfolded recv_events_def]
        split: access.splits)
qed (simp add: recv_events_def)

section \<open>Sending\<close>

lemma send_loop_True: "send_loop data rs = Some (True, out) \<Longrightarrow> out = data"
proof (induction data rs arbitrary: out rule: send_loop.induct)
  case (3 b bs n rs)
  then obtain out' where "send_loop (drop n (b # bs)) rs = Some (True, out')"
    "out = take n (b # bs) @ out'" by (auto split: option.splits)
  with "3.IH" show ?case by (metis append_take_drop_id)
qed (auto split: if_splits)

lemma send_loop_False:
  "send_loop data rs = Some (False, out) \<Longrightarrow> \<exists>rest. data = out @ rest \<and> rest \<noteq> []"
proof (induction data rs arbitrary: out rule: send_loop.induct)
  case (3 b bs n rs)
  then obtain out' where o: "send_loop (drop n (b # bs)) rs = Some (False, out')"
    "out = take n (b # bs) @ out'" by (auto split: option.splits)
  with "3.IH" obtain rest where "drop n (b # bs) = out' @ rest" "rest \<noteq> []" by blast
  then show ?case using o(2) by (metis append_assoc append_take_drop_id)
qed (auto split: if_splits)

text \<open>A socket that takes at least one byte per call takes everything.\<close>

lemma send_loop_progress:
  "\<forall>r\<in>set rs. \<exists>n. r = Sent (Suc n) \<Longrightarrow> length data \<le> length rs \<Longrightarrow>
   send_loop data rs = Some (True, data)"
proof (induction data rs rule: send_loop.induct)
  case (3 b bs n rs)
  then obtain m where n: "n = Suc m" by auto
  have "send_loop (drop n (b # bs)) rs = Some (True, drop n (b # bs))"
    using "3.prems" n by (intro "3.IH") auto
  then show ?case by (simp add: n)
qed auto

lemma write_turn_conserves:
  assumes "write_turn c rs = Some (True, c', out)"
  shows "concat (t_write_queue c) = out @ concat (t_write_queue c') \<and>
    (\<exists>q. c' = c\<lparr>t_write_queue := q\<rparr>)"
proof (cases "t_write_queue c")
  case Nil
  then show ?thesis
    using assms by (auto simp: write_turn_def intro: exI [of _ "[]"] split: if_splits)
next
  case (Cons m q)
  then show ?thesis
    using assms send_loop_True [of m rs]
    by (auto simp: write_turn_def send_raw_def Let_def split: if_splits option.splits)
qed

lemma write_loop_conserves:
  "write_loop rss c = Some (True, c', out) \<Longrightarrow>
   concat (t_write_queue c) = out @ concat (t_write_queue c') \<and> (\<exists>q. c' = c\<lparr>t_write_queue := q\<rparr>)"
proof (induction rss arbitrary: c out)
  case (Cons rs rss)
  then obtain c1 o1 o2 where
    1: "write_turn c rs = Some (True, c1, o1)" and
    2: "write_loop rss c1 = Some (True, c', o2)" and o: "out = o1 @ o2"
    by (auto split: if_splits option.splits bool.splits)
  from write_turn_conserves [OF 1] Cons.IH [OF 2] o show ?case by auto
qed (auto intro: exI [of _ "t_write_queue c'"])

fun send_packets :: "bool \<Rightarrow> proto_packet list \<Rightarrow> tcp_connection \<Rightarrow> tcp_connection" where
  "send_packets le [] c = c"
| "send_packets le (p # ps) c =
     send_packets le ps (snd (send_packet le (p_cmd p) (p_data p) c))"

lemma send_packets_queue:
  "send_packets le ps c =
   c\<lparr>t_write_queue := t_write_queue c @ map (proto_encode le) ps\<rparr>"
  by (induction ps arbitrary: c) (simp_all add: send_packet_def proto_packet_new_def)

section \<open>Closing\<close>

definition sockets_closed :: "conn_effect list \<Rightarrow> int list" where
  "sockets_closed es = List.map_filter (\<lambda>e. case e of Close_Socket i \<Rightarrow> Some i | _ \<Rightarrow> None) es"

definition closes :: "conn_effect list \<Rightarrow> nat" where
  "closes es = length (filter (\<lambda>e. case e of On_Close _ \<Rightarrow> True | _ \<Rightarrow> False) es)"

lemma sockets_closed_simps [simp]:
  "sockets_closed [] = []"
  "sockets_closed (xs @ ys) = sockets_closed xs @ sockets_closed ys"
  "sockets_closed [On_Close s] = []"
  "sockets_closed (map (On_Message s) ps) = []"
  "sockets_closed (close_socket i) = (if i = INVALID_SOCKET then [] else [i])"
  by (simp_all add: sockets_closed_def map_filter_def close_socket_def filter_empty_conv)

lemma closes_simps [simp]:
  "closes [] = 0" "closes (xs @ ys) = closes xs + closes ys" "closes [On_Close s] = 1"
  "closes (map (On_Message s) ps) = 0" "closes (close_socket i) = 0"
  by (simp_all add: closes_def close_socket_def)

lemma process_all_frame:
  "process_all le c = Done (c', e) \<Longrightarrow>
   (\<exists>b. c' = c\<lparr>t_read_buf := b\<rparr>) \<and> sockets_closed e = [] \<and> closes e = 0"
proof (induction "length (t_read_buf c)" arbitrary: c c' e rule: less_induct)
  case less
  show ?case
  proof (cases "process_read le c")
    case (Done r)
    obtain b c1 e1 where r: "process_read le c = Done (b, c1, e1)" using Done by (cases r) auto
    have base: "(\<exists>b. c1 = c\<lparr>t_read_buf := b\<rparr>) \<and> sockets_closed e1 = [] \<and> closes e1 = 0"
      using r by (auto simp: process_read_def sockets_closed_def closes_def map_filter_def
          intro: exI [of _ "t_read_buf c"] split: access.splits option.splits if_splits)
    show ?thesis
    proof (cases b)
      case True
      with r less.prems obtain e2 where
        2: "process_all le c1 = Done (c', e2)" "e = e1 @ e2"
        by (subst (asm) process_all.simps) (auto split: access.splits)
      with less.hyps [OF process_read_shrinks 2(1)] r True base show ?thesis by auto
    next
      case False
      with r less.prems base show ?thesis by (subst (asm) process_all.simps) auto
    qed
  qed (use less.prems in \<open>subst (asm) process_all.simps, simp\<close>)
qed

lemma read_loop_closes:
  "read_loop le evs c = Done (fin, c', es) \<Longrightarrow>
   sockets_closed es =
     (if t_closed c' \<and> \<not> t_closed c \<and> t_sock c \<noteq> INVALID_SOCKET then [t_sock c] else []) \<and>
   closes es = (if fin \<and> t_on_close c then 1 else 0) \<and> (fin \<longrightarrow> t_closed c') \<and>
   (t_closed c \<longrightarrow> t_closed c')"
proof (induction le evs c arbitrary: fin c' es rule: read_loop.induct)
  case (1 le c)
  then show ?case by (auto simp: read_exit_def conn_close_def split: if_splits)
next
  case (2 le ev evs c)
  show ?case
  proof (cases "t_closed c")
    case True
    with "2.prems" show ?thesis by (auto simp: read_exit_def conn_close_def)
  next
    case open': False
    show ?thesis
    proof (cases ev)
      case (Recv d t)
      with "2.prems" open' obtain c1 e1 e2 where
        p: "process_all le (c\<lparr>t_last_recv_time := t, t_read_buf := t_read_buf c @ d\<rparr>) = Done (c1, e1)"
        and q: "read_loop le evs c1 = Done (fin, c', e2)" "es = e1 @ e2"
        by (auto split: access.splits)
      from "2.IH"(1) [OF open' Recv p refl q(1)] process_all_frame [OF p] q(2) show ?thesis by auto
    next
      case (Recv_Nothing eintr)
      with "2.prems" open' "2.IH"(2) [OF open' Recv_Nothing] show ?thesis
        by (cases eintr) (auto simp: read_exit_def conn_close_def)
    next
      case Closed_Elsewhere
      obtain c1 e1 where c1: "conn_close c = (c1, e1)" by (cases "conn_close c")
      with "2.prems" open' Closed_Elsewhere obtain e2 where
        q: "read_loop le evs c1 = Done (fin, c', e2)" "es = e1 @ e2"
        by (auto split: access.splits)
      from "2.IH"(3) [OF open' Closed_Elsewhere c1 [symmetric] refl q(1)] c1 open' q(2)
      show ?thesis by (auto simp: conn_close_def)
    qed
  qed
qed

section \<open>A frame that announces length zero\<close>

lemma take4_length: "take 4 buf = [a, b, c, d] \<Longrightarrow> 4 \<le> length buf"
  by (cases "4 \<le> length buf") auto

lemma conn_drain_zero:
  "take 4 buf = [0, 0, 0, 0] \<Longrightarrow> conn_drain le buf = Done ([], buf)"
proof -
  assume z: "take 4 buf = [0, 0, 0, 0]"
  from take4_length [OF z] show ?thesis using z by (simp add: conn_drain_stop decode_from_zero)
qed

lemma feed_zero:
  "take 4 buf = [0, 0, 0, 0] \<Longrightarrow> feed (conn_drain le) buf cs = Done ([], buf @ concat cs)"
proof (induction cs arbitrary: buf)
  case (Cons c cs)
  then have "take 4 (buf @ c) = [0, 0, 0, 0]"
    using take4_length [OF Cons.prems] by simp
  with Cons.IH show ?case by (simp add: conn_drain_zero)
qed simp

section \<open>Properties\<close>

text \<open>C2: However the peer's byte stream is cut into \<open>recv\<close> results, after any prefix of it
  the message callback has run once for each completely received packet, in sending order,
  the buffer holds exactly the received bytes of the next packet, which is not complete, and the
  thread is still reading.\<close>

theorem connection_reassembles_stream:
  assumes "\<forall>p\<in>set ps. encodable p"
    and "concat (map fst cs) @ unread = concat (map (proto_encode le') ps)"
    and "t_read_buf c = []" "t_on_message c" "\<not> t_closed c"
  shows "\<exists>recvd todo c'. ps = recvd @ todo \<and>
    read_loop le (recv_events cs) c = Done (False, c', map (On_Message (t_session_id c)) recvd) \<and>
    t_read_buf c' @ unread = concat (map (proto_encode le') todo) \<and>
    (todo \<noteq> [] \<longrightarrow> length (t_read_buf c') < length (proto_encode le' (hd todo)))"
proof -
  obtain ps1 ps2 w where
    d: "ps = ps1 @ ps2" "w @ unread = concat (map (proto_encode le') ps2)"
      "feed (conn_drain le) [] (map fst cs) = Done (map (\<lambda>p. p) ps1, w)"
      "ps2 \<noteq> [] \<longrightarrow> length w < length (proto_encode le' (hd ps2))"
    using conn.feed_exact [OF assms(1,2), of le] by blast
  have "\<exists>c'. read_loop le (recv_events cs) c =
      Done (False, c', map (On_Message (t_session_id c)) ps1) \<and> t_read_buf c' = w"
    using read_loop_feed [OF assms(4,5), of le cs] assms(3) d(3) by auto
  with d(1,2,4) show ?thesis by blast
qed

theorem connection_reassembles_stream_witness:
  defines "p \<equiv> \<lparr>p_cmd = 4, p_data = [7]\<rparr>"
    and "c \<equiv> TcpConnection_new 5 1 0\<lparr>t_on_message := True\<rparr>"
  shows "\<exists>recvd todo c'. [p, p] = recvd @ todo \<and>
    read_loop True (recv_events [([0, 0, 0, 7, 0], 1), ([4, 7, 0], 2)]) c =
      Done (False, c', map (On_Message 1) recvd) \<and>
    t_read_buf c' @ [0, 0, 7, 0, 4, 7] = concat (map (proto_encode True) todo) \<and>
    (todo \<noteq> [] \<longrightarrow> length (t_read_buf c') < length (proto_encode True (hd todo)))"
  using connection_reassembles_stream
    [of "[p, p]" "[([0, 0, 0, 7, 0], 1), ([4, 7, 0], 2)]" "[0, 0, 7, 0, 4, 7]" True c True]
  by (simp add: p_def c_def encodable_def wire be32_def be16_def TcpConnection_new_def)

text \<open>Whatever happens on a connection, the read thread closes its descriptor at most
  once, runs the close callback exactly once if it ends and never otherwise, and only ends
  on a closed connection. A close by another thread falls between two steps of the loop; \<open>Close_Race\<close> treats
  calls that overlap.\<close>

theorem connection_closes_once:
  assumes "read_loop le evs c = Done (fin, c', es)" "\<not> t_closed c" "t_sock c \<noteq> INVALID_SOCKET"
  shows "sockets_closed es = (if t_closed c' then [t_sock c] else []) \<and>
    closes es = (if fin \<and> t_on_close c then 1 else 0) \<and> (fin \<longrightarrow> t_closed c')"
  using read_loop_closes [OF assms(1)] assms(2,3) by simp

theorem connection_closes_once_witness:
  "sockets_closed [Close_Socket 5, On_Close 1] = [5] \<and> closes [Close_Socket 5, On_Close 1] = 1"
  using connection_closes_once [of True "[Closed_Elsewhere, Recv [1] 0]"
      "TcpConnection_new 5 1 0\<lparr>t_on_close := True\<rparr>" True
      "TcpConnection_new INVALID_SOCKET 1 0\<lparr>t_on_close := True, t_closed := True, t_status := CLOSED\<rparr>"
      "[Close_Socket 5, On_Close 1]"]
  by (simp add: TcpConnection_new_def conn_close_def close_socket_def read_exit_def INVALID_SOCKET_def)

text \<open>Four zero bytes at the start of the read buffer stall the connection for good: no
  later input is ever delivered and every received byte stays in the buffer.\<close>

theorem connection_zero_length_stalls:
  assumes "take 4 (t_read_buf c) = [0, 0, 0, 0]" "t_on_message c" "\<not> t_closed c"
  shows "\<exists>c'. read_loop le (recv_events cs) c = Done (False, c', []) \<and>
    t_read_buf c' = t_read_buf c @ concat (map fst cs)"
  using feed_zero [OF assms(1), of le "map fst cs"] read_loop_feed [OF assms(2,3), of le cs] by auto

theorem connection_zero_length_stalls_witness:
  "\<exists>c'. read_loop True (recv_events [([0, 0, 0, 6, 0, 1], 9)])
      (TcpConnection_new 5 1 0\<lparr>t_on_message := True, t_read_buf := [0, 0, 0, 0]\<rparr>) =
      Done (False, c', []) \<and> t_read_buf c' = [0, 0, 0, 0, 0, 0, 0, 6, 0, 1]"
  using connection_zero_length_stalls
    [of "TcpConnection_new 5 1 0\<lparr>t_on_message := True, t_read_buf := [0, 0, 0, 0]\<rparr>" True
      "[([0, 0, 0, 6, 0, 1], 9)]"]
  by (simp add: TcpConnection_new_def)

text \<open>\<open>send_raw\<close> reports success exactly with all bytes handed over, failure only with a
  proper prefix handed over, and it finishes with success on a socket that takes at least
  one byte per call.\<close>

theorem send_raw_all_or_prefix:
  assumes "\<not> t_closed c" "t_status c = CONNECTED"
  shows "(send_raw c data rs = Some (True, out) \<longrightarrow> out = data) \<and>
    (send_raw c data rs = Some (False, out) \<longrightarrow> (\<exists>rest. data = out @ rest \<and> rest \<noteq> [])) \<and>
    ((\<forall>r\<in>set rs. \<exists>n. r = Sent (Suc n)) \<and> length data \<le> length rs \<longrightarrow>
      send_raw c data rs = Some (True, data))"
  using assms send_loop_True send_loop_False send_loop_progress by (simp add: send_raw_def)

theorem send_raw_all_or_prefix_witness:
  "send_raw (TcpConnection_new 5 1 0) [1, 2] [Sent 1, Sent 1] = Some (True, [1, 2])"
  using send_raw_all_or_prefix [of "TcpConnection_new 5 1 0" "[1, 2]" "[Sent 1, Sent 1]"]
  by (simp add: TcpConnection_new_def)

end
