(* ===== verification/Tcp_Server.thy ===== *)
theory Tcp_Server
  imports Tcp_Connection Tables
begin

text \<open>
  Class \<open>TcpServer\<close> (\<open>src/network/tcp/tcp_server.h\<close>, \<open>tcp_server.cpp\<close>), the Linux variant.
  Connection objects are shared between the table \<open>connections_\<close> and their own threads and
  outlive their entry in the table: \<open>sv_objects\<close> holds every object by its session number,
  \<open>sv_connections\<close> the numbers in the table. Results of system calls and clock readings are
  arguments; each effect carries the session that it belongs to.
\<close>

section \<open>State\<close>

record tcp_server =
  sv_port :: int
  sv_threads :: int
  sv_heartbeat_interval_ms :: u64
  sv_idle_timeout_ms :: u64
  sv_server_sock :: int
  sv_running :: bool
  sv_objects :: "int \<rightharpoonup> tcp_connection"
  sv_connections :: "int list"
  sv_next_session_id :: int
  sv_epfd :: int
  sv_on_message :: bool
  sv_on_close :: bool
  sv_on_connected :: bool

datatype server_effect =
    Conn int conn_effect
  | Server_Close_Handler int
  | Close_Fd int
  | Set_Nonblocking int
  | Set_Nodelay int
  | Set_Reuseaddr int
  | Epoll_Add int int

definition TcpServer_new :: "int \<Rightarrow> int \<Rightarrow> u64 \<Rightarrow> tcp_server" where
  "TcpServer_new port threads idle_timeout_ms =
     \<lparr>sv_port = port, sv_threads = threads, sv_heartbeat_interval_ms = 10000,
      sv_idle_timeout_ms = idle_timeout_ms, sv_server_sock = INVALID_SOCKET, sv_running = False,
      sv_objects = Map.empty, sv_connections = [], sv_next_session_id = 1, sv_epfd = -1,
      sv_on_message = False, sv_on_close = False, sv_on_connected = False\<rparr>"

definition set_message_handler :: "bool \<Rightarrow> tcp_server \<Rightarrow> tcp_server" where
  "set_message_handler fn s = s\<lparr>sv_on_message := fn\<rparr>"

definition set_close_handler :: "bool \<Rightarrow> tcp_server \<Rightarrow> tcp_server" where
  "set_close_handler fn s = s\<lparr>sv_on_close := fn\<rparr>"

definition set_connected_handler :: "bool \<Rightarrow> tcp_server \<Rightarrow> tcp_server" where
  "set_connected_handler fn s = s\<lparr>sv_on_connected := fn\<rparr>"

definition set_heartbeat_interval :: "u64 \<Rightarrow> tcp_server \<Rightarrow> tcp_server" where
  "set_heartbeat_interval ms s = s\<lparr>sv_heartbeat_interval_ms := ms\<rparr>"

definition set_idle_timeout :: "u64 \<Rightarrow> tcp_server \<Rightarrow> tcp_server" where
  "set_idle_timeout ms s = s\<lparr>sv_idle_timeout_ms := ms\<rparr>"

section \<open>Life cycle\<close>

text \<open>
  \<open>sock\<close> is the result of \<open>socket\<close>, \<open>bound\<close> that of \<open>bind_and_listen\<close>. The options set on the listening socket
  leave no trace in the model.
\<close>

definition server_start :: "int \<Rightarrow> int \<Rightarrow> tcp_server \<Rightarrow> bool \<times> tcp_server" where
  "server_start sock bound s =
     (if sv_running s then (True, s)
      else let s1 = s\<lparr>sv_server_sock := sock\<rparr> in
        if sock = INVALID_SOCKET then (False, s1)
        else if bound < 0 then (False, s1)
        else (True, s1\<lparr>sv_running := True\<rparr>))"

text \<open>Closing the object of a session, and doing so for a list of sessions.\<close>

definition close_object :: "int \<Rightarrow> tcp_server \<Rightarrow> server_effect list \<times> tcp_server" where
  "close_object sid s =
     (case sv_objects s sid of
        None \<Rightarrow> ([], s)
      | Some c \<Rightarrow> (let (c', e) = conn_close c
                   in (map (Conn sid) e, s\<lparr>sv_objects := (sv_objects s)(sid \<mapsto> c')\<rparr>)))"

fun close_objects :: "int list \<Rightarrow> tcp_server \<Rightarrow> server_effect list \<times> tcp_server" where
  "close_objects [] s = ([], s)"
| "close_objects (sid # sids) s =
     (let (e, s1) = close_object sid s; (e', s2) = close_objects sids s1 in (e @ e', s2))"

definition close_fd :: "int \<Rightarrow> server_effect list" where
  "close_fd fd = (if fd = INVALID_SOCKET then [] else [Close_Fd fd])"

definition server_stop :: "tcp_server \<Rightarrow> server_effect list \<times> tcp_server" where
  "server_stop s =
     (if \<not> sv_running s then ([], s)
      else let (e, s1) = close_objects (sv_connections s) (s\<lparr>sv_running := False\<rparr>);
               s2 = s1\<lparr>sv_connections := []\<rparr>;
               e1 = close_fd (sv_server_sock s2);
               s3 = s2\<lparr>sv_server_sock := INVALID_SOCKET\<rparr>
           in if sv_epfd s3 \<ge> 0 then (e @ e1 @ [Close_Fd (sv_epfd s3)], s3\<lparr>sv_epfd := -1\<rparr>)
              else (e @ e1, s3))"

section \<open>Accepting\<close>

text \<open>
  One accepted socket (\<open>INVALID_SOCKET\<close> when \<open>accept\<close> failed). Its options are set, the results of these
  calls ignored. The close callback is always
  set to the function that removes the session; the connected handler is not passed on. After the
  threads of the connection are started, its socket is registered with epoll for reading and writing.
\<close>

definition accept_one :: "int \<Rightarrow> u64 \<Rightarrow> tcp_server \<Rightarrow> server_effect list \<times> tcp_server" where
  "accept_one client_sock tick s =
     (if client_sock = INVALID_SOCKET then ([], s)
      else let sid = sv_next_session_id s;
               conn = TcpConnection_new client_sock sid tick;
               conn = set_on_message (sv_on_message s) conn;
               conn = set_on_close True conn
           in ([Set_Nonblocking client_sock, Set_Nodelay client_sock, Set_Reuseaddr client_sock] @
               map (Conn sid) (conn_start conn) @ [Epoll_Add (sv_epfd s) client_sock],
               s\<lparr>sv_next_session_id := sid + 1, sv_objects := (sv_objects s)(sid \<mapsto> conn),
                 sv_connections := sv_connections s @ [sid]\<rparr>))"

text \<open>
  The ready descriptors of one \<open>epoll_wait\<close>, each with the result of the \<open>accept\<close> that would
  follow; events of client sockets are ignored.
\<close>

fun accept_ready :: "(int \<times> int \<times> u64) list \<Rightarrow> tcp_server \<Rightarrow> server_effect list \<times> tcp_server" where
  "accept_ready [] s = ([], s)"
| "accept_ready ((fd, client_sock, tick) # evs) s =
     (let (e, s1) = (if fd = sv_server_sock s then accept_one client_sock tick s else ([], s));
          (e', s2) = accept_ready evs s1
      in (e @ e', s2))"

datatype server_wait = Server_Ready "(int \<times> int \<times> u64) list" | Server_Wait_Failed bool

fun accept_turns :: "server_wait list \<Rightarrow> tcp_server \<Rightarrow> server_effect list \<times> tcp_server" where
  "accept_turns [] s = ([], s)"
| "accept_turns (w # ws) s =
     (if \<not> sv_running s then ([], s)
      else case w of
        Server_Wait_Failed eintr \<Rightarrow> if eintr then accept_turns ws s else ([], s)
      | Server_Ready evs \<Rightarrow>
          (let (e, s1) = accept_ready evs s; (e', s2) = accept_turns ws s1 in (e @ e', s2)))"

definition accept_loop :: "int \<Rightarrow> server_wait list \<Rightarrow> tcp_server \<Rightarrow> server_effect list \<times> tcp_server" where
  "accept_loop epfd ws s =
     (let s1 = s\<lparr>sv_epfd := epfd\<rparr> in
      if epfd < 0 then ([], s1)
      else let (e, s2) = accept_turns ws s1 in (Epoll_Add epfd (sv_server_sock s) # e, s2))"

text \<open>The close callback that the server gives its connections.\<close>

definition session_closed :: "int \<Rightarrow> tcp_server \<Rightarrow> server_effect list \<times> tcp_server" where
  "session_closed sid s =
     (if sv_on_close s then [Server_Close_Handler sid] else [],
      s\<lparr>sv_connections := filter (\<lambda>k. k \<noteq> sid) (sv_connections s)\<rparr>)"

text \<open>The end of a connection's read thread.\<close>

definition reader_ends :: "int \<Rightarrow> tcp_server \<Rightarrow> server_effect list \<times> tcp_server" where
  "reader_ends sid s =
     (case sv_objects s sid of
        None \<Rightarrow> ([], s)
      | Some c \<Rightarrow> (let (e, s1) = close_object sid s; (e', s2) = session_closed sid s1 in (e @ e', s2)))"

section \<open>Sessions\<close>

text \<open>The clock is read anew for every connection: \<open>tick sid\<close> is the reading for session \<open>sid\<close>.\<close>

definition heartbeat_turn :: "(int \<Rightarrow> u64) \<Rightarrow> tcp_server \<Rightarrow> server_effect list \<times> tcp_server" where
  "heartbeat_turn tick s =
     close_objects (filter (\<lambda>sid. case sv_objects s sid of
         None \<Rightarrow> False | Some c \<Rightarrow> is_idle (tick sid) (sv_idle_timeout_ms s) c) (sv_connections s)) s"

definition server_send_to :: "bool \<Rightarrow> int \<Rightarrow> u16 \<Rightarrow> byte list \<Rightarrow> tcp_server \<Rightarrow> bool \<times> tcp_server" where
  "server_send_to le sid cmd data s =
     (if sid \<in> set (sv_connections s)
      then (case sv_objects s sid of
              None \<Rightarrow> (False, s)
            | Some c \<Rightarrow> (let (r, c') = send_packet le cmd data c
                         in (r, s\<lparr>sv_objects := (sv_objects s)(sid \<mapsto> c')\<rparr>)))
      else (False, s))"

fun send_each :: "bool \<Rightarrow> u16 \<Rightarrow> byte list \<Rightarrow> int list \<Rightarrow> tcp_server \<Rightarrow> tcp_server" where
  "send_each le cmd data [] s = s"
| "send_each le cmd data (sid # sids) s =
     send_each le cmd data sids
       (case sv_objects s sid of
          None \<Rightarrow> s
        | Some c \<Rightarrow> s\<lparr>sv_objects := (sv_objects s)(sid \<mapsto> snd (send_packet le cmd data c))\<rparr>)"

definition server_broadcast :: "bool \<Rightarrow> u16 \<Rightarrow> byte list \<Rightarrow> tcp_server \<Rightarrow> bool \<times> tcp_server" where
  "server_broadcast le cmd data s = (True, send_each le cmd data (sv_connections s) s)"

definition close_session :: "int \<Rightarrow> tcp_server \<Rightarrow> server_effect list \<times> tcp_server" where
  "close_session sid s =
     (if sid \<in> set (sv_connections s)
      then let (e, s1) = close_object sid s
           in (e, s1\<lparr>sv_connections := filter (\<lambda>k. k \<noteq> sid) (sv_connections s1)\<rparr>)
      else ([], s))"

definition server_session_count :: "tcp_server \<Rightarrow> nat" where
  "server_session_count s = length (sv_connections s)"

text \<open>Everything that can happen to a running server.\<close>

datatype server_op =
    Sv_Start int int
  | Sv_Stop
  | Sv_Accept int u64
  | Sv_Reader_Ends int
  | Sv_Heartbeat "int \<Rightarrow> u64"
  | Sv_Send_To int u16 "byte list"
  | Sv_Broadcast u16 "byte list"
  | Sv_Close_Session int

fun server_apply :: "bool \<Rightarrow> server_op \<Rightarrow> tcp_server \<Rightarrow> server_effect list \<times> tcp_server" where
  "server_apply le (Sv_Start sock bound) s = ([], snd (server_start sock bound s))"
| "server_apply le Sv_Stop s = server_stop s"
| "server_apply le (Sv_Accept sock tick) s = accept_one sock tick s"
| "server_apply le (Sv_Reader_Ends sid) s = reader_ends sid s"
| "server_apply le (Sv_Heartbeat tick) s = heartbeat_turn tick s"
| "server_apply le (Sv_Send_To sid cmd data) s = ([], snd (server_send_to le sid cmd data s))"
| "server_apply le (Sv_Broadcast cmd data) s = ([], snd (server_broadcast le cmd data s))"
| "server_apply le (Sv_Close_Session sid) s = close_session sid s"

fun server_trace :: "bool \<Rightarrow> server_op list \<Rightarrow> tcp_server \<Rightarrow> server_effect list \<times> tcp_server" where
  "server_trace le [] s = ([], s)"
| "server_trace le (op # ops) s =
     (let (e, s1) = server_apply le op s; (e', s2) = server_trace le ops s1 in (e @ e', s2))"

section \<open>Invariant\<close>

definition server_ok :: "tcp_server \<Rightarrow> bool" where
  "server_ok s \<longleftrightarrow> distinct (sv_connections s) \<and>
     (\<forall>sid\<in>set (sv_connections s). sv_objects s sid \<noteq> None) \<and>
     (\<forall>sid c. sv_objects s sid = Some c \<longrightarrow>
        sid < sv_next_session_id s \<and> t_session_id c = sid \<and>
        (t_closed c \<longleftrightarrow> t_sock c = INVALID_SOCKET) \<and> \<not> t_on_connected c)"

text \<open>How often the socket of a session has been closed in a list of effects.\<close>

definition closed_count :: "int \<Rightarrow> server_effect list \<Rightarrow> nat" where
  "closed_count sid es = length (filter (\<lambda>e. \<exists>fd. e = Conn sid (Close_Socket fd)) es)"

definition obj_closed :: "tcp_server \<Rightarrow> int \<Rightarrow> nat" where
  "obj_closed s sid = (case sv_objects s sid of None \<Rightarrow> 0 | Some c \<Rightarrow> if t_closed c then 1 else 0)"

definition connected_calls :: "server_effect list \<Rightarrow> server_effect list" where
  "connected_calls es = filter (\<lambda>e. \<exists>sid k. e = Conn sid (On_Connected k)) es"

lemma closed_count_append [simp]: "closed_count sid (es @ fs) = closed_count sid es + closed_count sid fs"
  by (simp add: closed_count_def)

lemma closed_count_Nil [simp]: "closed_count sid [] = 0"
  by (simp add: closed_count_def)

lemma connected_calls_append [simp]: "connected_calls (es @ fs) = connected_calls es @ connected_calls fs"
  by (simp add: connected_calls_def)

lemma connected_calls_Nil [simp]: "connected_calls [] = []"
  by (simp add: connected_calls_def)

text \<open>
  The contract of one step: it keeps the invariant, it calls no connected handler, and the
  sockets it closes are accounted for by the objects it closes.
\<close>

definition step_ok :: "tcp_server \<Rightarrow> server_effect list \<times> tcp_server \<Rightarrow> bool" where
  "step_ok s r \<longleftrightarrow> server_ok (snd r) \<and> connected_calls (fst r) = [] \<and>
     (\<forall>sid. obj_closed (snd r) sid = obj_closed s sid + closed_count sid (fst r))"

lemma step_ok_trans:
  "step_ok s (e, s1) \<Longrightarrow> (server_ok s1 \<Longrightarrow> step_ok s1 (e', s2)) \<Longrightarrow> step_ok s (e @ e', s2)"
  by (simp add: step_ok_def)

lemma step_ok_close_object:
  assumes "server_ok s"
  shows "step_ok s (close_object sid s)"
proof (cases "sv_objects s sid")
  case (Some c)
  show ?thesis
  proof (cases "t_closed c")
    case True
    with Some have "close_object sid s = ([], s)" by (simp add: close_object_def conn_close_def fun_upd_idem)
    with assms show ?thesis by (simp add: step_ok_def)
  next
    case False
    with assms Some have "t_sock c \<noteq> INVALID_SOCKET" by (simp add: server_ok_def)
    with False Some have eq: "close_object sid s = ([Conn sid (Close_Socket (t_sock c))],
        s\<lparr>sv_objects := (sv_objects s)(sid \<mapsto>
          c\<lparr>t_closed := True, t_status := CLOSED, t_sock := INVALID_SOCKET\<rparr>)\<rparr>)"
      by (simp add: close_object_def conn_close_def close_socket_def)
    show ?thesis
      using assms Some False by (auto simp: eq step_ok_def server_ok_def connected_calls_def
          closed_count_def obj_closed_def)
  qed
qed (use assms in \<open>simp add: close_object_def step_ok_def\<close>)

lemma step_ok_close_objects: "server_ok s \<Longrightarrow> step_ok s (close_objects sids s)"
proof (induction sids arbitrary: s)
  case (Cons sid sids)
  obtain e s1 where c: "close_object sid s = (e, s1)" by fastforce
  obtain e' s2 where c': "close_objects sids s1 = (e', s2)" by fastforce
  have "step_ok s (e @ e', s2)"
    using step_ok_close_object [OF Cons.prems, of sid] Cons.IH [of s1] c c' by (auto intro: step_ok_trans)
  then show ?case by (simp add: c c')
qed (simp add: step_ok_def)

text \<open>Objects that are changed without closing them, and tables that only lose entries.\<close>

lemma step_ok_same_objects:
  "server_ok s \<Longrightarrow> sv_objects s' = sv_objects s \<Longrightarrow> sv_next_session_id s' = sv_next_session_id s \<Longrightarrow>
   distinct (sv_connections s') \<Longrightarrow> set (sv_connections s') \<subseteq> set (sv_connections s) \<Longrightarrow>
   connected_calls es = [] \<Longrightarrow> (\<And>sid. closed_count sid es = 0) \<Longrightarrow> step_ok s (es, s')"
  by (auto simp: step_ok_def server_ok_def obj_closed_def)

lemma step_ok_send:
  "server_ok s \<Longrightarrow> sv_objects s sid = Some c \<Longrightarrow>
   step_ok s ([], s\<lparr>sv_objects := (sv_objects s)(sid \<mapsto> snd (send_packet le cmd data c))\<rparr>)"
  by (auto simp: step_ok_def server_ok_def obj_closed_def send_packet_def)

lemma step_ok_send_each: "server_ok s \<Longrightarrow> step_ok s ([], send_each le cmd data sids s)"
proof (induction sids arbitrary: s)
  case (Cons sid sids)
  show ?case
  proof (cases "sv_objects s sid")
    case (Some c)
    let ?s1 = "s\<lparr>sv_objects := (sv_objects s)(sid \<mapsto> snd (send_packet le cmd data c))\<rparr>"
    have "step_ok s ([] @ [], send_each le cmd data sids ?s1)"
      using step_ok_send [OF Cons.prems Some] Cons.IH by (rule step_ok_trans)
    with Some show ?thesis by simp
  qed (use Cons in simp)
qed (simp add: step_ok_def)

lemma step_ok_accept: "server_ok s \<Longrightarrow> step_ok s (accept_one sock tick s)"
proof (cases "sock = INVALID_SOCKET")
  case False
  assume ok: "server_ok s"
  then have "sv_objects s (sv_next_session_id s) = None"
    by (metis server_ok_def less_irrefl not_None_eq)
  moreover then have "sv_next_session_id s \<notin> set (sv_connections s)" using ok by (auto simp: server_ok_def)
  ultimately show ?thesis
    using ok False
    by (fastforce simp: accept_one_def Let_def step_ok_def server_ok_def TcpConnection_new_def
        set_on_message_def set_on_close_def conn_start_def connected_calls_def closed_count_def
        obj_closed_def)
qed (simp add: accept_one_def step_ok_def)

lemma step_ok_session_closed: "server_ok s \<Longrightarrow> step_ok s (session_closed sid s)"
  unfolding session_closed_def
  by (rule step_ok_same_objects) (auto simp: server_ok_def connected_calls_def closed_count_def)

lemma close_object_table [simp]:
  "sv_connections (snd (close_object sid s)) = sv_connections s"
  "sv_server_sock (snd (close_object sid s)) = sv_server_sock s"
  "sv_running (snd (close_object sid s)) = sv_running s"
  "sv_epfd (snd (close_object sid s)) = sv_epfd s"
  "sv_next_session_id (snd (close_object sid s)) = sv_next_session_id s"
  by (simp_all add: close_object_def split_beta split: option.splits)

lemma close_objects_table [simp]:
  "sv_connections (snd (close_objects sids s)) = sv_connections s"
  "sv_server_sock (snd (close_objects sids s)) = sv_server_sock s"
  "sv_running (snd (close_objects sids s)) = sv_running s"
  "sv_epfd (snd (close_objects sids s)) = sv_epfd s"
  by (induction sids arbitrary: s) (simp_all add: split_beta Let_def)

lemma step_ok_close_session: "server_ok s \<Longrightarrow> step_ok s (close_session sid s)"
proof (cases "sid \<in> set (sv_connections s)")
  case True
  assume ok: "server_ok s"
  obtain e s1 where c: "close_object sid s = (e, s1)" by fastforce
  have "step_ok s1 ([], s1\<lparr>sv_connections := filter (\<lambda>k. k \<noteq> sid) (sv_connections s1)\<rparr>)" if "server_ok s1"
    using that by (intro step_ok_same_objects) (auto simp: server_ok_def)
  then have "step_ok s (e @ [], s1\<lparr>sv_connections := filter (\<lambda>k. k \<noteq> sid) (sv_connections s1)\<rparr>)"
    using step_ok_close_object [OF ok, of sid] c by (intro step_ok_trans) auto
  with True c show ?thesis by (simp add: close_session_def)
qed (simp add: close_session_def step_ok_def)

lemma step_ok_reader_ends: "server_ok s \<Longrightarrow> step_ok s (reader_ends sid s)"
proof (cases "sv_objects s sid")
  case (Some c)
  assume ok: "server_ok s"
  obtain e s1 where c: "close_object sid s = (e, s1)" by fastforce
  obtain e' s2 where d: "session_closed sid s1 = (e', s2)" by fastforce
  have "step_ok s (e @ e', s2)"
    using step_ok_close_object [OF ok, of sid] step_ok_session_closed [of s1 sid] c d
    by (auto intro: step_ok_trans)
  with Some c d show ?thesis by (simp add: reader_ends_def)
qed (simp add: reader_ends_def step_ok_def)

lemma step_ok_stop: "server_ok s \<Longrightarrow> step_ok s (server_stop s)"
proof (cases "sv_running s")
  case True
  assume ok: "server_ok s"
  obtain e s1 where c: "close_objects (sv_connections s) (s\<lparr>sv_running := False\<rparr>) = (e, s1)" by fastforce
  have "step_ok s ([] @ e, s1)"
  proof (rule step_ok_trans)
    show "step_ok s ([], s\<lparr>sv_running := False\<rparr>)"
      using ok by (intro step_ok_same_objects) (auto simp: server_ok_def)
    show "step_ok (s\<lparr>sv_running := False\<rparr>) (e, s1)" if "server_ok (s\<lparr>sv_running := False\<rparr>)"
      using step_ok_close_objects [OF that, of "sv_connections s"] c by simp
  qed
  then have "step_ok s (e, s1)" by simp
  then have "step_ok s (e @ (close_fd (sv_server_sock s1) @ (if sv_epfd s1 \<ge> 0 then [Close_Fd (sv_epfd s1)] else [])),
      s1\<lparr>sv_connections := [], sv_server_sock := INVALID_SOCKET, sv_epfd := if sv_epfd s1 \<ge> 0 then -1 else sv_epfd s1\<rparr>)"
    by (rule step_ok_trans)
      (auto intro!: step_ok_same_objects simp: close_fd_def connected_calls_def closed_count_def)
  with True c show ?thesis by (auto simp: server_stop_def Let_def)
qed (simp add: server_stop_def step_ok_def)

lemma step_ok_apply: "server_ok s \<Longrightarrow> step_ok s (server_apply le op s)"
proof (cases op)
  case (Sv_Start sock bound)
  assume "server_ok s"
  then have "step_ok s ([], snd (server_start sock bound s))"
    by (intro step_ok_same_objects) (auto simp: server_start_def Let_def server_ok_def)
  with Sv_Start show ?thesis by simp
next
  case (Sv_Send_To sid cmd data)
  assume ok: "server_ok s"
  show ?thesis
    using step_ok_send [OF ok, of sid _ le cmd data] ok
    by (auto simp: Sv_Send_To server_send_to_def split_beta step_ok_def split: option.splits)
qed (simp_all add: step_ok_stop step_ok_accept step_ok_reader_ends heartbeat_turn_def
      step_ok_close_objects server_broadcast_def step_ok_send_each step_ok_close_session)

lemma step_ok_server_trace: "server_ok s \<Longrightarrow> step_ok s (server_trace le ops s)"
proof (induction ops arbitrary: s)
  case (Cons op ops)
  obtain e s1 where a: "server_apply le op s = (e, s1)" by fastforce
  obtain e' s2 where b: "server_trace le ops s1 = (e', s2)" by fastforce
  have "step_ok s (e @ e', s2)"
    using step_ok_apply [OF Cons.prems, of le op] Cons.IH [of s1] a b by (auto intro: step_ok_trans)
  then show ?case by (simp add: a b)
qed (simp add: step_ok_def)

lemma server_ok_new: "server_ok (TcpServer_new port threads idle)"
  by (simp add: server_ok_def TcpServer_new_def)

lemma close_objects_closes:
  "sid \<in> set sids \<Longrightarrow> sv_objects s sid = Some c \<Longrightarrow>
   \<exists>c'. sv_objects (snd (close_objects sids s)) sid = Some c' \<and> t_closed c'"
proof -
  have keep: "sv_objects s sid = Some c \<Longrightarrow> t_closed c \<Longrightarrow>
      \<exists>c'. sv_objects (snd (close_objects sids s)) sid = Some c' \<and> t_closed c'" for s c sids
  proof (induction sids arbitrary: s c)
    case (Cons k ks)
    have "\<exists>c'. sv_objects (snd (close_object k s)) sid = Some c' \<and> t_closed c'"
      using Cons.prems by (auto simp: close_object_def conn_close_def split_beta split: option.splits)
    with Cons.IH show ?case by (auto simp: split_beta Let_def)
  qed auto
  show "sid \<in> set sids \<Longrightarrow> sv_objects s sid = Some c \<Longrightarrow> ?thesis"
  proof (induction sids arbitrary: s c)
    case (Cons k ks)
    show ?case
    proof (cases "k = sid")
      case True
      then have "\<exists>c'. sv_objects (snd (close_object k s)) sid = Some c' \<and> t_closed c'"
        using Cons.prems by (auto simp: close_object_def conn_close_def split_beta)
      with keep show ?thesis by (auto simp: split_beta Let_def)
    next
      case False
      then have "sv_objects (snd (close_object k s)) sid = Some c"
        using Cons.prems by (auto simp: close_object_def split_beta split: option.splits)
      with Cons.IH Cons.prems False show ?thesis by (auto simp: split_beta Let_def)
    qed
  qed simp
qed

lemma send_each_objects:
  "distinct sids \<Longrightarrow> sv_objects (send_each le cmd data sids s) sid =
   (if sid \<in> set sids then map_option (\<lambda>c. snd (send_packet le cmd data c)) (sv_objects s sid)
    else sv_objects s sid)"
proof (induction sids arbitrary: s)
  case (Cons k ks)
  then show ?case by (cases "sv_objects s k") auto
qed simp

section \<open>Properties\<close>

text \<open>
  C25: Whatever happens to a server, the socket of every session is closed at most once, and it
  has been closed exactly when the connection object of the session is closed; the table never
  names a session twice or one without an object. Each call of \<open>close\<close> is one step here; \<open>Close_Race\<close> treats
  calls that overlap.
\<close>

theorem server_closes_each_socket_once:
  assumes "server_trace le ops (TcpServer_new port threads idle) = (es, s)"
  shows "closed_count sid es \<le> 1 \<and>
    (closed_count sid es = 1 \<longleftrightarrow> (\<exists>c. sv_objects s sid = Some c \<and> t_closed c)) \<and>
    distinct (sv_connections s) \<and> (\<forall>k\<in>set (sv_connections s). sv_objects s k \<noteq> None)"
proof -
  have "step_ok (TcpServer_new port threads idle) (es, s)"
    using step_ok_server_trace [OF server_ok_new, of port threads idle le ops] assms by simp
  then have "server_ok s" "obj_closed s sid = closed_count sid es"
    by (simp_all add: step_ok_def obj_closed_def TcpServer_new_def)
  then show ?thesis by (auto simp: server_ok_def obj_closed_def split: option.splits if_splits)
qed

theorem server_closes_each_socket_once_witness:
  "\<exists>es s. server_trace True [Sv_Start 3 0, Sv_Accept 7 5, Sv_Close_Session 1, Sv_Reader_Ends 1, Sv_Stop]
      (TcpServer_new 80 4 30) = (es, s) \<and> closed_count 1 es \<le> 1"
proof -
  obtain es s where t: "server_trace True [Sv_Start 3 0, Sv_Accept 7 5, Sv_Close_Session 1, Sv_Reader_Ends 1, Sv_Stop]
      (TcpServer_new 80 4 30) = (es, s)" by (metis surj_pair)
  from server_closes_each_socket_once [OF this, of 1] t show ?thesis by blast
qed

text \<open>
  The connected handler of the server is never called: it is stored but not passed to the
  connections.
\<close>

theorem connected_handler_never_called:
  "connected_calls (fst (server_trace le ops (set_connected_handler True (TcpServer_new port threads idle)))) = []"
proof -
  have "server_ok (set_connected_handler True (TcpServer_new port threads idle))"
    by (simp add: server_ok_def TcpServer_new_def set_connected_handler_def)
  from step_ok_server_trace [OF this] show ?thesis by (simp add: step_ok_def)
qed

text \<open>
  \<open>stop\<close> of a running server closes every connection in the table, empties the table,
  closes the listening socket and marks the server as stopped.
\<close>

theorem server_stop_closes_all:
  assumes "server_ok s" "sv_running s" "server_stop s = (es, s')"
  shows "\<not> sv_running s' \<and> sv_connections s' = [] \<and> sv_server_sock s' = INVALID_SOCKET \<and>
    (\<forall>sid\<in>set (sv_connections s). \<exists>c. sv_objects s' sid = Some c \<and> t_closed c)"
proof -
  let ?r = "close_objects (sv_connections s) (s\<lparr>sv_running := False\<rparr>)"
  have "sv_objects s' = sv_objects (snd ?r)" "\<not> sv_running s'" "sv_connections s' = []"
    "sv_server_sock s' = INVALID_SOCKET"
    using assms(2,3) by (auto simp: server_stop_def Let_def split_beta split: if_splits)
  moreover have "\<exists>c. sv_objects (snd ?r) sid = Some c \<and> t_closed c" if "sid \<in> set (sv_connections s)" for sid
    using that assms(1) close_objects_closes [OF that, of "s\<lparr>sv_running := False\<rparr>"]
    by (auto simp: server_ok_def)
  ultimately show ?thesis by simp
qed

theorem server_stop_closes_all_witness:
  defines "s \<equiv> snd (server_trace True [Sv_Start 3 0, Sv_Accept 7 5] (TcpServer_new 80 4 30))"
  shows "sv_connections (snd (server_stop s)) = []"
proof -
  have "server_ok s"
    using step_ok_server_trace [OF server_ok_new, of 80 4 30 True "[Sv_Start 3 0, Sv_Accept 7 5]"]
    by (simp add: s_def step_ok_def)
  moreover have "sv_running s"
    by (simp add: s_def server_start_def TcpServer_new_def INVALID_SOCKET_def accept_one_def Let_def)
  ultimately show ?thesis
    using server_stop_closes_all [of s "fst (server_stop s)" "snd (server_stop s)"] by simp
qed

text \<open>
  \<open>broadcast\<close> queues the encoded packet exactly once on every connection in the table and on
  no other.
\<close>

theorem server_broadcast_reaches_all:
  assumes "server_ok s" "server_broadcast le cmd data s = (r, s')"
  shows "r \<and> (\<forall>sid c. sv_objects s sid = Some c \<longrightarrow> (\<exists>c'. sv_objects s' sid = Some c' \<and>
    t_write_queue c' = t_write_queue c @
      (if sid \<in> set (sv_connections s) then [proto_encode le (proto_packet_new cmd data)] else [])))"
  using assms send_each_objects [of "sv_connections s" le cmd data s]
  by (auto simp: server_broadcast_def server_ok_def send_packet_def)

theorem server_broadcast_reaches_all_witness:
  defines "s \<equiv> snd (server_trace True [Sv_Start 3 0, Sv_Accept 7 5] (TcpServer_new 80 4 30))"
  shows "\<exists>c'. sv_objects (snd (server_broadcast True 4 [9] s)) 1 = Some c' \<and>
    t_write_queue c' = [proto_encode True (proto_packet_new 4 [9])]"
proof -
  have "server_ok s"
    using step_ok_server_trace [OF server_ok_new, of 80 4 30 True "[Sv_Start 3 0, Sv_Accept 7 5]"]
    by (simp add: s_def step_ok_def)
  note b = server_broadcast_reaches_all [OF this, of True 4 "[9]" "fst (server_broadcast True 4 [9] s)" "snd (server_broadcast True 4 [9] s)"]
  obtain c where "sv_objects s 1 = Some c" "t_write_queue c = []" "1 \<in> set (sv_connections s)"
    by (simp add: s_def server_start_def TcpServer_new_def INVALID_SOCKET_def accept_one_def
        TcpConnection_new_def set_on_message_def set_on_close_def Let_def)
  with b show ?thesis by fastforce
qed

text \<open>
  A turn of the heartbeat thread closes exactly the connections in the table that are idle: an object
  is closed afterwards if and only if it was closed before, or is in the table and idle. The
  entries stay in the table until their read threads end.
\<close>

lemma close_objects_other: "sid \<notin> set sids \<Longrightarrow> sv_objects (snd (close_objects sids s)) sid = sv_objects s sid"
proof (induction sids arbitrary: s)
  case (Cons k ks)
  then have "sv_objects (snd (close_object k s)) sid = sv_objects s sid"
    by (auto simp: close_object_def split_beta split: option.splits)
  with Cons show ?case by (simp add: split_beta Let_def)
qed simp

theorem heartbeat_closes_exactly_idle:
  assumes "sv_objects s sid = Some c" "heartbeat_turn tick s = (es, s')"
  shows "sv_connections s' = sv_connections s \<and> (\<exists>c'. sv_objects s' sid = Some c' \<and>
    (t_closed c' \<longleftrightarrow> t_closed c \<or> sid \<in> set (sv_connections s) \<and> is_idle (tick sid) (sv_idle_timeout_ms s) c))"
proof -
  let ?idle = "filter (\<lambda>sid. case sv_objects s sid of
      None \<Rightarrow> False | Some c \<Rightarrow> is_idle (tick sid) (sv_idle_timeout_ms s) c) (sv_connections s)"
  have s': "s' = snd (close_objects ?idle s)" using assms(2) by (simp add: heartbeat_turn_def)
  have "\<exists>c'. sv_objects s' sid = Some c' \<and>
    (t_closed c' \<longleftrightarrow> t_closed c \<or> sid \<in> set (sv_connections s) \<and> is_idle (tick sid) (sv_idle_timeout_ms s) c)"
  proof (cases "sid \<in> set ?idle")
    case True
    then show ?thesis using close_objects_closes [OF True assms(1)] assms(1) s' by auto
  next
    case False
    then show ?thesis using close_objects_other [OF False, of s] assms(1) s' by auto
  qed
  then show ?thesis by (simp add: s')
qed

theorem heartbeat_closes_exactly_idle_witness:
  defines "s \<equiv> snd (server_trace True [Sv_Start 3 0, Sv_Accept 7 5] (TcpServer_new 80 4 30))"
  shows "\<exists>c'. sv_objects (snd (heartbeat_turn (\<lambda>sid. 90) s)) 1 = Some c' \<and> t_closed c'"
proof -
  obtain c where "sv_objects s 1 = Some c" "1 \<in> set (sv_connections s)" "is_idle 90 (sv_idle_timeout_ms s) c"
    by (simp add: s_def server_start_def TcpServer_new_def INVALID_SOCKET_def accept_one_def
        TcpConnection_new_def set_on_message_def set_on_close_def Let_def is_idle_def)
  with heartbeat_closes_exactly_idle [OF this(1), of "\<lambda>sid. 90" "fst (heartbeat_turn (\<lambda>sid. 90) s)" "snd (heartbeat_turn (\<lambda>sid. 90) s)"]
  show ?thesis by auto
qed

text \<open>
  The idle test can close a connection that is receiving: the clock is read before the
  time of the last data, and if the read thread stores a newer time in between, the unsigned
  difference wraps around and exceeds every timeout but the largest.
\<close>

theorem idle_test_wraps:
  assumes "t_last_recv_time c = tick + 1" "timeout < - 1"
  shows "is_idle tick timeout c"
  using assms by (simp add: is_idle_def)

theorem idle_test_wraps_witness: "is_idle 100 30000 (TcpConnection_new 5 1 101)"
  by (rule idle_test_wraps) (simp_all add: TcpConnection_new_def)

end
