(* ===== verification/Platform.thy ===== *)
theory Platform
  imports Prelude
begin

text \<open>
  The computations of \<open>src/adapter/platform.cpp\<close> and \<open>src/base/time/timestamp.cpp\<close>, in their Linux
  and Windows (\<open>win_\<close>) branches: flags and results of the file functions, guards around closing,
  the order of the calls in \<open>bind_and_listen\<close> and \<open>set_nonblocking\<close>, the conversion of clock
  readings, and the initialisation of the Windows socket library. System calls are arguments. The
  remaining functions of these files only pass a call on.
\<close>

section \<open>Files and sockets\<close>

definition O_RDONLY :: u32 where "O_RDONLY = 0"
definition O_WRONLY :: u32 where "O_WRONLY = 1"
definition O_RDWR :: u32 where "O_RDWR = 2"
definition O_CREAT :: u32 where "O_CREAT = 0x40"
definition O_TRUNC :: u32 where "O_TRUNC = 0x200"
definition O_NONBLOCK :: u32 where "O_NONBLOCK = 0x800"

definition file_open_flags :: "u32 \<Rightarrow> u32" where
  "file_open_flags flags =
     (let oflag = 0;
          oflag = (if flags AND 0x01 \<noteq> 0 then oflag OR O_RDONLY else oflag);
          oflag = (if flags AND 0x02 \<noteq> 0 then oflag OR O_WRONLY else oflag);
          oflag = (if flags AND 0x04 \<noteq> 0 then oflag OR O_RDWR else oflag)
      in if flags AND 0x40 \<noteq> 0 then oflag OR (O_CREAT OR O_TRUNC) else oflag)"

text \<open>The access mode that the system takes from the flags.\<close>

definition access_mode :: "u32 \<Rightarrow> u32" where
  "access_mode oflag = oflag AND 3"

definition platform_close_socket :: "(int \<Rightarrow> int) \<Rightarrow> int \<Rightarrow> int" where
  "platform_close_socket sys_close sock = (if sock = - 1 then 0 else sys_close sock)"

definition platform_close_fd :: "(int \<Rightarrow> int) \<Rightarrow> int \<Rightarrow> int" where
  "platform_close_fd sys_close fd = (if fd < 0 then 0 else sys_close fd)"

text \<open>\<open>set_nonblocking\<close> with the answer of the first \<open>fcntl\<close>: its result and the flags it sets.\<close>

definition set_nonblocking :: "int \<Rightarrow> (u32 \<Rightarrow> int) \<Rightarrow> int \<times> u32 option" where
  "set_nonblocking getfl setfl =
     (if getfl < 0 then (- 1, None)
      else let fl = word_of_int getfl OR O_NONBLOCK in (setfl fl, Some fl))"

text \<open>The port is cut to 16 bits.\<close>

definition bind_and_listen :: "(u16 \<Rightarrow> int) \<Rightarrow> int \<Rightarrow> int \<Rightarrow> int" where
  "bind_and_listen sys_bind sys_listen port =
     (if sys_bind (word_of_int port) < 0 then - 1 else if sys_listen < 0 then - 1 else 0)"

section \<open>Clocks\<close>

definition get_tick_ms :: "int \<Rightarrow> int \<Rightarrow> u64" where
  "get_tick_ms tv_sec tv_nsec = word_of_int tv_sec * 1000 + word_of_int (tv_nsec div 1000000)"

definition get_tick_us :: "int \<Rightarrow> int \<Rightarrow> u64" where
  "get_tick_us tv_sec tv_nsec = word_of_int tv_sec * 1000000 + word_of_int (tv_nsec div 1000)"

definition get_real_time_ms :: "int \<Rightarrow> int \<Rightarrow> int" where
  "get_real_time_ms tv_sec tv_usec = i64 (tv_sec * 1000 + tv_usec div 1000)"

definition now_microseconds :: "int \<Rightarrow> int \<Rightarrow> int" where
  "now_microseconds tv_sec tv_usec = i64 (tv_sec * 1000000 + tv_usec)"

text \<open>\<open>time::sleep_ms\<close> narrows its argument to \<open>int\<close>.\<close>

definition time_sleep_ms :: "int \<Rightarrow> int" where
  "time_sleep_ms ms = signed_take_bit 31 ms"

text \<open>
  \<open>format_timestamp\<close>: \<open>strftime\<close> is given 64 bytes; its answer is \<open>None\<close> if the text does not fit, and
  the contents of the buffer are then unspecified.
\<close>

definition format_timestamp :: "(nat \<Rightarrow> string \<Rightarrow> 'tm \<Rightarrow> string option) \<Rightarrow> (int \<Rightarrow> 'tm) \<Rightarrow> int \<Rightarrow> string \<Rightarrow> string option" where
  "format_timestamp strftime localtime ts fmt = strftime 64 fmt (localtime ts)"

definition format_now :: "(nat \<Rightarrow> string \<Rightarrow> 'tm \<Rightarrow> string option) \<Rightarrow> (int \<Rightarrow> 'tm) \<Rightarrow> int \<Rightarrow> string \<Rightarrow> string option" where
  "format_now strftime localtime now_seconds fmt = format_timestamp strftime localtime now_seconds fmt"

definition now_milliseconds :: "int \<Rightarrow> int \<Rightarrow> int" where
  "now_milliseconds tv_sec tv_nsec = sint (get_tick_ms tv_sec tv_nsec)"

section \<open>Results of the file functions\<close>

text \<open>The counts of \<open>read\<close> and \<open>write\<close> are narrowed to \<open>int\<close>.\<close>

definition file_read :: "(int \<Rightarrow> u64 \<Rightarrow> int) \<Rightarrow> int \<Rightarrow> u64 \<Rightarrow> int" where
  "file_read sys_read fd len = signed_take_bit 31 (sys_read fd len)"

definition file_write :: "(int \<Rightarrow> u64 \<Rightarrow> int) \<Rightarrow> int \<Rightarrow> u64 \<Rightarrow> int" where
  "file_write sys_write fd len = signed_take_bit 31 (sys_write fd len)"

definition SEEK_CUR :: int where "SEEK_CUR = 1"

definition file_tell :: "(int \<Rightarrow> int \<Rightarrow> int \<Rightarrow> int) \<Rightarrow> int \<Rightarrow> int" where
  "file_tell seek fd = seek fd 0 SEEK_CUR"

text \<open>The identifier of a thread is narrowed to \<open>int\<close>.\<close>

definition get_thread_id :: "u64 \<Rightarrow> int" where
  "get_thread_id tid = sint (ucast tid :: u32)"

section \<open>Windows\<close>

definition GENERIC_READ :: u32 where "GENERIC_READ = 0x80000000"
definition GENERIC_WRITE :: u32 where "GENERIC_WRITE = 0x40000000"
definition CREATE_ALWAYS :: u32 where "CREATE_ALWAYS = 2"
definition OPEN_EXISTING :: u32 where "OPEN_EXISTING = 3"
definition INVALID_HANDLE_VALUE :: u64 where "INVALID_HANDLE_VALUE = - 1"

definition win_open_access :: "u32 \<Rightarrow> u32" where
  "win_open_access flags =
     (let acc = 0;
          acc = (if flags AND 0x01 \<noteq> 0 then acc OR GENERIC_READ else acc)
      in if flags AND 0x02 \<noteq> 0 then acc OR GENERIC_WRITE else acc)"

text \<open>Handles are 64 bits wide and are passed to the caller as an \<open>int\<close>.\<close>

definition win_file_open :: "(u32 \<Rightarrow> u32 \<Rightarrow> u64) \<Rightarrow> u32 \<Rightarrow> int" where
  "win_file_open create_file flags =
     (let h = create_file (win_open_access flags) (if flags AND 0x40 \<noteq> 0 then CREATE_ALWAYS else OPEN_EXISTING)
      in if h = INVALID_HANDLE_VALUE then - 1 else sint (ucast h :: u32))"

definition as_handle :: "int \<Rightarrow> u64" where
  "as_handle fd = word_of_int fd"

definition win_file_close :: "(u64 \<Rightarrow> bool) \<Rightarrow> int \<Rightarrow> int" where
  "win_file_close close_handle fd = (if close_handle (as_handle fd) then 0 else - 1)"

definition win_file_read :: "(u64 \<Rightarrow> u32 \<Rightarrow> bool \<times> u32) \<Rightarrow> int \<Rightarrow> u64 \<Rightarrow> int" where
  "win_file_read read_file fd len =
     (let (ok, n) = read_file (as_handle fd) (ucast len) in if ok then sint n else - 1)"

definition win_file_write :: "(u64 \<Rightarrow> u32 \<Rightarrow> bool \<times> u32) \<Rightarrow> int \<Rightarrow> u64 \<Rightarrow> int" where
  "win_file_write write_file fd len =
     (let (ok, n) = write_file (as_handle fd) (ucast len) in if ok then sint n else - 1)"

text \<open>
  \<open>SetFilePointer\<close> gets both halves of the offset and returns both halves of the new position; the
  low half is \<open>INVALID_SET_FILE_POINTER\<close>, all ones, if it fails.
\<close>

definition INVALID_SET_FILE_POINTER :: u32 where "INVALID_SET_FILE_POINTER = 0xFFFFFFFF"

definition win_file_seek :: "(u64 \<Rightarrow> u32 \<Rightarrow> u32 \<Rightarrow> u32 \<Rightarrow> u32 \<times> u32) \<Rightarrow> int \<Rightarrow> int \<Rightarrow> int \<Rightarrow> int" where
  "win_file_seek set_file_pointer fd off whence =
     (let li = word_of_int off :: u64;
          (low, high) = set_file_pointer (as_handle fd) (ucast li) (ucast (drop_bit 32 li)) (word_of_int whence)
      in sint (push_bit 32 (ucast high) OR ucast low :: u64))"

definition win_get_tick_us :: "int \<Rightarrow> int \<Rightarrow> u64" where
  "win_get_tick_us freq cnt = word_of_int (i64 (cnt * 1000000) div freq)"

definition win_now_microseconds :: "u32 \<Rightarrow> u32 \<Rightarrow> int" where
  "win_now_microseconds high low = sint (push_bit 32 (ucast high) OR ucast low :: u64) div 10"

text \<open>
  The socket library: \<open>inited\<close> is \<open>g_wsa_inited\<close>, \<open>startup\<close> the result of \<open>WSAStartup\<close>. The result, the
  calls of the library and the new value.
\<close>

datatype wsa_call = WSAStartup int | WSACleanup

definition platform_init :: "int \<Rightarrow> bool \<Rightarrow> int \<times> wsa_call list \<times> bool" where
  "platform_init startup inited =
     (if inited then (0, [], True)
      else if startup \<noteq> 0 then (- 1, [WSAStartup startup], False)
      else (0, [WSAStartup startup], True))"

definition platform_shutdown :: "bool \<Rightarrow> int \<times> wsa_call list \<times> bool" where
  "platform_shutdown inited = (if \<not> inited then (0, [], False) else (0, [WSACleanup], False))"

datatype wsa_op = Wsa_Init int | Wsa_Shutdown

fun wsa_run :: "wsa_op list \<Rightarrow> bool \<Rightarrow> wsa_call list \<times> bool" where
  "wsa_run [] b = ([], b)"
| "wsa_run (Wsa_Init r # ops) b =
     (let (_, cs, b1) = platform_init r b; (cs', b2) = wsa_run ops b1 in (cs @ cs', b2))"
| "wsa_run (Wsa_Shutdown # ops) b =
     (let (_, cs, b1) = platform_shutdown b; (cs', b2) = wsa_run ops b1 in (cs @ cs', b2))"

section \<open>Which branch is compiled\<close>

text \<open>
  \<open>platform.h\<close> defines both \<open>PLATFORM_WINDOWS\<close> and \<open>PLATFORM_LINUX\<close> on every host, as 0 or 1, while the
  sources ask with \<open>#ifdef\<close> whether they are defined.
\<close>

datatype host = Linux_Host | Windows_Host

definition platform_macros :: "host \<Rightarrow> (string \<times> int) list" where
  "platform_macros h =
     (case h of
        Windows_Host \<Rightarrow> [(''PLATFORM_WINDOWS'', 1), (''PLATFORM_LINUX'', 0)]
      | Linux_Host \<Rightarrow> [(''PLATFORM_WINDOWS'', 0), (''PLATFORM_LINUX'', 1)])"

definition macro_defined :: "string \<Rightarrow> host \<Rightarrow> bool" where
  "macro_defined m h \<longleftrightarrow> map_of (platform_macros h) m \<noteq> None"

text \<open>The branch taken by \<open>platform.cpp\<close>, and by \<open>event_loop.cpp\<close> and \<open>tcp_server.cpp\<close>.\<close>

definition adapter_branch :: "host \<Rightarrow> host" where
  "adapter_branch h = (if macro_defined ''PLATFORM_WINDOWS'' h then Windows_Host else Linux_Host)"

definition event_branch :: "host \<Rightarrow> host" where
  "event_branch h = (if macro_defined ''PLATFORM_LINUX'' h then Linux_Host else Windows_Host)"

section \<open>Properties\<close>

lemma uint_word_small: "0 \<le> x \<Longrightarrow> x < 2 ^ 64 \<Longrightarrow> uint (word_of_int x :: u64) = x"
  by (simp add: uint_word_of_int)

text \<open>
  The tick functions are exact: for a clock reading of at most \<open>2 ^ 43\<close> seconds (about
  280,000 years) \<open>get_tick_ms\<close> and \<open>get_tick_us\<close> are the whole milliseconds and microseconds of
  the reading in nanoseconds, so that they never decrease while the clock does not.
\<close>

theorem ticks_exact:
  assumes "0 \<le> tv_sec" "tv_sec < 2 ^ 43" "0 \<le> tv_nsec" "tv_nsec < 1000000000"
  shows "uint (get_tick_ms tv_sec tv_nsec) = (tv_sec * 1000000000 + tv_nsec) div 1000000 \<and>
    uint (get_tick_us tv_sec tv_nsec) = (tv_sec * 1000000000 + tv_nsec) div 1000"
proof -
  have ms: "get_tick_ms tv_sec tv_nsec = word_of_int (tv_sec * 1000 + tv_nsec div 1000000)"
    and us: "get_tick_us tv_sec tv_nsec = word_of_int (tv_sec * 1000000 + tv_nsec div 1000)"
    by (simp_all add: get_tick_ms_def get_tick_us_def)
  have p: "(2 :: int) ^ 43 = 8796093022208" "(2 :: int) ^ 64 = 18446744073709551616" by simp_all
  have "tv_sec * 1000 + tv_nsec div 1000000 = (tv_sec * 1000000000 + tv_nsec) div 1000000"
    "tv_sec * 1000000 + tv_nsec div 1000 = (tv_sec * 1000000000 + tv_nsec) div 1000"
    by linarith+
  moreover have "0 \<le> tv_sec * 1000 + tv_nsec div 1000000" "tv_sec * 1000 + tv_nsec div 1000000 < 2 ^ 64"
    "0 \<le> tv_sec * 1000000 + tv_nsec div 1000" "tv_sec * 1000000 + tv_nsec div 1000 < 2 ^ 64"
    using assms unfolding p by linarith+
  ultimately show ?thesis unfolding ms us by (simp only: uint_word_small simp_thms)
qed

theorem ticks_exact_witness:
  "uint (get_tick_ms 7 123456789) = 7123 \<and> uint (get_tick_us 7 123456789) = 7123456"
  using ticks_exact [of 7 123456789] by simp

text \<open>
  Asking \<open>file_open\<close> for reading and writing with the flags \<open>0x01\<close> and \<open>0x02\<close>, as the
  Windows branch understands them, opens the file for writing only on Linux; the mode for both
  is reached only with the flag \<open>0x04\<close> and without \<open>0x02\<close>, which turns it into an invalid mode.
\<close>

theorem file_open_access_mode:
  "access_mode (file_open_flags flags) =
     (if bit flags 2 then (if bit flags 1 then 3 else O_RDWR) else if bit flags 1 then O_WRONLY else O_RDONLY)"
proof -
  have b: "(flags AND 2 ^ n \<noteq> 0) = bit flags n" if "n < 32" for n
    using that by (simp add: bit_iff_and_push_bit_not_eq_0 [where a = flags])
  have "(flags AND 0x02 \<noteq> 0) = bit flags 1" "(flags AND 0x04 \<noteq> 0) = bit flags 2"
    using b [of 1] b [of 2] by simp_all
  then show ?thesis
    by (simp add: access_mode_def file_open_flags_def Let_def O_RDONLY_def O_WRONLY_def O_RDWR_def O_CREAT_def O_TRUNC_def)
qed

text \<open>
  The count that \<open>file_read\<close> returns is right exactly up to \<open>2 ^ 31 - 1\<close> bytes; from \<open>2 ^ 31\<close> to
  \<open>2 ^ 32 - 1\<close> bytes a successful read looks like an error.
\<close>

theorem file_read_count:
  assumes "sys_read fd len = int n"
  shows "(n < 2 ^ 31 \<longrightarrow> file_read sys_read fd len = int n) \<and>
    (2 ^ 31 \<le> n \<and> n < 2 ^ 32 \<longrightarrow> file_read sys_read fd len < 0)"
proof -
  have "signed_take_bit 31 (int n) = int n" if "n < 2 ^ 31"
    using that by (intro signed_take_bit_int_eq_self) auto
  moreover have "signed_take_bit 31 (int n) < 0" if "2 ^ 31 \<le> n" "n < 2 ^ 32"
  proof -
    have "signed_take_bit 31 (int n) = (int n + 2 ^ 31) mod 2 ^ 32 - 2 ^ 31"
      by (simp add: signed_take_bit_eq_take_bit_shift take_bit_eq_mod)
    also have "(int n + 2 ^ 31) mod 2 ^ 32 = ((int n - 2 ^ 31) + 1 * 2 ^ 32) mod 2 ^ 32" by (simp add: add.commute)
    also have "\<dots> = int n - 2 ^ 31" using that by (simp only: mod_mult_self1) (simp add: mod_pos_pos_trivial)
    finally show ?thesis using that by simp
  qed
  ultimately show ?thesis by (simp add: file_read_def assms)
qed

theorem file_read_count_witness: "file_read (\<lambda>_ _. 5) 3 10 = 5 \<and> file_read (\<lambda>_ _. 2147483653) 3 (2 ^ 33) < 0"
  using file_read_count [of "\<lambda>_ _. 5" 3 10 5] file_read_count [of "\<lambda>_ _. 2147483653" 3 "2 ^ 33" 2147483653] by simp

text \<open>
  A handle survives the passage through \<open>int\<close> exactly if it is the sign extension of its low 32
  bits; any other handle is turned into a different one, which \<open>file_close\<close> then closes.
\<close>

theorem win_handle_roundtrip:
  assumes "create_file (win_open_access flags) (if flags AND 0x40 \<noteq> 0 then CREATE_ALWAYS else OPEN_EXISTING) = h"
    and "h \<noteq> INVALID_HANDLE_VALUE"
  shows "as_handle (win_file_open create_file flags) = h \<longleftrightarrow> - (2 ^ 31) \<le> sint h \<and> sint h < 2 ^ 31"
proof -
  have o: "win_file_open create_file flags = sint (ucast h :: u32)"
    using assms by (simp add: win_file_open_def Let_def)
  have b: "- (2 ^ 31) \<le> sint (ucast h :: u32)" "sint (ucast h :: u32) < 2 ^ 31"
    using sint_greater_eq [of "ucast h :: u32"] sint_less [of "ucast h :: u32"] by simp_all
  have s: "sint (word_of_int (sint (ucast h :: u32)) :: u64) = sint (ucast h :: u32)"
    using b by (simp only: sint_sbintrunc') (simp add: signed_take_bit_int_eq_self)
  show ?thesis
  proof
    assume "as_handle (win_file_open create_file flags) = h"
    then have "sint h = sint (ucast h :: u32)" using s by (simp add: as_handle_def o)
    with b show "- (2 ^ 31) \<le> sint h \<and> sint h < 2 ^ 31" by simp
  next
    assume r: "- (2 ^ 31) \<le> sint h \<and> sint h < 2 ^ 31"
    have "sint (ucast h :: u32) = signed_take_bit 31 (sint h)"
      by (simp add: sint_uint signed_take_bit_take_bit unsigned_ucast_eq)
    also have "\<dots> = sint h" using r by (intro signed_take_bit_int_eq_self) auto
    finally show "as_handle (win_file_open create_file flags) = h" by (simp add: as_handle_def o)
  qed
qed

text \<open>
  A seek that fails is not reported: the result is the position with all low bits set, which is not
  negative unless the high half is.
\<close>

theorem win_seek_failure_unnoticed:
  assumes "set_file_pointer (as_handle fd) (ucast (word_of_int off :: u64)) (ucast (drop_bit 32 (word_of_int off :: u64))) (word_of_int whence) =
    (INVALID_SET_FILE_POINTER, 0)"
  shows "win_file_seek set_file_pointer fd off whence = 4294967295"
  using assms by (simp add: win_file_seek_def Let_def INVALID_SET_FILE_POINTER_def)

theorem win_seek_failure_unnoticed_witness: "win_file_seek (\<lambda>_ _ _ _. (INVALID_SET_FILE_POINTER, 0)) 3 (- 8) 0 = 4294967295"
  by (rule win_seek_failure_unnoticed) simp

text \<open>
  The Windows microsecond clock is exact as long as the counter times a million fits 63 bits. At the
  usual 10 MHz that is the first 922,337 seconds (under eleven days): the next reading
  is off by about \<open>2 ^ 64\<close> divided by ten million.
\<close>

theorem win_tick_us_exact:
  assumes "0 < freq" "0 \<le> cnt" "cnt * 1000000 < 2 ^ 63"
  shows "uint (win_get_tick_us freq cnt) = cnt * 1000000 div freq"
proof -
  have i: "i64 (cnt * 1000000) = cnt * 1000000" using assms(2,3) by (intro i64_id) simp_all
  have "cnt * 1000000 div freq \<le> cnt * 1000000" using zdiv_mono2 [of "cnt * 1000000" 1 freq] assms(1,2) by simp
  then have "0 \<le> cnt * 1000000 div freq" "cnt * 1000000 div freq < 2 ^ 64"
    using assms by (simp_all add: pos_imp_zdiv_nonneg_iff)
  then show ?thesis by (simp only: win_get_tick_us_def i uint_word_small)
qed

theorem win_tick_us_exact_witness:
  "uint (win_get_tick_us 10000000 9223372036854) = 922337203685 \<and>
   uint (win_get_tick_us 10000000 9223372036855) \<noteq> 922337203685"
proof
  show "uint (win_get_tick_us 10000000 9223372036854) = 922337203685"
    using win_tick_us_exact [of 10000000 9223372036854] by simp
  show "uint (win_get_tick_us 10000000 9223372036855) \<noteq> 922337203685"
    by (simp add: win_get_tick_us_def i64_def signed_take_bit_eq_take_bit_shift take_bit_eq_mod uint_word_of_int)
qed

text \<open>
  Whatever sequence of initialisations and shutdowns the program makes, the socket library is
  started and cleaned up alternately, and it is up exactly if the flag says so. The flag is no
  counter: one shutdown undoes any number of initialisations.
\<close>

theorem wsa_balanced:
  "length (filter (\<lambda>c. c = WSAStartup 0) (fst (wsa_run ops False))) =
     length (filter (\<lambda>c. c = WSACleanup) (fst (wsa_run ops False))) + (if snd (wsa_run ops False) then 1 else 0) \<and>
   \<not> snd (wsa_run (replicate n (Wsa_Init 0) @ [Wsa_Shutdown]) b)"
proof -
  have "length (filter (\<lambda>c. c = WSAStartup 0) (fst (wsa_run ops b))) + (if b then 1 else 0) =
     length (filter (\<lambda>c. c = WSACleanup) (fst (wsa_run ops b))) + (if snd (wsa_run ops b) then 1 else 0)" for b
  proof (induction ops arbitrary: b)
    case (Cons op ops)
    show ?case
      using Cons.IH [of True] Cons.IH [of False]
      by (cases op; cases b) (auto simp: platform_init_def platform_shutdown_def split_beta Let_def)
  qed simp
  from this [of False] have 1: "length (filter (\<lambda>c. c = WSAStartup 0) (fst (wsa_run ops False))) =
     length (filter (\<lambda>c. c = WSACleanup) (fst (wsa_run ops False))) + (if snd (wsa_run ops False) then 1 else 0)" by simp
  have "\<not> snd (wsa_run (replicate n (Wsa_Init 0) @ [Wsa_Shutdown]) b)" for b
    by (induction n arbitrary: b) (auto simp: platform_init_def platform_shutdown_def split_beta Let_def)
  with 1 show ?thesis by simp
qed

text \<open>
  On every host \<open>platform.cpp\<close> compiles its Windows branches and \<open>event_loop.cpp\<close> and
  \<open>tcp_server.cpp\<close> their Linux branches.
\<close>

theorem branches_ignore_host: "adapter_branch h = Windows_Host \<and> event_branch h = Linux_Host"
  by (cases h) (simp_all add: adapter_branch_def event_branch_def macro_defined_def platform_macros_def)

end
