(* ===== verification/Windows.thy ===== *)
theory Windows
  imports Event_Loop Tcp_Server Platform Locks
begin

text \<open>
  The Windows branches of \<open>src/base/event/event_loop.cpp\<close> (an I/O completion port instead of epoll)
  and \<open>src/network/tcp/tcp_server.cpp\<close> (\<open>select\<close> instead of epoll), over the state and the functions
  that both branches share. Results of system calls are arguments.
\<close>

section \<open>Event loop\<close>

text \<open>\<open>wl_base\<close> holds the members that both branches have; the handle 0 is \<open>nullptr\<close>.\<close>

record 'c win_loop =
  wl_iocp :: u64
  wl_base :: "'c event_loop"

definition WinLoop_new :: "'c win_loop" where
  "WinLoop_new = \<lparr>wl_iocp = 0, wl_base = EventLoop_new\<rparr>"

definition win_init :: "u64 \<Rightarrow> 'c win_loop \<Rightarrow> bool \<times> 'c win_loop" where
  "win_init port s = (port \<noteq> 0, s\<lparr>wl_iocp := port\<rparr>)"

definition win_destroy :: "'c win_loop \<Rightarrow> u64 list \<times> 'c win_loop" where
  "win_destroy s =
     (if wl_iocp s \<noteq> 0 then [wl_iocp s] else [], s\<lparr>wl_iocp := 0, wl_base := el_stop (wl_base s)\<rparr>)"

definition win_add_fd :: "u64 \<Rightarrow> int \<Rightarrow> event_type \<Rightarrow> u64 \<Rightarrow> 'c win_loop \<Rightarrow> bool \<times> 'c win_loop" where
  "win_add_fd port fd type handler s =
     (if port = 0 then (False, s)
      else (True, s\<lparr>wl_base := (wl_base s)\<lparr>el_fd_handlers := um_set fd handler (el_fd_handlers (wl_base s))\<rparr>\<rparr>))"

definition win_del_fd :: "int \<Rightarrow> 'c win_loop \<Rightarrow> bool \<times> 'c win_loop" where
  "win_del_fd fd s = (True, s\<lparr>wl_base := (wl_base s)\<lparr>el_fd_handlers := um_erase fd (el_fd_handlers (wl_base s))\<rparr>\<rparr>)"

definition win_mod_fd :: "int \<Rightarrow> event_type \<Rightarrow> 'c win_loop \<Rightarrow> bool \<times> 'c win_loop" where
  "win_mod_fd fd type s = (True, s)"

text \<open>
  The answer of \<open>GetQueuedCompletionStatus\<close>: its result, the number of bytes, the completion key and
  the pointer to the overlapped structure. The code takes the key for a handler, the pointer
  for a descriptor or a timer, and the number of bytes for event flags. \<open>FD_ERROR\<close> is not a
  constant of Winsock and is an argument.
\<close>

datatype completion = Completion bool u32 u64 u64

definition FD_READ :: u32 where "FD_READ = 1"
definition FD_WRITE :: u32 where "FD_WRITE = 2"
definition FD_CLOSE :: u32 where "FD_CLOSE = 32"

datatype 'c win_event = No_Event | Timer_Event 'c | Handler_Event u64 "handler_call list"

definition win_dispatch :: "u32 \<Rightarrow> (u64 \<Rightarrow> 'c timer_entry) \<Rightarrow> completion \<Rightarrow> 'c win_event" where
  "win_dispatch FD_ERROR entry_at cmp =
     (case cmp of Completion ok bytes key ov \<Rightarrow>
        if \<not> ok \<and> ov = 0 then No_Event
        else if key = 0 \<and> ov \<noteq> 0 then
          (case te_callback (entry_at ov) of
             None \<Rightarrow> No_Event
           | Some c \<Rightarrow> if te_cancelled (entry_at ov) then No_Event else Timer_Event c)
        else if key \<noteq> 0 then
          let fd = ucast ov; flags = bytes; type = EV_READ;
              type = (if flags AND FD_READ \<noteq> 0 then type OR EV_READ else type);
              type = (if flags AND FD_WRITE \<noteq> 0 then type OR EV_WRITE else type);
              type = (if flags AND FD_ERROR \<noteq> 0 then type OR EV_ERROR else type);
              type = (if flags AND FD_CLOSE \<noteq> 0 then type OR EV_CLOSED else type)
          in Handler_Event key (on_event fd type)
        else No_Event)"

text \<open>
  \<open>run_once\<close>: whether an exception left it, the tasks and timers called, the handler called. The
  callback of a timer completion is not guarded by a \<open>try\<close>.
\<close>

definition win_run_once :: "u32 \<Rightarrow> (u64 \<Rightarrow> 'c timer_entry) \<Rightarrow> ('c \<Rightarrow> 'c event_loop \<Rightarrow> outcome \<times> 'c event_loop) \<Rightarrow>
    completion \<Rightarrow> int \<Rightarrow> 'c win_loop \<Rightarrow> bool \<times> 'c list \<times> (u64 \<times> handler_call list) list \<times> 'c win_loop" where
  "win_run_once FD_ERROR entry_at run cmp now s =
     (let (threw, calls, b1) = process_tasks run (wl_base s) in
      if threw then (True, calls, [], s\<lparr>wl_base := b1\<rparr>)
      else let (threw', calls', b2) = process_timers run now b1 in
      if threw' then (True, calls @ calls', [], s\<lparr>wl_base := b2\<rparr>)
      else case win_dispatch FD_ERROR entry_at cmp of
        No_Event \<Rightarrow> (False, calls @ calls', [], s\<lparr>wl_base := b2\<rparr>)
      | Timer_Event c \<Rightarrow> (fst (run c b2) \<noteq> Returns, calls @ calls' @ [c], [], s\<lparr>wl_base := snd (run c b2)\<rparr>)
      | Handler_Event h hcs \<Rightarrow> (False, calls @ calls', [(h, hcs)], s\<lparr>wl_base := b2\<rparr>))"

section \<open>Server\<close>

text \<open>
  One turn of the accept loop: the result of \<open>select\<close>, whether the listening socket is in its set, the
  result of \<open>accept\<close> and the clock.
\<close>

datatype win_select = Select int bool int u64

text \<open>
  One accepted socket: as on Linux, but without \<open>set_reuseaddr\<close> and without epoll.
\<close>

definition win_accept_one :: "int \<Rightarrow> u64 \<Rightarrow> tcp_server \<Rightarrow> server_effect list \<times> tcp_server" where
  "win_accept_one client_sock tick s =
     (if client_sock = INVALID_SOCKET then ([], s)
      else let sid = sv_next_session_id s;
               conn = TcpConnection_new client_sock sid tick;
               conn = set_on_message (sv_on_message s) conn;
               conn = set_on_close True conn
           in ([Set_Nonblocking client_sock, Set_Nodelay client_sock] @ map (Conn sid) (conn_start conn),
               s\<lparr>sv_next_session_id := sid + 1, sv_objects := (sv_objects s)(sid \<mapsto> conn),
                 sv_connections := sv_connections s @ [sid]\<rparr>))"

fun win_accept_turns :: "win_select list \<Rightarrow> tcp_server \<Rightarrow> server_effect list \<times> tcp_server" where
  "win_accept_turns [] s = ([], s)"
| "win_accept_turns (Select ret isset client_sock tick # ws) s =
     (if \<not> sv_running s then ([], s)
      else let (e, s1) = (if ret > 0 \<and> isset then win_accept_one client_sock tick s else ([], s));
               (e', s2) = win_accept_turns ws s1
           in (e @ e', s2))"

definition win_heartbeat_turn :: "(int \<Rightarrow> u64) \<Rightarrow> tcp_server \<Rightarrow> server_effect list \<times> tcp_server" where
  "win_heartbeat_turn tick s =
     close_objects (filter (\<lambda>sid. case sv_objects s sid of
         None \<Rightarrow> False | Some c \<Rightarrow> is_idle (tick sid) (sv_idle_timeout_ms s) c) (sv_connections s)) s"

text \<open>
  The close callback as a program over the mutex \<open>conn_mutex_\<close>: the Linux branch ends the scope before it
  calls the handler, the Windows branch calls it inside.
\<close>

definition erase_session :: "int \<Rightarrow> tcp_server \<Rightarrow> tcp_server" where
  "erase_session sid s = s\<lparr>sv_connections := filter (\<lambda>k. k \<noteq> sid) (sv_connections s)\<rparr>"

definition close_callback :: "int \<Rightarrow> tcp_server stmt list \<Rightarrow> tcp_server stmt list" where
  "close_callback sid handler = Guarded [Act (erase_session sid)] # handler"

definition win_close_callback :: "int \<Rightarrow> tcp_server stmt list \<Rightarrow> tcp_server stmt list" where
  "win_close_callback sid handler = [Guarded (Act (erase_session sid) # while_locked handler)]"

section \<open>Lemmas\<close>

text \<open>The sockets that a loop accepts, and the operations of the server that they are.\<close>

fun linux_accepted :: "int \<Rightarrow> server_wait list \<Rightarrow> (int \<times> u64) list" where
  "linux_accepted srv [] = []"
| "linux_accepted srv (Server_Wait_Failed eintr # ws) = (if eintr then linux_accepted srv ws else [])"
| "linux_accepted srv (Server_Ready evs # ws) =
     map snd (filter (\<lambda>(fd, _). fd = srv) evs) @ linux_accepted srv ws"

fun win_accepted :: "win_select list \<Rightarrow> (int \<times> u64) list" where
  "win_accepted [] = []"
| "win_accepted (Select ret isset sock tick # ws) = (if ret > 0 \<and> isset then [(sock, tick)] else []) @ win_accepted ws"

definition accept_ops :: "(int \<times> u64) list \<Rightarrow> server_op list" where
  "accept_ops xs = map (\<lambda>(sock, tick). Sv_Accept sock tick) xs"

lemma accept_one_keeps [simp]:
  "sv_running (snd (accept_one sock tick s)) = sv_running s"
  "sv_server_sock (snd (accept_one sock tick s)) = sv_server_sock s"
  by (simp_all add: accept_one_def Let_def)

lemma server_trace_append:
  "server_trace le (xs @ ys) s =
     (let (e, s1) = server_trace le xs s; (e', s2) = server_trace le ys s1 in (e @ e', s2))"
  by (induction xs arbitrary: s) (simp_all add: split_beta Let_def)

lemma accept_ready_keeps [simp]:
  "sv_running (snd (accept_ready evs s)) = sv_running s"
  "sv_server_sock (snd (accept_ready evs s)) = sv_server_sock s"
  by (induction evs arbitrary: s) (auto simp: split_beta Let_def split: if_splits)

lemma accept_ready_trace:
  "accept_ready evs s = server_trace le (accept_ops (map snd (filter (\<lambda>(fd, _). fd = sv_server_sock s) evs))) s"
proof (induction evs arbitrary: s)
  case (Cons ev evs)
  obtain fd sock tick where ev: "ev = (fd, sock, tick)" by (cases ev) auto
  show ?case
    using Cons.IH [of s] Cons.IH [of "snd (accept_one sock tick s)"]
    by (simp add: ev accept_ops_def split_beta Let_def)
qed (simp add: accept_ops_def)

lemma accept_turns_trace:
  "sv_running s \<Longrightarrow> accept_turns ws s = server_trace le (accept_ops (linux_accepted (sv_server_sock s) ws)) s"
proof (induction ws arbitrary: s)
  case (Cons w ws)
  show ?case
  proof (cases w)
    case (Server_Ready evs)
    obtain e s1 where r: "accept_ready evs s = (e, s1)" by fastforce
    have "accept_turns ws s1 = server_trace le (accept_ops (linux_accepted (sv_server_sock s) ws)) s1"
      using Cons.IH [of s1] Cons.prems accept_ready_keeps [of evs s] r by simp
    then show ?thesis
      using Server_Ready Cons.prems r accept_ready_trace [of evs s le]
      by (simp add: accept_ops_def server_trace_append split_beta Let_def)
  next
    case (Server_Wait_Failed eintr)
    then show ?thesis using Cons by (simp add: accept_ops_def)
  qed
qed (simp add: accept_ops_def)

text \<open>What only the Linux branch does.\<close>

fun linux_only :: "server_effect \<Rightarrow> bool" where
  "linux_only (Set_Reuseaddr fd) \<longleftrightarrow> True"
| "linux_only (Epoll_Add epfd fd) \<longleftrightarrow> True"
| "linux_only _ \<longleftrightarrow> False"

definition linux_extra :: "int \<Rightarrow> (int \<times> u64) list \<Rightarrow> server_effect list" where
  "linux_extra epfd xs =
     concat (map (\<lambda>(sock, _). if sock = INVALID_SOCKET then [] else [Set_Reuseaddr sock, Epoll_Add epfd sock]) xs)"

abbreviation shared_effects :: "server_effect list \<Rightarrow> server_effect list" where
  "shared_effects es \<equiv> filter (\<lambda>e. \<not> linux_only e) es"

lemma win_accept_one_agrees:
  "win_accept_one sock tick s = (shared_effects (fst (accept_one sock tick s)), snd (accept_one sock tick s))"
  "filter linux_only (fst (accept_one sock tick s)) = linux_extra (sv_epfd s) [(sock, tick)]"
  "sv_epfd (snd (accept_one sock tick s)) = sv_epfd s"
  by (simp_all add: win_accept_one_def accept_one_def linux_extra_def conn_start_def Let_def)

lemma win_accept_turns_agree:
  "sv_running s \<Longrightarrow> win_accept_turns ws s =
     (shared_effects (fst (server_trace le (accept_ops (win_accepted ws)) s)), snd (server_trace le (accept_ops (win_accepted ws)) s))"
proof (induction ws arbitrary: s)
  case (Cons w ws)
  obtain ret isset sock tick where w: "w = Select ret isset sock tick" by (cases w) auto
  show ?case
    using Cons.prems Cons.IH [of s] Cons.IH [of "snd (accept_one sock tick s)"]
    by (simp add: w accept_ops_def split_beta Let_def win_accept_one_agrees(1))
qed (simp add: accept_ops_def)

lemma accept_trace_extra:
  "filter linux_only (fst (server_trace le (accept_ops xs) s)) = linux_extra (sv_epfd s) xs"
proof (induction xs arbitrary: s)
  case (Cons x xs)
  then show ?case
    by (cases x) (simp add: accept_ops_def split_beta Let_def win_accept_one_agrees(2,3), simp add: linux_extra_def)
qed (simp add: accept_ops_def linux_extra_def)

lemma plain_close_callback: "plain handler \<Longrightarrow> plain (close_callback sid handler)"
  by (simp add: close_callback_def)

section \<open>Properties\<close>

text \<open>
  C34: The accept loops of the two platforms differ by exactly two system calls: however the ready sockets are spread over the
  turns of \<open>epoll_wait\<close> and of \<open>select\<close>, a running server that accepts the same sockets in the same
  order ends in the same state; the effects of the Linux loop without its calls of \<open>set_reuseaddr\<close> and \<open>epoll_ctl\<close> are those of the
  Windows loop, in the same order; and these calls are the registration of the listening socket and, for each accepted socket, one of each.
  (The close callbacks that the loops install differ in where they call the handler; see \<open>close_callback\<close> and \<open>win_close_callback\<close>.)
\<close>

theorem accept_loops_agree:
  assumes "sv_running s" "linux_accepted (sv_server_sock s) ws = win_accepted vs" "0 \<le> epfd"
  shows "win_accept_turns vs (s\<lparr>sv_epfd := epfd\<rparr>) =
      (shared_effects (fst (accept_loop epfd ws s)), snd (accept_loop epfd ws s)) \<and>
    filter linux_only (fst (accept_loop epfd ws s)) =
      Epoll_Add epfd (sv_server_sock s) # linux_extra epfd (win_accepted vs)"
proof -
  let ?s = "s\<lparr>sv_epfd := epfd\<rparr>"
  have t: "accept_turns ws ?s = server_trace True (accept_ops (win_accepted vs)) ?s"
    using accept_turns_trace [of ?s ws True] assms(1,2) by simp
  have l: "accept_loop epfd ws s = (Epoll_Add epfd (sv_server_sock s) # fst (accept_turns ws ?s), snd (accept_turns ws ?s))"
    using assms(3) by (simp add: accept_loop_def split_beta Let_def)
  show ?thesis
    using win_accept_turns_agree [of ?s vs True] accept_trace_extra [of True "win_accepted vs" ?s] assms(1) by (simp add: l t)
qed

theorem accept_loops_agree_witness:
  defines "s \<equiv> snd (server_start 3 0 (TcpServer_new 80 4 30))"
  shows "filter linux_only (fst (accept_loop 9 [Server_Ready [(3, 7, 5), (8, 1, 1), (3, 6, 5)]] s)) =
      [Epoll_Add 9 3, Set_Reuseaddr 7, Epoll_Add 9 7, Set_Reuseaddr 6, Epoll_Add 9 6] \<and>
    snd (accept_loop 9 [Server_Ready [(3, 7, 5), (8, 1, 1), (3, 6, 5)]] s) =
    snd (win_accept_turns [Select 1 True 7 5, Select 0 False 2 2, Select 1 True 6 5] (s\<lparr>sv_epfd := 9\<rparr>))"
proof -
  have "sv_running s" "sv_server_sock s = 3"
    by (simp_all add: s_def server_start_def TcpServer_new_def INVALID_SOCKET_def)
  then show ?thesis
    using accept_loops_agree [of s "[Server_Ready [(3, 7, 5), (8, 1, 1), (3, 6, 5)]]"
        "[Select 1 True 7 5, Select 0 False 2 2, Select 1 True 6 5]" 9]
    by (simp add: linux_extra_def INVALID_SOCKET_def del: accept_turns.simps win_accept_turns.simps)
qed

text \<open>
  On Windows a close handler that uses its server deadlocks it: the callback calls the handler
  while it holds \<open>conn_mutex_\<close>. There is an execution after which, whatever other threads do, the
  reading thread owns the mutex and never moves again. On Linux the same program cannot get stuck
  before it is finished.
\<close>

theorem close_handler_deadlocks_on_windows:
  fixes others :: "nat \<Rightarrow> tcp_server stmt list"
  assumes "plain (Guarded as # handler)" "\<And>u. plain (others u)" "\<And>u. m \<le> u \<Longrightarrow> others u = []" "t < m"
  shows "(\<exists>n s. lock_reach (others(t := win_close_callback sid (Guarded as # handler))) x n s \<and>
      (\<forall>s'. (\<lambda>s s'. \<exists>u. lock_step u s s')\<^sup>*\<^sup>* s s' \<longrightarrow> owner s' = Some t \<and> (\<forall>s''. \<not> lock_step t s' s''))) \<and>
    (\<forall>n s. lock_reach (others(t := close_callback sid (Guarded as # handler))) x n s \<longrightarrow>
      (\<exists>u s'. lock_step u s s') \<or> (\<forall>u. threads s u = Outside []))"
proof (intro conjI allI impI)
  show "\<exists>n s. lock_reach (others(t := win_close_callback sid (Guarded as # handler))) x n s \<and>
      (\<forall>s'. (\<lambda>s s'. \<exists>u. lock_step u s s')\<^sup>*\<^sup>* s s' \<longrightarrow> owner s' = Some t \<and> (\<forall>s''. \<not> lock_step t s' s''))"
    by (rule relock_reached [where fs = "[erase_session sid]"]) (simp add: win_close_callback_def)
next
  fix n s
  let ?l = "others(t := close_callback sid (Guarded as # handler))"
  assume "lock_reach ?l x n s"
  moreover have "plain (?l u)" for u using assms(1,2) plain_close_callback by auto
  moreover have "?l u = []" if "m \<le> u" for u using assms(3,4) that by auto
  ultimately show "(\<exists>u s'. lock_step u s s') \<or> (\<forall>u. threads s u = Outside [])"
    using plain_threads_finish [of ?l m x n s] by (metis order_le_less)
qed

theorem close_handler_deadlocks_on_windows_witness:
  "\<exists>n s. lock_reach ((\<lambda>_. [])(0 := win_close_callback 1 [Guarded []])) (TcpServer_new 80 4 30) n s \<and> owner s = Some 0"
  using close_handler_deadlocks_on_windows [of "[]" "[]" "\<lambda>_. []" 1 0 1 "TcpServer_new 80 4 30"] by fastforce

text \<open>
  The tasks and timers of \<open>run_once\<close> are the same on both platforms: with the same state and clock
  the Windows branch calls what the Linux branch calls, followed at most by the callback of a timer
  that arrived as a completion, and leaves the same tasks and timers when there is none.
\<close>

theorem win_run_once_timers:
  assumes "win_dispatch FD_ERROR entry_at cmp \<notin> range Timer_Event"
  shows "fst (snd (win_run_once FD_ERROR entry_at run cmp now s)) = fst (snd (run_once le run epoll_wait now timeout (wl_base s))) \<and>
    fst (win_run_once FD_ERROR entry_at run cmp now s) = fst (run_once le run epoll_wait now timeout (wl_base s)) \<and>
    wl_base (snd (snd (snd (win_run_once FD_ERROR entry_at run cmp now s)))) = snd (snd (snd (run_once le run epoll_wait now timeout (wl_base s))))"
  using assms
  by (auto simp: win_run_once_def run_once_def split_beta Let_def split: win_event.split wait_result.split)

text \<open>
  A completion for a handler reports the number of bytes as flags: besides \<open>on_read\<close>, which is always
  called, \<open>on_write\<close> is called for byte counts with bit 1 and \<open>on_close\<close> for those with bit 5 set,
  whatever has happened to the descriptor.
\<close>

lemma type_flags:
  "has_flag (if b then t OR f else t) g \<longleftrightarrow> has_flag t g \<or> b \<and> has_flag f g"
  by (simp add: has_flag_or)

theorem win_dispatch_reads_byte_count:
  assumes "key \<noteq> 0"
  shows "win_dispatch 0 entry_at (Completion True bytes key ov) =
    Handler_Event key ([On_Read (ucast ov)] @ (if bit bytes 1 then [On_Write (ucast ov)] else []) @
      (if bit bytes 5 then [On_Close_Fd (ucast ov)] else []))"
proof -
  have b: "(bytes AND 2 ^ n \<noteq> 0) = bit bytes n" if "n < 32" for n
    using that by (simp add: bit_iff_and_push_bit_not_eq_0 [where a = bytes])
  have "(bytes AND FD_WRITE \<noteq> 0) = bit bytes 1" "(bytes AND FD_CLOSE \<noteq> 0) = bit bytes 5"
    using b [of 1] b [of 5] by (simp_all add: FD_WRITE_def FD_CLOSE_def)
  with assms show ?thesis
    by (simp add: win_dispatch_def Let_def on_event_def type_flags)
qed

theorem win_dispatch_reads_byte_count_witness:
  "win_dispatch 0 (\<lambda>_. undefined) (Completion True 34 4096 7) = Handler_Event 4096 [On_Read 7, On_Write 7, On_Close_Fd 7]"
  using win_dispatch_reads_byte_count [of 4096 "\<lambda>_. undefined" 34 7]
  by (simp add: bit_numeral_rec flip: numeral_2_eq_2)

end
