(* ===== verification/Tcp_Client.thy ===== *)
theory Tcp_Client
  imports Tcp_Connection "HOL-Library.Monad_Syntax"
begin

text \<open>
  Class \<open>TcpClient\<close> (\<open>src/network/tcp/tcp_client.h\<close>, \<open>tcp_client.cpp\<close>): the client end with
  its own parse loop, write queue and reconnect thread. As for \<open>TcpConnection\<close>, the results of
  the system calls are inputs and callbacks, closed descriptors and started threads are
  effects. Which threads run is part of the state. \<open>None\<close> is a call that does not come back:
  a loop that never ends, or \<open>std::terminate\<close> when a running thread object is assigned to.
\<close>

section \<open>State\<close>

record tcp_client =
  cl_host :: string
  cl_port :: int
  cl_sock :: int
  cl_connected :: bool
  cl_running :: bool
  cl_read_buf :: "byte list"
  cl_write_queue :: "byte list list"
  cl_reader :: bool
  cl_writer :: bool
  cl_joinable :: bool
  cl_on_message :: bool
  cl_on_close :: bool
  cl_on_connected :: bool

datatype client_effect =
    Cl_Connected
  | Cl_Message "byte list"
  | Cl_Closed
  | Cl_Close_Socket int

text \<open>
  \<open>cl_reader\<close> and \<open>cl_writer\<close> say whether the threads are in their loops, \<open>cl_joinable\<close>
  whether the objects \<open>read_thread_\<close> and \<open>write_thread_\<close> hold threads, ended or not.
\<close>

definition TcpClient_new :: "string \<Rightarrow> int \<Rightarrow> tcp_client" where
  "TcpClient_new host port =
     \<lparr>cl_host = host, cl_port = port, cl_sock = INVALID_SOCKET, cl_connected = False,
      cl_running = False, cl_read_buf = [], cl_write_queue = [], cl_reader = False,
      cl_writer = False, cl_joinable = False, cl_on_message = False, cl_on_close = False,
      cl_on_connected = False\<rparr>"

section \<open>Connecting\<close>

definition cl_close_socket :: "int \<Rightarrow> client_effect list" where
  "cl_close_socket sock = (if sock = INVALID_SOCKET then [] else [Cl_Close_Socket sock])"

text \<open>\<open>sock\<close> is the result of \<open>socket\<close>, \<open>ok\<close> whether \<open>connect\<close> succeeded.\<close>

definition try_connect :: "int \<Rightarrow> bool \<Rightarrow> tcp_client \<Rightarrow> bool \<times> client_effect list \<times> tcp_client" where
  "try_connect sock ok c =
     (let c1 = c\<lparr>cl_sock := sock\<rparr> in
      if sock = INVALID_SOCKET then (False, [], c1)
      else if \<not> ok then (False, cl_close_socket sock, c1\<lparr>cl_sock := INVALID_SOCKET\<rparr>)
      else (True, [], c1\<lparr>cl_connected := True\<rparr>))"

text \<open>One turn of \<open>reconnect_loop\<close> after its sleep.\<close>

definition reconnect_turn :: "int \<Rightarrow> bool \<Rightarrow> tcp_client \<Rightarrow> client_effect list \<times> tcp_client" where
  "reconnect_turn sock ok c =
     (if \<not> cl_connected c \<and> cl_running c
      then let (r, e, c1) = try_connect sock ok c
           in (e @ (if r \<and> cl_on_connected c1 then [Cl_Connected] else []), c1)
      else ([], c))"

definition cl_connect :: "int \<Rightarrow> bool \<Rightarrow> tcp_client \<Rightarrow> (bool \<times> client_effect list \<times> tcp_client) option" where
  "cl_connect sock ok c =
     (let c1 = (if \<not> cl_running c then c\<lparr>cl_running := True\<rparr> else c);
          (r, e, c2) = try_connect sock ok c1
      in if \<not> r then Some (False, e, c2)
         else if cl_joinable c2 then None
         else Some (True, e @ (if cl_on_connected c2 then [Cl_Connected] else []),
                    c2\<lparr>cl_reader := True, cl_writer := True, cl_joinable := True\<rparr>))"

section \<open>Sending\<close>

definition cl_send :: "bool \<Rightarrow> u16 \<Rightarrow> byte list \<Rightarrow> tcp_client \<Rightarrow> bool \<times> tcp_client" where
  "cl_send le cmd data c =
     (if \<not> cl_connected c then (False, c)
      else (True, c\<lparr>cl_write_queue := cl_write_queue c @ [proto_encode le (proto_packet_new cmd data)]\<rparr>))"

definition cl_send_raw :: "byte list \<Rightarrow> tcp_client \<Rightarrow> bool \<times> tcp_client" where
  "cl_send_raw data c =
     (if \<not> cl_connected c then (False, c)
      else (True, c\<lparr>cl_write_queue := cl_write_queue c @ [data]\<rparr>))"

text \<open>The inner loop of \<open>write_loop\<close>: unlike the server's, it gives up on \<open>EINTR\<close> and on 0.\<close>

fun cl_send_loop :: "byte list \<Rightarrow> send_result list \<Rightarrow> (bool \<times> byte list) option" where
  "cl_send_loop [] rs = Some (True, [])"
| "cl_send_loop (b # bs) [] = None"
| "cl_send_loop (b # bs) (Sent n # rs) =
     (if n = 0 then Some (False, [])
      else case cl_send_loop (drop n (b # bs)) rs of
        None \<Rightarrow> None
      | Some (ok, out) \<Rightarrow> Some (ok, take n (b # bs) @ out))"
| "cl_send_loop (b # bs) (Send_Failed eintr # rs) = Some (False, [])"

text \<open>
  One turn of \<open>write_loop\<close> after its wait. The flag says whether the loop is left by \<open>break\<close>;
  \<open>None\<close> is a thread still inside \<open>send\<close>.
\<close>

definition cl_write_turn :: "send_result list \<Rightarrow> tcp_client \<Rightarrow> (bool \<times> tcp_client \<times> byte list) option" where
  "cl_write_turn rs c =
     (if \<not> cl_connected c \<and> cl_write_queue c = [] then Some (True, c, [])
      else case cl_write_queue c of
        [] \<Rightarrow> Some (False, c, [])
      | msg # q \<Rightarrow>
          (case cl_send_loop msg rs of
             None \<Rightarrow> None
           | Some (ok, out) \<Rightarrow>
               Some (False, (if ok then c\<lparr>cl_write_queue := q\<rparr>
                             else c\<lparr>cl_write_queue := q, cl_connected := False\<rparr>), out)))"

fun cl_write_loop :: "send_result list list \<Rightarrow> tcp_client \<Rightarrow> (tcp_client \<times> byte list) option" where
  "cl_write_loop [] c = Some (if cl_connected c then c else c\<lparr>cl_writer := False\<rparr>, [])"
| "cl_write_loop (rs # rss) c =
     (if \<not> cl_connected c then Some (c\<lparr>cl_writer := False\<rparr>, [])
      else case cl_write_turn rs c of
        None \<Rightarrow> None
      | Some (True, c', out) \<Rightarrow> Some (c'\<lparr>cl_writer := False\<rparr>, out)
      | Some (False, c', out) \<Rightarrow>
          (case cl_write_loop rss c' of
             None \<Rightarrow> None
           | Some (c'', out') \<Rightarrow> Some (c'', out @ out')))"

section \<open>Receiving\<close>

text \<open>
  The parse loop of \<open>read_loop\<close> on the buffer: the bodies handed to \<open>on_message_\<close> and the
  bytes left. It does not return (\<open>None\<close>) for a length field of 0 in a buffer of 4 GiB or
  more, which then shrinks no further.
\<close>

partial_function (option) cl_parse :: "bool \<Rightarrow> byte list \<Rightarrow> ((byte list list \<times> byte list) access) option" where
  "cl_parse le buf =
     (if length buf < 4 then Some (Done ([], buf))
      else let total_len = host_htonl le (load32 le (take 4 buf)) in
        if length buf < unat total_len then Some (Done ([], buf))
        else case read_at buf 6 (unat (total_len - 6)) of
          Out_Of_Bounds \<Rightarrow> Some Out_Of_Bounds
        | Done msg \<Rightarrow>
            Option.bind (cl_parse le (drop (unat total_len) buf)) (\<lambda>r. Some (add_msgs [msg] r)))"

declare cl_parse.simps [code]

definition cl_read_exit :: "tcp_client \<Rightarrow> tcp_client \<times> client_effect list" where
  "cl_read_exit c =
     (c\<lparr>cl_connected := False, cl_reader := False\<rparr>, if cl_on_close c then [Cl_Closed] else [])"

text \<open>
  Events of the read thread: data, no data (end of stream or any error), or the flag
  \<open>connected_\<close> cleared by another thread.
\<close>

datatype client_event = Cl_Recv "byte list" | Cl_Recv_Nothing | Cl_Disconnected

fun cl_read_loop :: "bool \<Rightarrow> client_event list \<Rightarrow> tcp_client \<Rightarrow>
    ((bool \<times> tcp_client \<times> client_effect list) access) option" where
  "cl_read_loop le [] c =
     (if \<not> cl_connected c then (let (c', e) = cl_read_exit c in Some (Done (True, c', e)))
      else Some (Done (False, c, [])))"
| "cl_read_loop le (ev # evs) c =
     (if \<not> cl_connected c then (let (c', e) = cl_read_exit c in Some (Done (True, c', e)))
      else case ev of
        Cl_Recv tmp \<Rightarrow>
          (case cl_parse le (cl_read_buf c @ tmp) of
             None \<Rightarrow> None
           | Some Out_Of_Bounds \<Rightarrow> Some Out_Of_Bounds
           | Some (Done (msgs, buf)) \<Rightarrow>
               (case cl_read_loop le evs (c\<lparr>cl_read_buf := buf\<rparr>) of
                  None \<Rightarrow> None
                | Some Out_Of_Bounds \<Rightarrow> Some Out_Of_Bounds
                | Some (Done (fin, c'', e')) \<Rightarrow>
                    Some (Done (fin, c'', (if cl_on_message c then map Cl_Message msgs else []) @ e'))))
      | Cl_Recv_Nothing \<Rightarrow> (let (c', e) = cl_read_exit c in Some (Done (True, c', e)))
      | Cl_Disconnected \<Rightarrow> cl_read_loop le evs (c\<lparr>cl_connected := False\<rparr>))"

text \<open>
  \<open>disconnect\<close>: after it has cleared the flags and closed the socket it joins the threads, so the
  effects of the reader's exit come before its own callback. \<open>woken\<close> says whether the system call that
  the read thread may be blocked in comes back; closing the descriptor does not end it, so with
  a peer that sends nothing it does not, and the join waits forever (\<open>None\<close>).
\<close>

definition cl_disconnect :: "bool \<Rightarrow> tcp_client \<Rightarrow> (client_effect list \<times> tcp_client) option" where
  "cl_disconnect woken c =
     (if \<not> cl_running c then Some ([], c)
      else if cl_reader c \<and> \<not> woken then None
      else let c1 = c\<lparr>cl_running := False, cl_connected := False, cl_sock := INVALID_SOCKET\<rparr>;
               e1 = cl_close_socket (cl_sock c);
               (c2, e2) = (if cl_reader c1 then cl_read_exit c1 else (c1, []))
           in Some (e1 @ e2 @ (if cl_on_close c2 then [Cl_Closed] else []),
                    c2\<lparr>cl_writer := False, cl_joinable := False\<rparr>))"

section \<open>The parse loop as a framed stream\<close>

text \<open>A loop that does not return delivers nothing; it is put with the failures.\<close>

definition cl_drain :: "bool \<Rightarrow> byte list \<Rightarrow> (byte list list \<times> byte list) access" where
  "cl_drain le buf = (case cl_parse le buf of None \<Rightarrow> Out_Of_Bounds | Some r \<Rightarrow> r)"

lemma cl_parse_short: "length buf < 4 \<Longrightarrow> cl_parse le buf = Some (Done ([], buf))"
  by (subst cl_parse.simps) simp

lemma cl_parse_incomplete:
  "4 \<le> length buf \<Longrightarrow> length buf < unat (of_be32 (take 4 buf)) \<Longrightarrow> cl_parse le buf = Some (Done ([], buf))"
  by (subst cl_parse.simps) (simp add: Let_def)

lemma take4_proto_encode: "take 4 (proto_encode le' p @ rest) = be32 (of_nat (6 + length (p_data p)))"
  by (simp add: wire)

lemma cl_parse_frame:
  assumes "encodable p"
  shows "cl_parse le (proto_encode le' p @ rest) =
    Option.bind (cl_parse le rest) (\<lambda>r. Some (add_msgs [p_data p] r))"
proof -
  let ?n = "6 + length (p_data p)"
  have n: "unat (of_nat ?n :: u32) = ?n"
    using assms by (intro unat_of_nat_u32) (simp add: encodable_def)
  have six: "unat (of_nat ?n - 6 :: u32) = length (p_data p)"
    using unat_sub_6 [of "of_nat ?n"] n by simp
  have "read_at (proto_encode le' p @ rest) 6 (length (p_data p)) = Done (p_data p)"
    by (simp add: read_at_def wire)
  moreover have "drop ?n (proto_encode le' p @ rest) = rest" by (simp add: wire)
  moreover have "host_htonl le (load32 le (take 4 (proto_encode le' p @ rest))) = of_nat ?n"
    by (simp only: take4_proto_encode host_ntohl_load length_be32 of_be32_be32)
  moreover have "length (proto_encode le' p @ rest) = ?n + length rest" by simp
  ultimately show ?thesis
    using n six by (subst cl_parse.simps) (simp del: of_nat_add add: Let_def)
qed

lemma cl_parse_partial:
  assumes "encodable p" "k < length (proto_encode le' p)"
  shows "cl_parse le (take k (proto_encode le' p)) = Some (Done ([], take k (proto_encode le' p)))"
proof (cases "k < 4")
  case False
  let ?n = "6 + length (p_data p)"
  have "unat (of_nat ?n :: u32) = ?n" using assms by (intro unat_of_nat_u32) (simp add: encodable_def)
  moreover have "take 4 (take k (proto_encode le' p)) = be32 (of_nat ?n)"
    using False take4_proto_encode [of le' p "[]"] by (simp add: min_def)
  ultimately show ?thesis
    using assms(2) False by (intro cl_parse_incomplete) (simp_all del: of_nat_add)
qed (simp add: cl_parse_short)

interpretation client: framed_stream "proto_encode le'" encodable p_data "cl_drain le" for le le'
proof
  show "cl_drain le [] = Done ([], [])" by (simp add: cl_drain_def cl_parse_short)
  show "cl_drain le (proto_encode le' p @ rest) = add_msgs [p_data p] (cl_drain le rest)"
    if "encodable p" for p rest
    using cl_parse_frame [OF that, of le le' rest] by (simp add: cl_drain_def split: option.split)
  show "cl_drain le (take k (proto_encode le' p)) = Done ([], take k (proto_encode le' p))"
    if "encodable p" "k < length (proto_encode le' p)" for p k
    using cl_parse_partial [OF that, of le] by (simp add: cl_drain_def)
qed

lemma cl_drain_Done: "cl_drain le buf = Done r \<Longrightarrow> cl_parse le buf = Some (Done r)"
  by (simp add: cl_drain_def split: option.splits)

lemma cl_read_feed:
  "cl_connected c \<Longrightarrow> cl_on_message c \<Longrightarrow> feed (cl_drain le) (cl_read_buf c) cs = Done (ms, b) \<Longrightarrow>
   cl_read_loop le (map Cl_Recv cs) c = Some (Done (False, c\<lparr>cl_read_buf := b\<rparr>, map Cl_Message ms))"
proof (induction cs arbitrary: c ms)
  case (Cons x cs)
  obtain ms1 b1 where d: "cl_drain le (cl_read_buf c @ x) = Done (ms1, b1)"
    using Cons.prems(3) by (auto split: access.splits)
  then obtain ms2 where "feed (cl_drain le) b1 cs = Done (ms2, b)" and ms: "ms = ms1 @ ms2"
    using Cons.prems(3) by (auto simp: add_msgs_def split: access.splits)
  then show ?case
    using Cons.IH [of "c\<lparr>cl_read_buf := b1\<rparr>" ms2] Cons.prems(1,2) cl_drain_Done [OF d] by simp
qed simp

section \<open>Properties\<close>

text \<open>
  C35: However the server's stream is cut by \<open>recv\<close>, the client's message callback has run once
  for the body of each completely received packet, in order, the buffer holds exactly the bytes
  of the next packet, which is not complete, and the thread is still reading.
\<close>

theorem client_reassembles_stream:
  assumes "\<forall>p\<in>set ps. encodable p"
    and "concat cs @ unread = concat (map (proto_encode le') ps)"
    and "cl_read_buf c = []" "cl_on_message c" "cl_connected c"
  shows "\<exists>recvd todo c'. ps = recvd @ todo \<and>
    cl_read_loop le (map Cl_Recv cs) c = Some (Done (False, c', map (Cl_Message \<circ> p_data) recvd)) \<and>
    cl_read_buf c' @ unread = concat (map (proto_encode le') todo) \<and>
    (todo \<noteq> [] \<longrightarrow> length (cl_read_buf c') < length (proto_encode le' (hd todo)))"
proof -
  obtain ps1 ps2 w where
    d: "ps = ps1 @ ps2" "w @ unread = concat (map (proto_encode le') ps2)"
      "feed (cl_drain le) [] cs = Done (map p_data ps1, w)"
      "ps2 \<noteq> [] \<longrightarrow> length w < length (proto_encode le' (hd ps2))"
    using client.feed_exact [OF assms(1,2), of le] by blast
  have "cl_read_loop le (map Cl_Recv cs) c =
      Some (Done (False, c\<lparr>cl_read_buf := w\<rparr>, map Cl_Message (map p_data ps1)))"
    using assms(3-5) d(3) by (intro cl_read_feed) simp_all
  with d(1,2,4) show ?thesis by (intro exI [of _ ps1] exI [of _ ps2]) simp
qed

theorem client_reassembles_stream_witness:
  defines "p \<equiv> \<lparr>p_cmd = 4, p_data = [7]\<rparr>"
    and "c \<equiv> TcpClient_new ''h'' 80\<lparr>cl_on_message := True, cl_connected := True\<rparr>"
  shows "\<exists>recvd todo c'. [p, p] = recvd @ todo \<and>
    cl_read_loop True (map Cl_Recv [[0, 0, 0, 7, 0], [4, 7, 0]]) c =
      Some (Done (False, c', map (Cl_Message \<circ> p_data) recvd)) \<and>
    cl_read_buf c' @ [0, 0, 7, 0, 4, 7] = concat (map (proto_encode True) todo) \<and>
    (todo \<noteq> [] \<longrightarrow> length (cl_read_buf c') < length (proto_encode True (hd todo)))"
  using client_reassembles_stream
    [of "[p, p]" "[[0, 0, 0, 7, 0], [4, 7, 0]]" "[0, 0, 7, 0, 4, 7]" True c True]
  by (simp add: p_def c_def encodable_def wire be32_def be16_def TcpClient_new_def)

text \<open>
  A length field below 6 makes the client read outside its buffer: the body length wraps
  around to almost 4 GiB.
\<close>

theorem client_short_length_out_of_bounds:
  assumes "4 \<le> length buf" "length buf < 2 ^ 32" "unat (of_be32 (take 4 buf)) < 6"
    "unat (of_be32 (take 4 buf)) \<le> length buf"
  shows "cl_parse le buf = Some Out_Of_Bounds"
proof -
  let ?t = "of_be32 (take 4 buf)"
  have "unat (?t - 6) = 2 ^ 32 - 6 + unat ?t"
    using assms(3) by (simp add: unat_sub_if_size word_size word_le_nat_alt)
  then have "read_at buf 6 (unat (?t - 6)) = Out_Of_Bounds" using assms(2) by (simp add: read_at_def)
  then show ?thesis using assms(1,4) by (subst cl_parse.simps) (simp add: Let_def)
qed

theorem client_short_length_out_of_bounds_witness:
  "cl_parse True [0, 0, 0, 5, 1] = Some Out_Of_Bounds"
  by (rule client_short_length_out_of_bounds) simp_all

text \<open>
  After a lost connection the reconnect thread restores the socket but not the service:
  the client calls itself connected, every \<open>send\<close> succeeds, and yet no thread reads or writes,
  so the messages only pile up in the queue. Calling \<open>connect\<close> again with a socket that
  connects terminates the program, since the old thread objects were never joined.
\<close>

theorem reconnected_client_is_deaf:
  assumes "cl_running c" "cl_connected c" "cl_joinable c" "sock \<noteq> INVALID_SOCKET" "sock' \<noteq> INVALID_SOCKET"
    and "cl_read_loop le [Cl_Recv_Nothing] c = Some (Done (fin, c1, es))"
    and "cl_write_loop [] c1 = Some (c2, out)"
    and "reconnect_turn sock True c2 = (es', c3)"
  shows "cl_connected c3 \<and> \<not> cl_reader c3 \<and> \<not> cl_writer c3 \<and>
    cl_write_queue (fold (\<lambda>(cmd, data) c. snd (cl_send le cmd data c)) ps c3) =
      cl_write_queue c3 @ map (\<lambda>(cmd, data). proto_encode le (proto_packet_new cmd data)) ps \<and>
    fst (cl_send le cmd data c3) \<and> cl_connect sock' True c3 = None"
proof -
  have c1: "c1 = c\<lparr>cl_connected := False, cl_reader := False\<rparr>"
    using assms(2,6) by (simp add: cl_read_exit_def)
  have c2: "c2 = c1\<lparr>cl_writer := False\<rparr>" using assms(7) c1 by simp
  have c3: "c3 = c2\<lparr>cl_sock := sock, cl_connected := True\<rparr>"
    using assms(1,4,8) by (simp add: c1 c2 reconnect_turn_def try_connect_def Let_def)
  have "cl_connected x \<Longrightarrow> cl_write_queue (fold (\<lambda>(cmd, data) c. snd (cl_send le cmd data c)) ps x) =
      cl_write_queue x @ map (\<lambda>(cmd, data). proto_encode le (proto_packet_new cmd data)) ps" for x
    by (induction ps arbitrary: x) (auto simp: cl_send_def)
  with c1 c2 c3 assms show ?thesis
    by (simp add: cl_send_def cl_connect_def try_connect_def Let_def)
qed

theorem reconnected_client_is_deaf_witness:
  defines "c \<equiv> TcpClient_new ''h'' 80\<lparr>cl_running := True, cl_connected := True, cl_joinable := True,
    cl_reader := True, cl_writer := True, cl_sock := 5\<rparr>"
  shows "\<not> cl_reader (snd (reconnect_turn 6 True (c\<lparr>cl_connected := False, cl_reader := False, cl_writer := False\<rparr>)))"
  using reconnected_client_is_deaf [of c 6 7 True True "c\<lparr>cl_connected := False, cl_reader := False\<rparr>" "[]"
      "c\<lparr>cl_connected := False, cl_reader := False, cl_writer := False\<rparr>" "[]" "[]"
      "c\<lparr>cl_connected := True, cl_reader := False, cl_writer := False, cl_sock := 6\<rparr>" "[]" 0 "[]"]
  by (simp add: c_def TcpClient_new_def cl_read_exit_def reconnect_turn_def try_connect_def INVALID_SOCKET_def)

text \<open>
  \<open>disconnect\<close> of a connected client runs the close callback twice: once in the read thread
  as it ends and once itself. The descriptor is closed once, and a second call has no effect. With the read
  thread blocked in \<open>recv\<close> the call does not return.
\<close>

theorem disconnect_closes_twice:
  assumes "cl_connect sock True (TcpClient_new host port\<lparr>cl_on_close := True\<rparr>) = Some (True, es, c)"
  shows "(\<exists>c'. cl_disconnect True c = Some ([Cl_Close_Socket sock, Cl_Closed, Cl_Closed], c') \<and>
      (\<forall>woken. cl_disconnect woken c' = Some ([], c'))) \<and> cl_disconnect False c = None"
  using assms
  by (auto simp: cl_connect_def try_connect_def TcpClient_new_def cl_disconnect_def cl_close_socket_def
      cl_read_exit_def Let_def split: if_splits)

theorem disconnect_closes_twice_witness:
  defines "c \<equiv> TcpClient_new ''h'' 80\<lparr>cl_on_close := True, cl_running := True, cl_connected := True,
    cl_sock := 5, cl_reader := True, cl_writer := True, cl_joinable := True\<rparr>"
  shows "(\<exists>c'. cl_disconnect True c = Some ([Cl_Close_Socket 5, Cl_Closed, Cl_Closed], c')) \<and> cl_disconnect False c = None"
proof -
  have "cl_connect 5 True (TcpClient_new ''h'' 80\<lparr>cl_on_close := True\<rparr>) = Some (True, [], c)"
    by (simp add: c_def cl_connect_def try_connect_def TcpClient_new_def INVALID_SOCKET_def Let_def)
  from disconnect_closes_twice [OF this] show ?thesis by blast
qed

text \<open>
  Losing a connection leaks its descriptor: the read thread ends without closing the socket, the
  reconnect thread puts a new one in its place, and \<open>disconnect\<close> then closes only the new one.
\<close>

theorem reconnect_leaks_socket:
  assumes "cl_running c" "cl_connected c" "cl_reader c" "cl_sock c = old" "sock \<noteq> old" "sock \<noteq> INVALID_SOCKET"
    and "cl_read_loop le [Cl_Recv_Nothing] c = Some (Done (fin, c1, es1))"
    and "reconnect_turn sock True c1 = (es2, c2)" "cl_disconnect woken c2 = Some (es3, c3)"
  shows "Cl_Close_Socket old \<notin> set (es1 @ es2 @ es3) \<and> Cl_Close_Socket sock \<in> set es3"
proof -
  have 1: "c1 = c\<lparr>cl_connected := False, cl_reader := False\<rparr>" "es1 = (if cl_on_close c then [Cl_Closed] else [])"
    using assms(2,7) by (simp_all add: cl_read_exit_def)
  have 2: "c2 = c1\<lparr>cl_sock := sock, cl_connected := True\<rparr>" "es2 = (if cl_on_connected c then [Cl_Connected] else [])"
    using assms(1,6,8) by (auto simp: 1 reconnect_turn_def try_connect_def Let_def)
  have "es3 = Cl_Close_Socket sock # (if cl_on_close c then [Cl_Closed] else [])"
    using assms(1,6,9) by (auto simp: 1(1) 2(1) cl_disconnect_def cl_close_socket_def Let_def)
  with 1(2) 2(2) assms(5) show ?thesis by auto
qed

theorem reconnect_leaks_socket_witness:
  defines "c \<equiv> TcpClient_new ''h'' 80\<lparr>cl_running := True, cl_connected := True, cl_joinable := True,
    cl_reader := True, cl_writer := True, cl_sock := 5\<rparr>"
  shows "\<exists>es c'. cl_disconnect True (c\<lparr>cl_reader := False, cl_sock := 6\<rparr>) = Some (es, c') \<and> Cl_Close_Socket 5 \<notin> set es"
  using reconnect_leaks_socket [of c 5 6 True True "c\<lparr>cl_connected := False, cl_reader := False\<rparr>" "[]" "[]"
      "c\<lparr>cl_connected := True, cl_reader := False, cl_sock := 6\<rparr>" True]
  by (simp add: c_def TcpClient_new_def cl_read_exit_def reconnect_turn_def try_connect_def INVALID_SOCKET_def
      cl_disconnect_def cl_close_socket_def Let_def)

end
