(* ===== verification/Thread_Pool.thy ===== *)
theory Thread_Pool
  imports Prelude
begin

text \<open>
  Class \<open>ThreadPool\<close> (\<open>src/core/threadpool/thread_pool.h\<close>, \<open>thread_pool.cpp\<close>) and class
  \<open>Task\<close> (\<open>src/core/task/task.h\<close>). \<open>Task\<close> objects live at addresses, since the queue shares
  them with whoever may cancel them. The pool is a step relation: every critical section and
  every access outside of one is a step of its thread, the predicate of the condition variable
  is evaluated under the mutex, and the store to \<open>stop_\<close>, which is made without it, may fall
  between that evaluation and the moment the worker sleeps.
\<close>

section \<open>Tasks\<close>

datatype task_priority = LOW | NORMAL | HIGH

fun priority_value :: "task_priority \<Rightarrow> int" where
  "priority_value LOW = 0"
| "priority_value NORMAL = 1"
| "priority_value HIGH = 2"

lemma priority_value_inj: "priority_value a = priority_value b \<longleftrightarrow> a = b"
  by (cases a; cases b) auto

instantiation task_priority :: linorder
begin

definition less_eq_task_priority :: "task_priority \<Rightarrow> task_priority \<Rightarrow> bool" where
  "less_eq_task_priority a b \<longleftrightarrow> priority_value a \<le> priority_value b"

definition less_task_priority :: "task_priority \<Rightarrow> task_priority \<Rightarrow> bool" where
  "less_task_priority a b \<longleftrightarrow> priority_value a < priority_value b"

instance
  by standard (auto simp: less_eq_task_priority_def less_task_priority_def priority_value_inj)

end

record 'f task =
  tk_func :: "'f option"
  tk_priority :: task_priority
  tk_cancelled :: bool

definition Task_new :: "'f option \<Rightarrow> task_priority \<Rightarrow> 'f task" where
  "Task_new f pri = \<lparr>tk_func = f, tk_priority = pri, tk_cancelled = False\<rparr>"

text \<open>The function that \<open>execute\<close> calls, if it calls one.\<close>

definition task_execute :: "'f task \<Rightarrow> 'f list" where
  "task_execute t =
     (if \<not> tk_cancelled t then (case tk_func t of None \<Rightarrow> [] | Some f \<Rightarrow> [f]) else [])"

definition task_cancel :: "'f task \<Rightarrow> 'f task" where
  "task_cancel t = t\<lparr>tk_cancelled := True\<rparr>"

definition is_cancelled :: "'f task \<Rightarrow> bool" where
  "is_cancelled t = tk_cancelled t"

definition task_less :: "'f task \<Rightarrow> 'f task \<Rightarrow> bool" where
  "task_less a b \<longleftrightarrow> tk_priority a < tk_priority b"

section \<open>The queue\<close>

text \<open>The first loop of \<open>append_priority\<close> moves the leading urgent tasks to \<open>tmp\<close>.\<close>

fun move_high :: "('a \<Rightarrow> task_priority) \<Rightarrow> 'a list \<Rightarrow> 'a list \<Rightarrow> 'a list \<times> 'a list" where
  "move_high pri tmp [] = (tmp, [])"
| "move_high pri tmp (x # q) = (if pri x = HIGH then move_high pri (tmp @ [x]) q else (tmp, x # q))"

definition append_priority :: "('a \<Rightarrow> task_priority) \<Rightarrow> 'a \<Rightarrow> 'a list \<Rightarrow> 'a list" where
  "append_priority pri t q =
     (if pri t = HIGH then (let (tmp, rest) = move_high pri [] q in (tmp @ [t]) @ rest) else q @ [t])"

lemma move_high_takeWhile:
  "move_high pri tmp q = (tmp @ takeWhile (\<lambda>x. pri x = HIGH) q, dropWhile (\<lambda>x. pri x = HIGH) q)"
  by (induction pri tmp q rule: move_high.induct) auto

lemma mset_append_priority [simp]: "mset (append_priority pri t q) = add_mset t (mset q)"
proof -
  have "mset (takeWhile P q) + mset (dropWhile P q) = mset q" for P
    by (metis mset_append takeWhile_dropWhile_id)
  then show ?thesis by (simp add: append_priority_def move_high_takeWhile)
qed

text \<open>
  The specification: an urgent queue served before an ordinary one, both first in, first out.
\<close>

type_synonym 'a two_queues = "'a list \<times> 'a list"

fun spec_append :: "('a \<Rightarrow> task_priority) \<Rightarrow> 'a \<Rightarrow> 'a two_queues \<Rightarrow> 'a two_queues" where
  "spec_append pri t (h, l) = (if pri t = HIGH then (h @ [t], l) else (h, l @ [t]))"

fun spec_pop :: "'a two_queues \<Rightarrow> ('a \<times> 'a two_queues) option" where
  "spec_pop (x # h, l) = Some (x, (h, l))"
| "spec_pop ([], x # l) = Some (x, ([], l))"
| "spec_pop ([], []) = None"

definition abs_queue :: "('a \<Rightarrow> task_priority) \<Rightarrow> 'a list \<Rightarrow> 'a two_queues" where
  "abs_queue pri q = (filter (\<lambda>x. pri x = HIGH) q, filter (\<lambda>x. pri x \<noteq> HIGH) q)"

fun urgent_first :: "('a \<Rightarrow> task_priority) \<Rightarrow> 'a list \<Rightarrow> bool" where
  "urgent_first pri [] \<longleftrightarrow> True"
| "urgent_first pri (x # q) \<longleftrightarrow>
     (if pri x = HIGH then urgent_first pri q else (\<forall>y\<in>set q. pri y \<noteq> HIGH))"

fun queue_pop :: "'a list \<Rightarrow> ('a \<times> 'a list) option" where
  "queue_pop [] = None"
| "queue_pop (x # q) = Some (x, q)"

lemma urgent_first_append:
  "urgent_first pri (h @ l) \<longleftrightarrow>
   (if \<forall>x\<in>set h. pri x = HIGH then urgent_first pri l
    else urgent_first pri h \<and> (\<forall>x\<in>set l. pri x \<noteq> HIGH))"
  by (induction h) auto

lemma urgent_first_no_high: "\<forall>x\<in>set q. pri x \<noteq> HIGH \<Longrightarrow> urgent_first pri q"
  by (cases q) simp_all

lemma urgent_first_rest:
  "urgent_first pri q \<Longrightarrow> \<forall>x\<in>set (dropWhile (\<lambda>x. pri x = HIGH) q). pri x \<noteq> HIGH"
proof (induction q)
  case (Cons x q)
  show ?case
  proof (cases "pri x = HIGH")
    case True
    with Cons.prems have "urgent_first pri q" by simp
    from Cons.IH [OF this] True show ?thesis by (simp only: dropWhile.simps simp_thms if_True)
  next
    case False
    with Cons.prems show ?thesis by simp
  qed
qed simp

lemma append_priority_high:
  assumes "urgent_first pri q" "pri t = HIGH"
  obtains h l where "q = h @ l" "append_priority pri t q = h @ t # l"
    "\<forall>x\<in>set h. pri x = HIGH" "\<forall>x\<in>set l. pri x \<noteq> HIGH"
proof
  let ?P = "\<lambda>x. pri x = HIGH"
  show "q = takeWhile ?P q @ dropWhile ?P q" by simp
  show "append_priority pri t q = takeWhile ?P q @ t # dropWhile ?P q"
    using assms(2) by (simp add: append_priority_def move_high_takeWhile)
  show "\<forall>x\<in>set (takeWhile ?P q). pri x = HIGH" by (auto dest: set_takeWhileD)
qed (rule urgent_first_rest [OF assms(1)])

lemma append_priority_urgent_first:
  assumes "urgent_first pri q"
  shows "urgent_first pri (append_priority pri t q)"
proof (cases "pri t = HIGH")
  case True
  obtain h l where "append_priority pri t q = h @ t # l"
    "\<forall>x\<in>set h. pri x = HIGH" "\<forall>x\<in>set l. pri x \<noteq> HIGH"
    by (rule append_priority_high [OF assms True]) blast
  with True show ?thesis by (simp add: urgent_first_append urgent_first_no_high)
next
  case False
  with assms show ?thesis by (simp add: append_priority_def urgent_first_append)
qed

lemma append_priority_abs:
  assumes "urgent_first pri q"
  shows "abs_queue pri (append_priority pri t q) = spec_append pri t (abs_queue pri q)"
proof (cases "pri t = HIGH")
  case True
  obtain h l where q: "q = h @ l" "append_priority pri t q = h @ t # l"
    "\<forall>x\<in>set h. pri x = HIGH" "\<forall>x\<in>set l. pri x \<noteq> HIGH"
    by (rule append_priority_high [OF assms True]) blast
  then have "filter (\<lambda>x. pri x = HIGH) l = []" "filter (\<lambda>x. pri x \<noteq> HIGH) h = []"
    by (simp_all add: filter_empty_conv)
  with True show ?thesis by (simp add: q(2) abs_queue_def) (simp add: q(1))
next
  case False
  then show ?thesis by (simp add: append_priority_def abs_queue_def)
qed

lemma queue_pop_abs:
  assumes "urgent_first pri q"
  shows "map_option (apsnd (abs_queue pri)) (queue_pop q) = spec_pop (abs_queue pri q)"
proof (cases q)
  case (Cons x q')
  show ?thesis
  proof (cases "pri x = HIGH")
    case False
    with assms Cons have "filter (\<lambda>x. pri x = HIGH) q' = []" by (simp add: filter_empty_conv)
    with False Cons show ?thesis by (simp add: abs_queue_def)
  qed (simp add: Cons abs_queue_def)
qed (simp add: abs_queue_def)

lemma queue_pop_urgent_first: "urgent_first pri q \<Longrightarrow> queue_pop q = Some (x, q') \<Longrightarrow> urgent_first pri q'"
  by (cases q) (auto simp: urgent_first_no_high split: if_splits)

text \<open>
  C19: The queue refines the two-queue specification: \<open>append_priority\<close> adds an urgent task
  behind the urgent ones and before all others and any other task at the end, the workers'
  pop serves the urgent queue first, and both keep the urgent tasks in front. Tasks of the
  same class never overtake each other.
\<close>

theorem priority_queue_refines:
  assumes "urgent_first pri q"
  shows "abs_queue pri (append_priority pri t q) = spec_append pri t (abs_queue pri q) \<and>
    urgent_first pri (append_priority pri t q) \<and>
    map_option (apsnd (abs_queue pri)) (queue_pop q) = spec_pop (abs_queue pri q) \<and>
    (\<forall>x q'. queue_pop q = Some (x, q') \<longrightarrow> urgent_first pri q')"
  by (intro conjI allI impI append_priority_abs append_priority_urgent_first queue_pop_abs assms
      queue_pop_urgent_first [OF assms])

theorem priority_queue_refines_witness:
  "abs_queue id (append_priority id HIGH [HIGH, LOW]) = ([HIGH, HIGH], [LOW])"
  using priority_queue_refines [of id "[HIGH, LOW]" HIGH] by (simp add: abs_queue_def)

text \<open>
  \<open>NORMAL\<close> and \<open>LOW\<close> are one class: a low-priority task queued first is served before
  a normal one, and among tasks without an urgent one the queue is first in, first out.
\<close>

theorem normal_does_not_overtake_low:
  assumes "\<forall>t\<in>set ts. pri t \<noteq> HIGH"
  shows "fold (append_priority pri) ts q = q @ ts"
  using assms by (induction ts arbitrary: q) (simp_all add: append_priority_def)

theorem normal_does_not_overtake_low_witness:
  "fold (append_priority id) [LOW, NORMAL] [] = [LOW, NORMAL]"
  using normal_does_not_overtake_low [of "[LOW, NORMAL]" id "[]"] by simp

section \<open>The pool as a step relation\<close>

text \<open>
  A worker wants the mutex (at the top of its loop or after a wake-up), evaluates the wait
  predicate under it, has found it false and is about to sleep (still holding it), sleeps
  (having released it), executes a task, or has left its loop.
\<close>

datatype worker = Wants_Lock | Testing | Falling_Asleep | Asleep | Executing nat | Exited

text \<open>How far the thread that stops the pool has come, by \<open>shutdown\<close> or \<open>shutdown_now\<close>.\<close>

datatype stopper =
    Not_Stopping
  | Stop_Stored
  | Joining
  | Shutdown_Done
  | Now_Stored
  | Now_Cleared
  | Now_Joining
  | Now_Done

text \<open>
  \<open>notify_due\<close> counts the \<open>notify_one\<close> calls still to be made by threads that have just
  queued a task. The last five fields record history: the functions called, the tasks taken to
  completion, the tasks dropped by \<open>shutdown_now\<close>, and the tasks queued before and after
  \<open>stop_\<close> was set.
\<close>

record 'f pool =
  objects :: "nat \<Rightarrow> 'f task"
  queue :: "nat list"
  stop :: bool
  holder :: "nat option"
  workers :: "worker list"
  stopper :: stopper
  notify_due :: nat
  called :: "'f list"
  completed :: "nat list"
  dropped :: "nat list"
  early :: "nat list"
  late :: "nat list"

definition ThreadPool_new :: "nat \<Rightarrow> (nat \<Rightarrow> 'f task) \<Rightarrow> 'f pool" where
  "ThreadPool_new threads objs =
     \<lparr>objects = objs, queue = [], stop = False, holder = None,
      workers = replicate threads Wants_Lock, stopper = Not_Stopping, notify_due = 0,
      called = [], completed = [], dropped = [], early = [], late = []\<rparr>"

definition set_worker :: "nat \<Rightarrow> worker \<Rightarrow> 'f pool \<Rightarrow> 'f pool" where
  "set_worker w st s = s\<lparr>workers := (workers s)[w := st]\<rparr>"

text \<open>A wake-up sends a sleeping worker back to the mutex.\<close>

definition wake :: "worker \<Rightarrow> worker" where
  "wake st = (if st = Asleep then Wants_Lock else st)"

definition queued_count :: "'f pool \<Rightarrow> nat" where
  "queued_count s = length (queue s)"

text \<open>
  One step of worker \<open>w\<close>: the body of \<open>worker_loop\<close>. The tasks are those that return: \<open>worker_loop\<close> catches
  nothing, so an exception that leaves \<open>execute\<close> ends the whole process, and a task that never returns keeps its worker.
\<close>

inductive worker_step :: "nat \<Rightarrow> 'f pool \<Rightarrow> 'f pool \<Rightarrow> bool" for w where
  ws_lock: "w < length (workers s) \<Longrightarrow> workers s ! w = Wants_Lock \<Longrightarrow> holder s = None \<Longrightarrow>
    worker_step w s (set_worker w Testing (s\<lparr>holder := Some w\<rparr>))"
| ws_wait: "w < length (workers s) \<Longrightarrow> workers s ! w = Testing \<Longrightarrow> \<not> stop s \<Longrightarrow> queue s = [] \<Longrightarrow>
    worker_step w s (set_worker w Falling_Asleep s)"
| ws_sleep: "w < length (workers s) \<Longrightarrow> workers s ! w = Falling_Asleep \<Longrightarrow>
    worker_step w s (set_worker w Asleep (s\<lparr>holder := None\<rparr>))"
| ws_exit: "w < length (workers s) \<Longrightarrow> workers s ! w = Testing \<Longrightarrow> stop s \<Longrightarrow> queue s = [] \<Longrightarrow>
    worker_step w s (set_worker w Exited (s\<lparr>holder := None\<rparr>))"
| ws_take: "w < length (workers s) \<Longrightarrow> workers s ! w = Testing \<Longrightarrow> queue s = t # q \<Longrightarrow>
    worker_step w s (set_worker w (Executing t) (s\<lparr>holder := None, queue := q\<rparr>))"
| ws_execute: "w < length (workers s) \<Longrightarrow> workers s ! w = Executing t \<Longrightarrow>
    worker_step w s (set_worker w Wants_Lock
      (s\<lparr>called := called s @ task_execute (objects s t), completed := completed s @ [t]\<rparr>))"

text \<open>
  Steps of the other threads: queueing a task (under the mutex) and the notification that
  follows, cancelling a task, and the statements of \<open>shutdown\<close> and \<open>shutdown_now\<close>.
\<close>

inductive client_step :: "'f pool \<Rightarrow> 'f pool \<Rightarrow> bool" where
  cs_append: "holder s = None \<Longrightarrow>
    client_step s (s\<lparr>queue := append_priority (\<lambda>a. tk_priority (objects s a)) t (queue s),
      notify_due := notify_due s + 1, early := early s @ (if stop s then [] else [t]),
      late := late s @ (if stop s then [t] else [])\<rparr>)"
| cs_notify: "0 < notify_due s \<Longrightarrow> w < length (workers s) \<Longrightarrow> workers s ! w = Asleep \<Longrightarrow>
    client_step s (set_worker w Wants_Lock (s\<lparr>notify_due := notify_due s - 1\<rparr>))"
| cs_notify_nobody: "0 < notify_due s \<Longrightarrow> Asleep \<notin> set (workers s) \<Longrightarrow>
    client_step s (s\<lparr>notify_due := notify_due s - 1\<rparr>)"
| cs_cancel: "client_step s (s\<lparr>objects := (objects s)(t := task_cancel (objects s t))\<rparr>)"
| cs_stop: "stopper s = Not_Stopping \<Longrightarrow>
    client_step s (s\<lparr>stop := True, stopper := Stop_Stored\<rparr>)"
| cs_notify_all: "stopper s = Stop_Stored \<Longrightarrow>
    client_step s (s\<lparr>workers := map wake (workers s), stopper := Joining\<rparr>)"
| cs_joined: "stopper s = Joining \<Longrightarrow> set (workers s) \<subseteq> {Exited} \<Longrightarrow>
    client_step s (s\<lparr>stopper := Shutdown_Done\<rparr>)"
| cs_now_stop: "stopper s = Not_Stopping \<Longrightarrow>
    client_step s (s\<lparr>stop := True, stopper := Now_Stored\<rparr>)"
| cs_now_clear: "stopper s = Now_Stored \<Longrightarrow> holder s = None \<Longrightarrow>
    client_step s (s\<lparr>queue := [], dropped := dropped s @ queue s, stopper := Now_Cleared\<rparr>)"
| cs_now_notify_all: "stopper s = Now_Cleared \<Longrightarrow>
    client_step s (s\<lparr>workers := map wake (workers s), stopper := Now_Joining\<rparr>)"
| cs_now_joined: "stopper s = Now_Joining \<Longrightarrow> set (workers s) \<subseteq> {Exited} \<Longrightarrow>
    client_step s (s\<lparr>stopper := Now_Done\<rparr>)"

text \<open>A condition variable may also wake a worker for no reason.\<close>

inductive pool_step :: "'f pool \<Rightarrow> 'f pool \<Rightarrow> bool" where
  ps_worker: "worker_step w s s' \<Longrightarrow> pool_step s s'"
| ps_client: "client_step s s' \<Longrightarrow> pool_step s s'"
| ps_spurious: "w < length (workers s) \<Longrightarrow> workers s ! w = Asleep \<Longrightarrow>
    pool_step s (set_worker w Wants_Lock s)"

inductive pool_reachable :: "nat \<Rightarrow> 'f pool \<Rightarrow> bool" for n where
  pr_new: "pool_reachable n (ThreadPool_new n objs)"
| pr_step: "pool_reachable n s \<Longrightarrow> pool_step s s' \<Longrightarrow> pool_reachable n s'"

inductive_cases worker_stepE: "worker_step w s s'"
inductive_cases client_stepE: "client_step s s'"

lemma set_worker_fields [simp]:
  "workers (set_worker w st s) = (workers s)[w := st]" "holder (set_worker w st s) = holder s"
  "queue (set_worker w st s) = queue s" "stop (set_worker w st s) = stop s"
  "stopper (set_worker w st s) = stopper s" "completed (set_worker w st s) = completed s"
  "dropped (set_worker w st s) = dropped s" "late (set_worker w st s) = late s"
  "early (set_worker w st s) = early s"
  "called (set_worker w st s) = called s" "objects (set_worker w st s) = objects s"
  by (simp_all add: set_worker_def)

section \<open>Invariants\<close>

text \<open>The mutex is held by a worker exactly between its lock and its release.\<close>

definition lock_inv :: "'f pool \<Rightarrow> bool" where
  "lock_inv s \<longleftrightarrow> (\<forall>w < length (workers s).
     workers s ! w \<in> {Testing, Falling_Asleep} \<longleftrightarrow> holder s = Some w) \<and>
     (\<forall>w. holder s = Some w \<longrightarrow> w < length (workers s))"

lemma wake_simps [simp]:
  "wake Wants_Lock = Wants_Lock" "wake Testing = Testing" "wake Falling_Asleep = Falling_Asleep"
  "wake Asleep = Wants_Lock" "wake (Executing t) = Executing t" "wake Exited = Exited"
  by (simp_all add: wake_def)

lemma wake_eq [simp]:
  "wake st = Testing \<longleftrightarrow> st = Testing" "wake st = Falling_Asleep \<longleftrightarrow> st = Falling_Asleep"
  "wake st = Exited \<longleftrightarrow> st = Exited" "wake st \<noteq> Asleep"
  "Exited = wake st \<longleftrightarrow> st = Exited" "Asleep \<noteq> wake st" "Falling_Asleep = wake st \<longleftrightarrow> st = Falling_Asleep"
  by (cases st; simp)+

lemma lock_inv_worker: "worker_step w s s' \<Longrightarrow> lock_inv s \<Longrightarrow> lock_inv s'"
  by (erule worker_stepE) (auto simp: lock_inv_def nth_list_update; metis option.inject)+

lemma lock_inv_client: "client_step s s' \<Longrightarrow> lock_inv s \<Longrightarrow> lock_inv s'"
  by (erule client_stepE) (auto simp: lock_inv_def nth_list_update)

lemma lock_inv_step: "pool_step s s' \<Longrightarrow> lock_inv s \<Longrightarrow> lock_inv s'"
  by (induction rule: pool_step.induct)
    (auto simp: lock_inv_worker lock_inv_client, auto simp: lock_inv_def nth_list_update)

lemma lock_inv_reachable: "pool_reachable n s \<Longrightarrow> lock_inv s"
  by (induction rule: pool_reachable.induct)
    (auto simp: lock_inv_step, simp add: lock_inv_def ThreadPool_new_def)

text \<open>The tasks that workers are executing.\<close>

definition hand :: "worker \<Rightarrow> nat multiset" where
  "hand st = (case st of Executing t \<Rightarrow> {#t#} | _ \<Rightarrow> {#})"

definition hands :: "worker list \<Rightarrow> nat multiset" where
  "hands ws = sum_list (map hand ws)"

lemma hand_simps [simp]:
  "hand Wants_Lock = {#}" "hand Testing = {#}" "hand Falling_Asleep = {#}" "hand Asleep = {#}"
  "hand Exited = {#}" "hand (Executing t) = {#t#}"
  by (simp_all add: hand_def)

lemma hands_update: "w < length ws \<Longrightarrow> hands (ws[w := st]) + hand (ws ! w) = hands ws + hand st"
  unfolding hands_def by (rule sum_list_map_update)

lemma hands_wake [simp]: "hands (map wake ws) = hands ws"
proof -
  have "hand (wake st) = hand st" for st by (cases st) simp_all
  then show ?thesis by (simp add: hands_def comp_def)
qed

lemma hands_exited: "set ws \<subseteq> {Exited} \<Longrightarrow> hands ws = {#}"
  by (induction ws) (auto simp: hands_def)

definition task_inv :: "'f pool \<Rightarrow> bool" where
  "task_inv s \<longleftrightarrow> mset (early s) + mset (late s) =
     mset (queue s) + hands (workers s) + mset (completed s) + mset (dropped s)"

lemma task_inv_worker: "worker_step w s s' \<Longrightarrow> task_inv s \<Longrightarrow> task_inv s'"
proof (erule worker_stepE, goal_cases)
  case (6 t)
  then show ?case using hands_update [of w "workers s" Wants_Lock] by (simp add: task_inv_def)
qed (use hands_update [of w "workers s"] in \<open>fastforce simp: task_inv_def\<close>)+

lemma task_inv_client: "client_step s s' \<Longrightarrow> task_inv s \<Longrightarrow> task_inv s'"
  by (erule client_stepE) (use hands_update [of _ "workers s" Wants_Lock] in \<open>fastforce simp: task_inv_def\<close>)+

lemma task_inv_step: "pool_step s s' \<Longrightarrow> task_inv s \<Longrightarrow> task_inv s'"
proof (induction rule: pool_step.induct)
  case (ps_spurious w s)
  then show ?case using hands_update [of w "workers s" Wants_Lock] by (simp add: task_inv_def)
qed (auto simp: task_inv_worker task_inv_client)

lemma task_inv_reachable: "pool_reachable n s \<Longrightarrow> task_inv s"
proof (induction rule: pool_reachable.induct)
  case (pr_new objs)
  have "hands (replicate n Wants_Lock) = {#}" by (induction n) (auto simp: hands_def)
  then show ?case by (simp add: task_inv_def ThreadPool_new_def)
qed (auto simp: task_inv_step)

text \<open>
  What the stages of stopping imply. After \<open>shutdown_now\<close> has had the mutex once, no worker can
  be about to sleep, and after its notification none sleeps; \<open>shutdown\<close> gives no such guarantee.
\<close>

definition exit_inv :: "'f pool \<Rightarrow> bool" where
  "exit_inv s \<longleftrightarrow> (stop s \<longleftrightarrow> stopper s \<noteq> Not_Stopping) \<and>
     (Exited \<in> set (workers s) \<longrightarrow> stop s \<and> mset (queue s) \<subseteq># mset (late s))"

definition done_inv :: "'f pool \<Rightarrow> bool" where
  "done_inv s \<longleftrightarrow>
     (stopper s \<in> {Not_Stopping, Stop_Stored, Joining, Shutdown_Done} \<longrightarrow> dropped s = []) \<and>
     (stopper s \<in> {Shutdown_Done, Now_Done} \<longrightarrow> set (workers s) \<subseteq> {Exited})"

definition awake_inv :: "'f pool \<Rightarrow> bool" where
  "awake_inv s \<longleftrightarrow>
     (stopper s \<in> {Now_Cleared, Now_Joining, Now_Done} \<longrightarrow> Falling_Asleep \<notin> set (workers s)) \<and>
     (stopper s \<in> {Now_Joining, Now_Done} \<longrightarrow> Asleep \<notin> set (workers s))"

text \<open>What a worker's step leaves alone, and where it can bring the worker.\<close>

lemma worker_step_frame:
  assumes "worker_step w s s'"
  obtains st where "workers s' = (workers s)[w := st]" "w < length (workers s)" "workers s ! w \<noteq> Exited"
    "stop s' = stop s" "stopper s' = stopper s" "late s' = late s" "dropped s' = dropped s"
    "mset (queue s') \<subseteq># mset (queue s)" "st = Exited \<Longrightarrow> stop s \<and> queue s' = []"
    "st = Falling_Asleep \<Longrightarrow> \<not> stop s" "st = Asleep \<Longrightarrow> workers s ! w = Falling_Asleep"
  using assms by (elim worker_stepE) auto

lemma in_set_update: "x \<in> set (ws[w := st]) \<Longrightarrow> x \<noteq> st \<Longrightarrow> x \<in> set ws"
  using set_update_subset_insert by fastforce

lemma exit_inv_worker:
  assumes "worker_step w s s'" "exit_inv s"
  shows "exit_inv s'"
proof -
  obtain st where f: "workers s' = (workers s)[w := st]" "stop s' = stop s" "stopper s' = stopper s"
    "late s' = late s" "mset (queue s') \<subseteq># mset (queue s)" "st = Exited \<Longrightarrow> stop s \<and> queue s' = []"
    using worker_step_frame [OF assms(1)] by metis
  have "stop s' \<and> mset (queue s') \<subseteq># mset (late s')" if "Exited \<in> set (workers s')"
  proof (cases "st = Exited")
    case False
    with that f(1) have "Exited \<in> set (workers s)" using in_set_update [of Exited] by metis
    with assms(2) f show ?thesis using subset_mset.order_trans by (auto simp: exit_inv_def)
  qed (use f in simp)
  with assms(2) f show ?thesis by (simp add: exit_inv_def)
qed

lemma exit_inv_client: "client_step s s' \<Longrightarrow> exit_inv s \<Longrightarrow> exit_inv s'"
proof (erule client_stepE, goal_cases)
  case (2 w)
  then show ?case using in_set_update [of Exited "workers s" w Wants_Lock] by (auto simp: exit_inv_def)
qed (auto simp: exit_inv_def image_iff)

lemma exit_inv_reachable: "pool_reachable n s \<Longrightarrow> exit_inv s"
proof (induction rule: pool_reachable.induct)
  case (pr_step s s')
  from pr_step(2,3) show ?case
  proof cases
    case (ps_spurious w)
    then show ?thesis
      using pr_step(3) in_set_update [of Exited "workers s" w Wants_Lock] by (auto simp: exit_inv_def)
  qed (use exit_inv_worker exit_inv_client in auto)
qed (simp add: exit_inv_def ThreadPool_new_def)

lemma subset_Exited_update:
  "set ws \<subseteq> {Exited} \<Longrightarrow> w < length ws \<Longrightarrow> ws ! w \<noteq> Exited \<Longrightarrow> False"
  using nth_mem by fastforce

lemma done_inv_worker:
  assumes "worker_step w s s'" "done_inv s"
  shows "done_inv s'"
proof -
  obtain st where "workers s' = (workers s)[w := st]" "w < length (workers s)" "workers s ! w \<noteq> Exited"
    "stopper s' = stopper s" "dropped s' = dropped s"
    using worker_step_frame [OF assms(1)] by metis
  with assms(2) subset_Exited_update [of "workers s" w] show ?thesis by (auto simp: done_inv_def)
qed

lemma done_inv_client: "client_step s s' \<Longrightarrow> done_inv s \<Longrightarrow> done_inv s'"
proof (erule client_stepE, goal_cases)
  case (2 w)
  then show ?case using subset_Exited_update [of "workers s" w] by (auto simp: done_inv_def)
qed (auto simp: done_inv_def)

lemma done_inv_reachable: "pool_reachable n s \<Longrightarrow> done_inv s"
proof (induction rule: pool_reachable.induct)
  case (pr_step s s')
  from pr_step(2,3) show ?case
  proof cases
    case (ps_spurious w)
    then show ?thesis
      using pr_step(3) subset_Exited_update [of "workers s" w] by (auto simp: done_inv_def)
  qed (use done_inv_worker done_inv_client in auto)
qed (simp add: done_inv_def ThreadPool_new_def)

lemma awake_inv_worker:
  assumes "worker_step w s s'" "exit_inv s" "awake_inv s"
  shows "awake_inv s'"
proof -
  obtain st where f: "workers s' = (workers s)[w := st]" "w < length (workers s)"
    "stopper s' = stopper s" "st = Falling_Asleep \<Longrightarrow> \<not> stop s"
    "st = Asleep \<Longrightarrow> workers s ! w = Falling_Asleep"
    using worker_step_frame [OF assms(1)] by metis
  have "Falling_Asleep \<in> set (workers s') \<Longrightarrow> Falling_Asleep \<in> set (workers s) \<or> \<not> stop s"
    "Asleep \<in> set (workers s') \<Longrightarrow> Asleep \<in> set (workers s) \<or> Falling_Asleep \<in> set (workers s)"
    using f in_set_update [of _ "workers s" w st] nth_mem [OF f(2)] by metis+
  with assms(2,3) f(3) show ?thesis by (auto simp: awake_inv_def exit_inv_def)
qed

lemma no_falling_asleep: "lock_inv s \<Longrightarrow> holder s = None \<Longrightarrow> Falling_Asleep \<notin> set (workers s)"
  by (auto simp: lock_inv_def in_set_conv_nth)

lemma awake_inv_client: "client_step s s' \<Longrightarrow> lock_inv s \<Longrightarrow> awake_inv s \<Longrightarrow> awake_inv s'"
proof (erule client_stepE, goal_cases)
  case (2 w)
  then show ?case
    using in_set_update [of _ "workers s" w Wants_Lock] by (auto simp: awake_inv_def)
next
  case 10
  then have "Asleep \<notin> set (map wake (workers s))" by auto
  with 10 show ?case by (auto simp: awake_inv_def image_iff)
next
  case 6
  then show ?case by (auto simp: awake_inv_def)
qed (auto simp: awake_inv_def no_falling_asleep)

lemma awake_inv_reachable: "pool_reachable n s \<Longrightarrow> awake_inv s"
proof (induction rule: pool_reachable.induct)
  case (pr_step s s')
  note inv = lock_inv_reachable [OF pr_step(1)] exit_inv_reachable [OF pr_step(1)] pr_step(3)
  from pr_step(2) show ?case
  proof cases
    case (ps_spurious w)
    then show ?thesis
      using pr_step(3) in_set_update [of _ "workers s" w Wants_Lock] by (auto simp: awake_inv_def)
  qed (use inv awake_inv_worker awake_inv_client in blast)+
qed (simp add: awake_inv_def ThreadPool_new_def)

section \<open>Progress of a stopped pool\<close>

fun weight :: "worker \<Rightarrow> nat" where
  "weight Falling_Asleep = 5"
| "weight Asleep = 4"
| "weight (Executing t) = 4"
| "weight Wants_Lock = 3"
| "weight Testing = 2"
| "weight Exited = 0"

fun stage :: "stopper \<Rightarrow> nat" where
  "stage Now_Stored = 3"
| "stage Now_Cleared = 2"
| "stage Now_Joining = 1"
| "stage _ = 0"

definition work_left :: "'f pool \<Rightarrow> nat" where
  "work_left s = sum_list (map weight (workers s)) + 3 * length (queue s) + notify_due s + stage (stopper s)"

text \<open>
  The steps of a pool that is being stopped and gets no more work: those of the workers, spurious wake-ups, the
  notifications that are due, and the statements of the stopping thread. No task is queued or cancelled.
\<close>

inductive closing_step :: "'f pool \<Rightarrow> 'f pool \<Rightarrow> bool" where
  cg_worker: "worker_step w s s' \<Longrightarrow> closing_step s s'"
| cg_spurious: "w < length (workers s) \<Longrightarrow> workers s ! w = Asleep \<Longrightarrow> closing_step s (set_worker w Wants_Lock s)"
| cg_notify: "client_step s s' \<Longrightarrow> notify_due s' < notify_due s \<Longrightarrow> closing_step s s'"
| cg_stopper: "client_step s s' \<Longrightarrow> stopper s' \<noteq> stopper s \<Longrightarrow> closing_step s s'"

lemma closing_pool_step: "closing_step s s' \<Longrightarrow> pool_step s s'"
  by (induction rule: closing_step.induct) (blast intro: ps_worker ps_client ps_spurious)+

definition stopped_awake :: "'f pool \<Rightarrow> bool" where
  "stopped_awake s \<longleftrightarrow> lock_inv s \<and> stop s \<and> Falling_Asleep \<notin> set (workers s) \<and> Asleep \<notin> set (workers s)"

lemma work_left_worker:
  assumes "worker_step w s s'" "stop s"
  shows "work_left s' < work_left s"
  using assms(1)
proof (rule worker_stepE, goal_cases)
  case 1
  then show ?case using sum_list_map_update [of w "workers s" weight Testing] by (simp add: work_left_def set_worker_def)
next
  case 3
  then show ?case using sum_list_map_update [of w "workers s" weight Asleep] by (simp add: work_left_def set_worker_def)
next
  case 4
  then show ?case using sum_list_map_update [of w "workers s" weight Exited] by (simp add: work_left_def set_worker_def)
next
  case (5 t q)
  then show ?case using sum_list_map_update [of w "workers s" weight "Executing t"] by (simp add: work_left_def set_worker_def)
next
  case (6 t)
  then show ?case using sum_list_map_update [of w "workers s" weight Wants_Lock] by (simp add: work_left_def set_worker_def)
qed (use assms(2) in simp)

lemma weight_wake: "weight (wake st) \<le> weight st"
  by (cases st) simp_all

lemma weight_wake_all: "sum_list (map weight (map wake ws)) \<le> sum_list (map weight ws)"
  unfolding map_map comp_def by (rule sum_list_mono) (rule weight_wake)

text \<open>The stages of \<open>shutdown_now\<close>.\<close>

abbreviation now_stages :: "stopper set" where
  "now_stages \<equiv> {Now_Stored, Now_Cleared, Now_Joining, Now_Done}"

lemma closing_decreases:
  assumes "closing_step s s'" "stop s" "stopper s \<in> now_stages"
  shows "work_left s' < work_left s \<and> stopper s' \<in> now_stages"
  using assms(1)
proof (cases rule: closing_step.cases)
  case (cg_worker w)
  then show ?thesis using work_left_worker [OF cg_worker assms(2)] assms(3)
    by (auto elim!: worker_stepE)
next
  case (cg_spurious w)
  then show ?thesis using sum_list_map_update [of w "workers s" weight Wants_Lock] assms(3)
    by (simp add: work_left_def set_worker_def)
next
  case cg_notify
  from cg_notify(1) show ?thesis
  proof (rule client_stepE, goal_cases)
    case (2 w)
    then show ?case using sum_list_map_update [of w "workers s" weight Wants_Lock] assms(3)
      by (simp add: work_left_def set_worker_def)
  qed (use cg_notify(2) assms(3) in \<open>simp_all add: work_left_def\<close>)
next
  case cg_stopper
  from cg_stopper(1) show ?thesis
  proof (rule client_stepE, goal_cases)
    case 10
    then show ?case using weight_wake_all [of "workers s"] by (simp add: work_left_def)
  qed (use cg_stopper(2) assms(3) in \<open>simp_all add: work_left_def set_worker_def\<close>)
qed

lemma stopped_awake_progress:
  assumes "stopped_awake s" "\<not> set (workers s) \<subseteq> {Exited}"
  shows "\<exists>w s'. worker_step w s s'"
proof -
  have test: "\<exists>s'. worker_step w s s'" if "w < length (workers s)" "workers s ! w = Testing" for w
  proof (cases "queue s")
    case Nil
    with that assms(1) show ?thesis by (meson ws_exit stopped_awake_def)
  next
    case (Cons t q)
    with that show ?thesis by (meson ws_take)
  qed
  from assms(2) obtain w where w: "w < length (workers s)" "workers s ! w \<noteq> Exited"
    by (metis in_set_conv_nth singletonI subsetI)
  moreover have "workers s ! w \<noteq> Falling_Asleep" "workers s ! w \<noteq> Asleep"
    using assms(1) nth_mem [OF w(1)] by (auto simp: stopped_awake_def)
  ultimately consider "workers s ! w = Wants_Lock" | "workers s ! w = Testing" | t where "workers s ! w = Executing t"
    by (cases "workers s ! w") auto
  then show ?thesis
  proof cases
    case 1
    show ?thesis
    proof (cases "holder s")
      case None
      with 1 w show ?thesis by (meson ws_lock)
    next
      case (Some v)
      with assms(1) have v: "v < length (workers s)" "workers s ! v \<in> {Testing, Falling_Asleep}"
        by (auto simp: stopped_awake_def lock_inv_def)
      then have "workers s ! v = Testing"
        using assms(1) nth_mem [OF v(1)] by (metis insertE singletonD stopped_awake_def)
      with v test show ?thesis by blast
    qed
  qed (use w test ws_execute in blast)+
qed

lemma closing_progress:
  assumes "pool_reachable n s" "stopper s \<in> {Now_Stored, Now_Cleared, Now_Joining}"
  shows "\<exists>s'. closing_step s s'"
proof -
  have stop: "stop s" using exit_inv_reachable [OF assms(1)] assms(2) by (auto simp: exit_inv_def)
  consider "stopper s = Now_Stored" | "stopper s = Now_Cleared" | "stopper s = Now_Joining" using assms(2) by blast
  then show ?thesis
  proof cases
    case 1
    show ?thesis
    proof (cases "holder s")
      case None
      show ?thesis by (rule exI, rule cg_stopper, rule cs_now_clear) (use 1 None in simp_all)
    next
      case (Some v)
      then have v: "v < length (workers s)" "workers s ! v \<in> {Testing, Falling_Asleep}"
        using lock_inv_reachable [OF assms(1)] by (auto simp: lock_inv_def)
      then show ?thesis using stop by (cases "queue s") (blast intro: cg_worker ws_sleep ws_exit ws_take)+
    qed
  next
    case 2
    show ?thesis by (rule exI, rule cg_stopper, rule cs_now_notify_all) (use 2 in simp_all)
  next
    case 3
    show ?thesis
    proof (cases "set (workers s) \<subseteq> {Exited}")
      case True
      show ?thesis by (rule exI, rule cg_stopper, rule cs_now_joined) (use 3 True in simp_all)
    next
      case False
      have "stopped_awake s"
        using awake_inv_reachable [OF assms(1)] lock_inv_reachable [OF assms(1)] stop 3
        by (simp add: stopped_awake_def awake_inv_def)
      with False show ?thesis using stopped_awake_progress cg_worker by blast
    qed
  qed
qed

text \<open>A task that a worker has taken is completed, never abandoned.\<close>

lemma closing_keeps_hands:
  assumes "closing_step s s'"
  shows "mset (completed s) + hands (workers s) \<subseteq># mset (completed s') + hands (workers s')"
  using assms
proof (cases rule: closing_step.cases)
  case (cg_worker w)
  then show ?thesis
  proof (rule worker_stepE, goal_cases)
    case (5 t q)
    then show ?case using hands_update [of w "workers s" "Executing t"] by simp
  next
    case (6 t)
    then show ?case using hands_update [of w "workers s" Wants_Lock] by simp
  qed (use hands_update [of w "workers s"] in fastforce)+
next
  case (cg_spurious w)
  then show ?thesis using hands_update [of w "workers s" Wants_Lock] by simp
next
  case cg_notify
  from cg_notify(1) show ?thesis
    by (rule client_stepE) (use hands_update [of _ "workers s" Wants_Lock] in fastforce)+
next
  case cg_stopper
  from cg_stopper(1) show ?thesis
    by (rule client_stepE) (use hands_update [of _ "workers s" Wants_Lock] in fastforce)+
qed

lemma closing_run:
  assumes "(closing_step ^^ k) s s'" "pool_reachable n s" "stopper s \<in> now_stages"
  shows "pool_reachable n s' \<and> stopper s' \<in> now_stages \<and> work_left s' + k \<le> work_left s \<and>
    mset (completed s) + hands (workers s) \<subseteq># mset (completed s') + hands (workers s')"
  using assms(1)
proof (induction k arbitrary: s')
  case (Suc k)
  then obtain t where t: "(closing_step ^^ k) s t" "closing_step t s'" by auto
  from Suc.IH [OF t(1)] have IH: "pool_reachable n t" "stopper t \<in> now_stages" "work_left t + k \<le> work_left s"
    "mset (completed s) + hands (workers s) \<subseteq># mset (completed t) + hands (workers t)" by blast+
  have "stop t" using exit_inv_reachable [OF IH(1)] IH(2) by (auto simp: exit_inv_def)
  with closing_decreases [OF t(2)] IH(2,3) have "work_left s' + Suc k \<le> work_left s" "stopper s' \<in> now_stages" by fastforce+
  moreover have "pool_reachable n s'" by (rule pr_step [OF IH(1) closing_pool_step [OF t(2)]])
  moreover have "mset (completed s) + hands (workers s) \<subseteq># mset (completed s') + hands (workers s')"
    using IH(4) closing_keeps_hands [OF t(2)] by (rule subset_mset.order_trans)
  ultimately show ?case by blast
qed (use assms in simp)

lemma closing_finishes:
  "pool_reachable n s \<Longrightarrow> stopper s \<in> now_stages \<Longrightarrow> \<exists>s'. closing_step\<^sup>*\<^sup>* s s' \<and> stopper s' = Now_Done"
proof (induction "work_left s" arbitrary: s rule: less_induct)
  case less
  show ?case
  proof (cases "stopper s = Now_Done")
    case False
    then obtain t where t: "closing_step s t" using closing_progress less.prems by blast
    then have "(closing_step ^^ 1) s t" by (metis relpowp_1)
    from closing_run [OF this less.prems] have "pool_reachable n t" "stopper t \<in> now_stages" "work_left t < work_left s" by auto
    with less.hyps obtain s' where "closing_step\<^sup>*\<^sup>* t s'" "stopper s' = Now_Done" by blast
    with t show ?thesis by (meson converse_rtranclp_into_rtranclp)
  qed blast
qed

section \<open>Concrete runs\<close>

text \<open>A pool of one worker and no task, and the runs in which it is stopped.\<close>

definition lone_pool :: "nat pool" where
  "lone_pool = ThreadPool_new 1 (\<lambda>_. Task_new None NORMAL)"

definition lone_testing :: "nat pool" where
  "lone_testing = set_worker 0 Testing (lone_pool\<lparr>holder := Some 0\<rparr>)"

lemmas lone_defs = lone_pool_def lone_testing_def ThreadPool_new_def

lemma lone_testing_reachable: "pool_reachable 1 lone_testing"
  unfolding lone_testing_def lone_pool_def
  by (rule pr_step [OF pr_new ps_worker [OF ws_lock]]) (simp_all add: ThreadPool_new_def)

text \<open>The stop flag is set and everybody notified while the worker is falling asleep.\<close>

definition lone_hung :: "nat pool" where
  "lone_hung = set_worker 0 Asleep
     (lone_testing\<lparr>stop := True, stopper := Joining, workers := [Falling_Asleep], holder := None\<rparr>)"

lemma lone_hung_reachable: "pool_reachable 1 lone_hung"
proof -
  let ?s1 = "set_worker 0 Falling_Asleep lone_testing"
  have "pool_reachable 1 ?s1"
    by (rule pr_step [OF lone_testing_reachable ps_worker [OF ws_wait]]) (simp_all add: lone_defs)
  then have "pool_reachable 1 (?s1\<lparr>stop := True, stopper := Stop_Stored\<rparr>)"
    by (rule pr_step [OF _ ps_client [OF cs_stop]]) (simp add: lone_defs)
  then have "pool_reachable 1 (?s1\<lparr>stop := True, stopper := Stop_Stored\<rparr>
      \<lparr>workers := map wake (workers (?s1\<lparr>stop := True, stopper := Stop_Stored\<rparr>)), stopper := Joining\<rparr>)"
    by (rule pr_step [OF _ ps_client [OF cs_notify_all]]) simp
  then have "pool_reachable 1 (lone_testing\<lparr>stop := True, stopper := Joining, workers := [Falling_Asleep]\<rparr>)"
    by (simp add: lone_defs set_worker_def)
  then have "pool_reachable 1 (set_worker 0 Asleep
      (lone_testing\<lparr>stop := True, stopper := Joining, workers := [Falling_Asleep]\<rparr>\<lparr>holder := None\<rparr>))"
    by (rule pr_step [OF _ ps_worker [OF ws_sleep]]) simp_all
  then show ?thesis by (simp add: lone_hung_def)
qed

definition lone_done :: "nat pool" where
  "lone_done = lone_pool\<lparr>stop := True, stopper := Shutdown_Done, workers := [Exited]\<rparr>"

lemma lone_done_reachable: "pool_reachable 1 lone_done"
proof -
  let ?s1 = "lone_testing\<lparr>stop := True, stopper := Stop_Stored\<rparr>"
  let ?s2 = "?s1\<lparr>workers := map wake (workers ?s1), stopper := Joining\<rparr>"
  let ?s3 = "set_worker 0 Exited (?s2\<lparr>holder := None\<rparr>)"
  have "pool_reachable 1 ?s1"
    by (rule pr_step [OF lone_testing_reachable ps_client [OF cs_stop]]) (simp add: lone_defs)
  then have "pool_reachable 1 ?s2" by (rule pr_step [OF _ ps_client [OF cs_notify_all]]) simp
  then have "pool_reachable 1 ?s3"
    by (rule pr_step [OF _ ps_worker [OF ws_exit]]) (simp_all add: lone_defs)
  then have "pool_reachable 1 (?s3\<lparr>stopper := Shutdown_Done\<rparr>)"
    by (rule pr_step [OF _ ps_client [OF cs_joined]]) (simp_all add: lone_defs)
  then show ?thesis by (simp add: lone_done_def lone_defs set_worker_def)
qed

definition lone_now :: "nat pool" where
  "lone_now = lone_pool\<lparr>stop := True, stopper := Now_Joining\<rparr>"

lemma lone_now_reachable: "pool_reachable 1 lone_now"
proof -
  let ?s1 = "lone_pool\<lparr>stop := True, stopper := Now_Stored\<rparr>"
  let ?s2 = "?s1\<lparr>queue := [], dropped := dropped ?s1 @ queue ?s1, stopper := Now_Cleared\<rparr>"
  have "pool_reachable 1 lone_pool" unfolding lone_pool_def by (rule pr_new)
  then have "pool_reachable 1 ?s1"
    by (rule pr_step [OF _ ps_client [OF cs_now_stop]]) (simp add: lone_defs)
  then have "pool_reachable 1 ?s2"
    by (rule pr_step [OF _ ps_client [OF cs_now_clear]]) (simp_all add: lone_defs)
  then have "pool_reachable 1 (?s2\<lparr>workers := map wake (workers ?s2), stopper := Now_Joining\<rparr>)"
    by (rule pr_step [OF _ ps_client [OF cs_now_notify_all]]) simp
  then show ?thesis by (simp add: lone_now_def lone_defs)
qed

text \<open>Two tasks were queued; the worker executes the first.\<close>

definition lone_serving :: "nat pool" where
  "lone_serving = lone_pool\<lparr>queue := [6], workers := [Executing 5], notify_due := 2, early := [5, 6]\<rparr>"

lemma lone_serving_reachable: "pool_reachable 1 lone_serving"
proof -
  let ?s1 = "lone_pool\<lparr>queue := [5], notify_due := 1, early := [5]\<rparr>"
  let ?s2 = "lone_pool\<lparr>queue := [5, 6], notify_due := 2, early := [5, 6]\<rparr>"
  let ?s3 = "?s2\<lparr>holder := Some 0, workers := [Testing]\<rparr>"
  note d = lone_serving_def lone_defs Task_new_def append_priority_def set_worker_def
  have 0: "pool_reachable 1 lone_pool" unfolding lone_pool_def by (rule pr_new)
  have 1: "pool_step lone_pool ?s1" using ps_client [OF cs_append [of lone_pool 5]] by (simp add: d)
  have 2: "pool_step ?s1 ?s2" using ps_client [OF cs_append [of ?s1 6]] by (simp add: d numeral_2_eq_2)
  have 3: "pool_step ?s2 ?s3" using ps_worker [OF ws_lock [of 0 ?s2]] by (simp add: d)
  have 4: "pool_step ?s3 lone_serving" using ps_worker [OF ws_take [of 0 ?s3]] by (simp add: d)
  show ?thesis by (rule pr_step [OF pr_step [OF pr_step [OF pr_step [OF 0 1] 2] 3] 4])
qed

section \<open>Properties of the pool\<close>

text \<open>
  C18: No task is lost or duplicated: in every reachable state, the tasks ever queued are
  exactly those waiting in the queue, those in the hands of a worker, those completed and
  those dropped by \<open>shutdown_now\<close>.
\<close>

theorem pool_conserves_tasks:
  assumes "pool_reachable n s"
  shows "mset (early s) + mset (late s) =
    mset (queue s) + hands (workers s) + mset (completed s) + mset (dropped s)"
  using task_inv_reachable [OF assms] by (simp add: task_inv_def)

theorem pool_conserves_tasks_witness:
  "queue lone_serving = [6] \<and> hands (workers lone_serving) = {#5#} \<and> mset (early lone_serving) + mset (late lone_serving) = {#5, 6#}"
  using pool_conserves_tasks [OF lone_serving_reachable]
  by (simp add: lone_serving_def lone_pool_def ThreadPool_new_def hands_def add_mset_commute)

text \<open>
  When \<open>shutdown\<close> of a pool with at least one thread returns, every task queued before it
  set the stop flag has been completed.
\<close>

theorem shutdown_completes_queue:
  assumes "pool_reachable n s" "stopper s = Shutdown_Done" "workers s \<noteq> []"
  shows "mset (early s) \<subseteq># mset (completed s)"
proof -
  have all: "set (workers s) \<subseteq> {Exited}" and d: "dropped s = []"
    using done_inv_reachable [OF assms(1)] assms(2) by (simp_all add: done_inv_def)
  then have "Exited \<in> set (workers s)" using assms(3) by (cases "workers s") auto
  then have "mset (queue s) \<subseteq># mset (late s)"
    using exit_inv_reachable [OF assms(1)] by (simp add: exit_inv_def)
  then obtain r where r: "mset (late s) = mset (queue s) + r" by (metis subset_mset.le_iff_add)
  have "mset (early s) + mset (late s) = mset (queue s) + mset (completed s)"
    using task_inv_reachable [OF assms(1)] d hands_exited [OF all] by (simp add: task_inv_def)
  then have "mset (queue s) + (mset (early s) + r) = mset (queue s) + mset (completed s)"
    by (simp only: r ac_simps)
  then have "mset (early s) + r = mset (completed s)" by simp
  then show ?thesis by (metis mset_subset_eq_add_left)
qed

theorem shutdown_completes_queue_witness: "mset (early lone_done) \<subseteq># mset (completed lone_done)"
  by (rule shutdown_completes_queue [OF lone_done_reachable]) (simp_all add: lone_done_def)

text \<open>
  C20: \<open>shutdown_now\<close> returns when no further task is queued. From every reachable state in which it has set the stop flag,
  and for every interleaving of its statements with the workers, the notifications that are due and spurious wake-ups,
  only boundedly many steps are possible, another one is always possible until \<open>shutdown_now\<close> has returned, and it can return; when it
  has, every worker has left its loop and every task that was running has been completed: it waits for them.
\<close>

theorem shutdown_now_terminates:
  assumes "pool_reachable n s" "stopper s \<in> {Now_Stored, Now_Cleared, Now_Joining}"
  shows "(\<exists>s'. closing_step\<^sup>*\<^sup>* s s' \<and> stopper s' = Now_Done) \<and>
    (\<forall>k s'. (closing_step ^^ k) s s' \<longrightarrow> k \<le> work_left s \<and>
      (stopper s' \<noteq> Now_Done \<longrightarrow> (\<exists>s''. closing_step s' s'')) \<and>
      (stopper s' = Now_Done \<longrightarrow> set (workers s') \<subseteq> {Exited} \<and> hands (workers s) \<subseteq># mset (completed s')))"
proof -
  have st: "stopper s \<in> now_stages" using assms(2) by blast
  show ?thesis
  proof (intro conjI allI impI closing_finishes [OF assms(1) st])
    fix k s' assume "(closing_step ^^ k) s s'"
    from closing_run [OF this assms(1) st] have r: "pool_reachable n s'" "stopper s' \<in> now_stages" "k \<le> work_left s"
      "mset (completed s) + hands (workers s) \<subseteq># mset (completed s') + hands (workers s')" by auto
    show "k \<le> work_left s" by (rule r(3))
    show "\<exists>s''. closing_step s' s''" if "stopper s' \<noteq> Now_Done"
      using closing_progress [OF r(1)] r(2) that by blast
    assume "stopper s' = Now_Done"
    then show all: "set (workers s') \<subseteq> {Exited}" using done_inv_reachable [OF r(1)] by (simp add: done_inv_def)
    have "hands (workers s) \<subseteq># mset (completed s) + hands (workers s)" by simp
    also have "\<dots> \<subseteq># mset (completed s')" using r(4) hands_exited [OF all] by simp
    finally show "hands (workers s) \<subseteq># mset (completed s')" .
  qed
qed

theorem shutdown_now_terminates_witness:
  "\<exists>s'. closing_step\<^sup>*\<^sup>* lone_now s' \<and> stopper s' = Now_Done"
  using shutdown_now_terminates [OF lone_now_reachable] by (simp add: lone_now_def)

text \<open>
  C21: \<open>shutdown\<close> can hang: it sets the stop flag without the mutex, so the flag and the
  notification can both fall between a worker's test of the wait predicate and its sleep. From
  the state reached then, the stopping thread waits for a worker that sleeps, through every sequence of steps of the workers and
  of the other threads in which no task is queued. Only a task queued after \<open>shutdown\<close> began, or a spurious wake-up, ends the wait.
\<close>

definition quiet_step :: "'f pool \<Rightarrow> 'f pool \<Rightarrow> bool" where
  "quiet_step s s' \<longleftrightarrow> ((\<exists>w. worker_step w s s') \<or> client_step s s') \<and> early s' = early s \<and> late s' = late s"

lemma quiet_step_hung:
  assumes "quiet_step s s'" "workers s = [Asleep]" "stopper s = Joining" "notify_due s = 0"
  shows "workers s' = [Asleep] \<and> stopper s' = Joining \<and> notify_due s' = 0"
proof -
  have "\<not> worker_step w s s'" for w using assms(2) by (auto elim!: worker_stepE)
  with assms(1) have "client_step s s'" "early s' = early s" "late s' = late s" by (auto simp: quiet_step_def)
  then show ?thesis using assms(2-4) by (elim client_stepE) (auto split: if_splits)
qed

theorem shutdown_can_hang:
  "\<exists>s :: nat pool. pool_reachable 1 s \<and> stopper s = Joining \<and> workers s = [Asleep] \<and>
    queue s = [] \<and> notify_due s = 0 \<and>
    (\<forall>s'. quiet_step\<^sup>*\<^sup>* s s' \<longrightarrow> stopper s' = Joining \<and> workers s' = [Asleep] \<and> (\<forall>w s''. \<not> worker_step w s' s''))"
proof (intro exI conjI allI impI)
  show ws: "workers lone_hung = [Asleep]" "stopper lone_hung = Joining" "notify_due lone_hung = 0"
    by (simp_all add: lone_hung_def lone_defs set_worker_def)
  show "queue lone_hung = []" by (simp add: lone_hung_def lone_defs)
  fix s' assume "quiet_step\<^sup>*\<^sup>* lone_hung s'"
  then have s': "workers s' = [Asleep] \<and> stopper s' = Joining \<and> notify_due s' = 0"
    by (induction rule: rtranclp_induct) (use ws quiet_step_hung in blast)+
  then show "stopper s' = Joining" "workers s' = [Asleep]" by simp_all
  show "\<not> worker_step w s' s''" for w s'' using s' by (auto elim!: worker_stepE)
qed (rule lone_hung_reachable)

theorem shutdown_can_hang_witness:
  "\<exists>s :: nat pool. pool_reachable 1 s \<and> stopper s = Joining \<and> \<not> (\<exists>s'. quiet_step\<^sup>*\<^sup>* s s' \<and> stopper s' = Shutdown_Done)"
proof -
  obtain s :: "nat pool" where "pool_reachable 1 s" "stopper s = Joining" "\<forall>s'. quiet_step\<^sup>*\<^sup>* s s' \<longrightarrow> stopper s' = Joining"
    using shutdown_can_hang by blast
  then show ?thesis by (intro exI [of _ s]) auto
qed

end
