(* ===== verification/Pool_Futures.thy ===== *)
theory Pool_Futures
  imports Thread_Pool
begin

text \<open>
  The template \<open>ThreadPool::append\<close> (\<open>src/core/threadpool/thread_pool.h\<close>) as the code means it: it
  wraps the function into a \<open>std::packaged_task\<close>, queues a task that runs it, notifies a worker and
  returns the future. (As written, the lambda that it gives to the queue is not a \<open>TaskPtr\<close> and no
  instantiation compiles.) The future of a task becomes ready when the task runs, and broken
  when the packaged function is destroyed without having run.
\<close>

section \<open>Queueing\<close>

text \<open>The task is queued at the back and has the default priority.\<close>

definition pool_append :: "nat \<Rightarrow> 'f \<Rightarrow> 'f pool \<Rightarrow> 'f pool" where
  "pool_append t f s =
     s\<lparr>objects := (objects s)(t := Task_new (Some f) NORMAL), queue := queue s @ [t],
       notify_due := notify_due s + 1, early := early s @ (if stop s then [] else [t]),
       late := late s @ (if stop s then [t] else [])\<rparr>"

text \<open>
  \<open>append\<close> does to the queue what \<open>append_priority\<close> does with a task of the default priority, so its
  calls are steps of the pool once the task object is at its address.
\<close>

lemma pool_append_step:
  assumes "holder s = None" "objects s t = Task_new (Some f) NORMAL"
  shows "client_step s (pool_append t f s)"
proof -
  have "append_priority (\<lambda>a. tk_priority (objects s a)) t (queue s) = queue s @ [t]"
    using assms(2) by (simp add: append_priority_def Task_new_def)
  moreover have "(objects s)(t := Task_new (Some f) NORMAL) = objects s"
    using assms(2) by (metis fun_upd_triv)
  ultimately have "pool_append t f s = s\<lparr>queue := append_priority (\<lambda>a. tk_priority (objects s a)) t (queue s),
      notify_due := notify_due s + 1, early := early s @ (if stop s then [] else [t]),
      late := late s @ (if stop s then [t] else [])\<rparr>"
    by (simp add: pool_append_def)
  with cs_append [OF assms(1)] show ?thesis by metis
qed

section \<open>Futures\<close>

text \<open>
  The shared states of the packaged tasks, by the address of the task that holds them, with the function packaged: not
  yet run; run (with its result, or with the exception that the function threw, which the
  packaged task stores); or abandoned, when the packaged task was destroyed without having run.
\<close>

datatype future = Pending | Is_Ready | Broken

type_synonym 'f promises = "nat \<Rightarrow> ('f \<times> future) option"

text \<open>Running the packaged task and destroying those that were in the queue.\<close>

definition set_future :: "nat \<Rightarrow> future \<Rightarrow> 'f promises \<Rightarrow> 'f promises" where
  "set_future t st pr = (case pr t of Some (f, Pending) \<Rightarrow> pr(t \<mapsto> (f, st)) | _ \<Rightarrow> pr)"

definition break_futures :: "nat list \<Rightarrow> 'f promises \<Rightarrow> 'f promises" where
  "break_futures ts pr = fold (\<lambda>t. set_future t Broken) ts pr"

text \<open>
  The pool with its futures. \<open>append\<close> uses the address of a new task object; a worker that executes a task runs its packaged
  function, unless the task is cancelled, and destroys it then; \<open>shutdown_now\<close> destroys the tasks it takes out of the queue. Only the queue points
  to the tasks of \<open>append\<close>, so the other steps of the clients neither queue them again nor cancel them.
\<close>

inductive fut_step :: "'f pool \<times> 'f promises \<Rightarrow> 'f pool \<times> 'f promises \<Rightarrow> bool" where
  fs_append: "holder s = None \<Longrightarrow> t \<notin> set (early s @ late s) \<Longrightarrow> pr t = None \<Longrightarrow> objects s t = Task_new (Some f) NORMAL \<Longrightarrow>
    fut_step (s, pr) (pool_append t f s, pr(t \<mapsto> (f, Pending)))"
| fs_execute: "worker_step w s s' \<Longrightarrow> workers s ! w = Executing t \<Longrightarrow>
    fut_step (s, pr) (s', set_future t (if is_cancelled (objects s t) then Broken else Is_Ready) pr)"
| fs_worker: "worker_step w s s' \<Longrightarrow> (\<And>t. workers s ! w \<noteq> Executing t) \<Longrightarrow> fut_step (s, pr) (s', pr)"
| fs_clear: "client_step s s' \<Longrightarrow> stopper s = Now_Stored \<Longrightarrow> stopper s' = Now_Cleared \<Longrightarrow>
    fut_step (s, pr) (s', break_futures (queue s) pr)"
| fs_client: "client_step s s' \<Longrightarrow> stopper s' = stopper s \<or> stopper s \<noteq> Now_Stored \<Longrightarrow>
    (\<And>t. t \<in> dom pr \<Longrightarrow> objects s' t = objects s t \<and>
      count (mset (early s') + mset (late s')) t = count (mset (early s) + mset (late s)) t) \<Longrightarrow>
    fut_step (s, pr) (s', pr)"
| fs_spurious: "w < length (workers s) \<Longrightarrow> workers s ! w = Asleep \<Longrightarrow> fut_step (s, pr) (set_worker w Wants_Lock s, pr)"

inductive fut_reach :: "nat \<Rightarrow> 'f pool \<times> 'f promises \<Rightarrow> bool" for n where
  fr_new: "fut_reach n (ThreadPool_new n objs, Map.empty)"
| fr_step: "fut_reach n x \<Longrightarrow> fut_step x y \<Longrightarrow> fut_reach n y"

lemma fut_pool_step: "fut_step x y \<Longrightarrow> pool_step (fst x) (fst y)"
  by (induction rule: fut_step.induct) (auto intro: ps_worker ps_client ps_spurious pool_append_step)

lemma fut_pool_reachable: "fut_reach n x \<Longrightarrow> pool_reachable n (fst x)"
  by (induction rule: fut_reach.induct) (auto intro: pr_new pr_step fut_pool_step)

text \<open>
  The task of a future is queued once, is the one \<open>append\<close> made, and is where the state of the future says: waiting or in the
  hands of a worker, completed, or dropped.
\<close>

definition place :: "future \<Rightarrow> 'f pool \<Rightarrow> nat multiset" where
  "place st s = (case st of Pending \<Rightarrow> mset (queue s) + hands (workers s) | Is_Ready \<Rightarrow> mset (completed s) | Broken \<Rightarrow> mset (dropped s))"

definition fut_inv :: "'f pool \<Rightarrow> 'f promises \<Rightarrow> bool" where
  "fut_inv s pr \<longleftrightarrow> (\<forall>t f st. pr t = Some (f, st) \<longrightarrow> count (mset (early s) + mset (late s)) t = 1 \<and>
     objects s t = Task_new (Some f) NORMAL \<and> t \<in># place st s)"

lemma break_futures_eq:
  "break_futures ts pr t = (if t \<in> set ts then set_future t Broken pr t else pr t)"
proof (induction ts arbitrary: pr)
  case (Cons u ts)
  have "break_futures (u # ts) pr = break_futures ts (set_future u Broken pr)" by (simp add: break_futures_def)
  then show ?case using Cons [of "set_future u Broken pr"]
    by (auto simp: set_future_def split: option.splits future.splits)
qed (simp add: break_futures_def)

lemma set_future_other: "u \<noteq> t \<Longrightarrow> set_future t st pr u = pr u"
  by (auto simp: set_future_def split: option.splits future.splits)

lemma place_client:
  assumes "client_step s s'" "stopper s' = stopper s \<or> stopper s \<noteq> Now_Stored"
  shows "place st s \<subseteq># place st s'"
  using assms(1)
proof (rule client_stepE, goal_cases)
  case (2 w)
  then show ?case using hands_update [of w "workers s" Wants_Lock] by (simp add: place_def split: future.splits)
next
  case 9
  with assms(2) show ?case by simp
qed (simp_all add: place_def split: future.splits)

lemma place_worker:
  assumes "worker_step w s s'" "\<And>t. workers s ! w \<noteq> Executing t"
  shows "place st s' = place st s"
  using assms(1)
proof (rule worker_stepE, goal_cases)
  case (5 t q)
  then show ?case using hands_update [of w "workers s" "Executing t"] by (simp add: place_def split: future.splits)
next
  case (6 t)
  with assms(2) [of t] show ?case by simp
qed (use hands_update [of w "workers s"] in \<open>force simp: place_def split: future.splits\<close>)+

lemma fut_inv_frame:
  assumes "fut_inv s pr" "\<And>st. place st s \<subseteq># place st s'"
    "\<And>t. t \<in> dom pr \<Longrightarrow> objects s' t = objects s t \<and> count (mset (early s') + mset (late s')) t = count (mset (early s) + mset (late s)) t"
  shows "fut_inv s' pr"
  unfolding fut_inv_def
proof (intro allI impI)
  fix t f st assume t: "pr t = Some (f, st)"
  with assms(1) have "count (mset (early s) + mset (late s)) t = 1 \<and> objects s t = Task_new (Some f) NORMAL \<and> t \<in># place st s"
    by (simp add: fut_inv_def)
  with assms(3) [of t] t mset_subset_eqD [OF assms(2) [of st], of t]
  show "count (mset (early s') + mset (late s')) t = 1 \<and> objects s' t = Task_new (Some f) NORMAL \<and> t \<in># place st s'" by auto
qed

lemma fut_inv_append:
  assumes "fut_inv s pr" "t \<notin> set (early s @ late s)" "pr t = None"
  shows "fut_inv (pool_append t f s) (pr(t \<mapsto> (f, Pending)))"
proof -
  have "fut_inv (pool_append t f s) pr"
    by (rule fut_inv_frame [OF assms(1)]) (use assms(3) in \<open>auto simp: place_def pool_append_def split: future.splits\<close>)
  then have old: "pr u = Some (g, st) \<Longrightarrow> count (mset (early (pool_append t f s)) + mset (late (pool_append t f s))) u = 1 \<and>
      objects (pool_append t f s) u = Task_new (Some g) NORMAL \<and> u \<in># place st (pool_append t f s)" for u g st
    by (simp add: fut_inv_def)
  have "count (mset (early s)) t = 0" "count (mset (late s)) t = 0" using assms(2) by (simp_all add: count_eq_zero_iff)
  then have new: "count (mset (early (pool_append t f s)) + mset (late (pool_append t f s))) t = 1 \<and>
      objects (pool_append t f s) t = Task_new (Some f) NORMAL \<and> t \<in># place Pending (pool_append t f s)"
    by (simp add: pool_append_def place_def)
  show ?thesis
    unfolding fut_inv_def
  proof (intro allI impI)
    fix u g st assume "(pr(t \<mapsto> (f, Pending))) u = Some (g, st)"
    then show "count (mset (early (pool_append t f s)) + mset (late (pool_append t f s))) u = 1 \<and>
        objects (pool_append t f s) u = Task_new (Some g) NORMAL \<and> u \<in># place st (pool_append t f s)"
      using old new by (cases "u = t") auto
  qed
qed

lemma execute_effect:
  assumes "worker_step w s s'" "workers s ! w = Executing t"
  shows "hands (workers s) = add_mset t (hands (workers s'))" "completed s' = completed s @ [t]" "queue s' = queue s"
    "dropped s' = dropped s" "objects s' = objects s" "early s' = early s" "late s' = late s"
proof -
  have "w < length (workers s)" "s' = set_worker w Wants_Lock
      (s\<lparr>called := called s @ task_execute (objects s t), completed := completed s @ [t]\<rparr>)"
    using assms by (auto elim!: worker_stepE)
  then show "hands (workers s) = add_mset t (hands (workers s'))" "completed s' = completed s @ [t]" "queue s' = queue s"
    "dropped s' = dropped s" "objects s' = objects s" "early s' = early s" "late s' = late s"
    using hands_update [of w "workers s" Wants_Lock] assms(2) by simp_all
qed

lemma fut_inv_execute:
  assumes "fut_inv s pr" "worker_step w s s'" "workers s ! w = Executing t"
  shows "fut_inv s' (set_future t (if is_cancelled (objects s t) then Broken else Is_Ready) pr)" (is "fut_inv s' ?pr")
  unfolding fut_inv_def
proof (intro allI impI)
  fix u f st assume u: "?pr u = Some (f, st)"
  note e = execute_effect [OF assms(2,3)]
  obtain st0 where p: "pr u = Some (f, st0)"
    using u by (cases "u = t") (auto simp: set_future_other, auto simp: set_future_def split: option.splits future.splits if_splits)
  then have i: "count (mset (early s) + mset (late s)) u = 1" "objects s u = Task_new (Some f) NORMAL" "u \<in># place st0 s"
    using assms(1) by (auto simp: fut_inv_def)
  have "u \<in># place st s'"
  proof (cases "u = t")
    case True
    then show ?thesis using u p i(2,3) e by (cases st0) (auto simp: set_future_def place_def is_cancelled_def Task_new_def)
  next
    case False
    then have "st = st0" using u p by (simp add: set_future_other)
    with False i(3) e show ?thesis by (cases st0) (auto simp: place_def)
  qed
  with i e show "count (mset (early s') + mset (late s')) u = 1 \<and> objects s' u = Task_new (Some f) NORMAL \<and> u \<in># place st s'" by simp
qed

lemma fut_inv_clear:
  assumes "fut_inv s pr" "client_step s s'" "stopper s = Now_Stored" "stopper s' = Now_Cleared"
  shows "fut_inv s' (break_futures (queue s) pr)"
  unfolding fut_inv_def
proof (intro allI impI)
  fix u f st assume u: "break_futures (queue s) pr u = Some (f, st)"
  have s': "s' = s\<lparr>queue := [], dropped := dropped s @ queue s, stopper := Now_Cleared\<rparr>"
    using assms(2-4) by (auto elim!: client_stepE)
  obtain st0 where p: "pr u = Some (f, st0)" "st = (if u \<in> set (queue s) \<and> st0 = Pending then Broken else st0)"
    using u by (auto simp: break_futures_eq set_future_def split: option.splits future.splits if_splits)
  with assms(1) have "count (mset (early s) + mset (late s)) u = 1" "objects s u = Task_new (Some f) NORMAL" "u \<in># place st0 s"
    by (auto simp: fut_inv_def)
  then show "count (mset (early s') + mset (late s')) u = 1 \<and> objects s' u = Task_new (Some f) NORMAL \<and> u \<in># place st s'"
    using p(2) by (cases st0) (auto simp: s' place_def)
qed

lemma fut_inv_step: "fut_step x y \<Longrightarrow> fut_inv (fst x) (snd x) \<Longrightarrow> fut_inv (fst y) (snd y)"
proof (induction rule: fut_step.induct)
  case (fs_worker w s s' pr)
  have same: "objects s' = objects s" "early s' = early s" "late s' = late s" using fs_worker(1) by (auto elim: worker_stepE)
  have "fut_inv s pr" using fs_worker(3) by simp
  then have "fut_inv s' pr" by (rule fut_inv_frame) (simp_all only: same place_worker [OF fs_worker(1,2)] subset_mset.order_refl simp_thms)
  then show ?case by simp
next
  case (fs_client s s' pr)
  then have "fut_inv s pr" by simp
  then have "fut_inv s' pr" by (rule fut_inv_frame) (rule place_client [OF fs_client(1,2)], rule fs_client(3))
  then show ?case by simp
next
  case (fs_spurious w s pr)
  then have "fut_inv s pr" by simp
  then have "fut_inv (set_worker w Wants_Lock s) pr"
    by (rule fut_inv_frame) (use fs_spurious hands_update [of w "workers s" Wants_Lock] in \<open>auto simp: place_def split: future.splits\<close>)
  then show ?case by simp
qed (simp_all add: fut_inv_append fut_inv_execute fut_inv_clear)

lemma fut_inv_reachable: "fut_reach n x \<Longrightarrow> fut_inv (fst x) (snd x)"
  by (induction rule: fut_reach.induct) (auto intro: fut_inv_step, simp add: fut_inv_def)

text \<open>The function of a task that was completed and not cancelled has been called.\<close>

definition called_inv :: "'f pool \<Rightarrow> bool" where
  "called_inv s \<longleftrightarrow> (\<forall>t\<in>set (completed s). \<not> tk_cancelled (objects s t) \<longrightarrow>
     set_option (tk_func (objects s t)) \<subseteq> set (called s))"

lemma task_execute_called: "\<not> tk_cancelled x \<Longrightarrow> set_option (tk_func x) \<subseteq> set (task_execute x)"
  by (cases "tk_func x") (simp_all add: task_execute_def)

lemma called_inv_worker: "worker_step w s s' \<Longrightarrow> called_inv s \<Longrightarrow> called_inv s'"
proof (erule worker_stepE, goal_cases)
  case (6 t)
  then show ?case using task_execute_called [of "objects s t"] by (fastforce simp: called_inv_def)
qed (simp_all add: called_inv_def)

lemma called_inv_client: "client_step s s' \<Longrightarrow> called_inv s \<Longrightarrow> called_inv s'"
  by (erule client_stepE) (simp_all add: called_inv_def task_cancel_def)

lemma called_inv_step: "pool_step s s' \<Longrightarrow> called_inv s \<Longrightarrow> called_inv s'"
proof (induction rule: pool_step.induct)
  case (ps_spurious w s)
  then show ?case by (simp add: called_inv_def)
qed (auto simp: called_inv_worker called_inv_client)

lemma called_inv_reachable: "pool_reachable n s \<Longrightarrow> called_inv s"
proof (induction rule: pool_reachable.induct)
  case (pr_new objs)
  show ?case by (simp add: called_inv_def ThreadPool_new_def)
qed (rule called_inv_step)

lemma early_settled:
  assumes "pool_reachable n s" "stopper s \<in> {Shutdown_Done, Now_Done}" "workers s \<noteq> []"
  shows "mset (early s) \<subseteq># mset (completed s) + mset (dropped s)"
proof -
  have all: "set (workers s) \<subseteq> {Exited}"
    using done_inv_reachable [OF assms(1)] assms(2) by (auto simp: done_inv_def)
  then have "Exited \<in> set (workers s)" using assms(3) by (cases "workers s") auto
  then have "mset (queue s) \<subseteq># mset (late s)"
    using exit_inv_reachable [OF assms(1)] by (simp add: exit_inv_def)
  then obtain r where r: "mset (late s) = mset (queue s) + r" by (metis subset_mset.le_iff_add)
  have "mset (early s) + mset (late s) = mset (queue s) + (mset (completed s) + mset (dropped s))"
    using task_inv_reachable [OF assms(1)] hands_exited [OF all] by (simp add: task_inv_def ac_simps)
  then have "mset (queue s) + (mset (early s) + r) = mset (queue s) + (mset (completed s) + mset (dropped s))"
    by (simp only: r ac_simps)
  then show ?thesis by (metis add_left_cancel mset_subset_eq_add_left)
qed

lemma dropped_empty: "pool_reachable n s \<Longrightarrow> stopper s = Shutdown_Done \<Longrightarrow> dropped s = []"
  using done_inv_reachable by (auto simp: done_inv_def)

section \<open>The functions called\<close>

text \<open>Without cancellations the functions called are those of the completed tasks, in that order.\<close>

definition funcs :: "'f pool \<Rightarrow> nat list \<Rightarrow> 'f list" where
  "funcs s ts = concat (map (\<lambda>t. case tk_func (objects s t) of None \<Rightarrow> [] | Some f \<Rightarrow> [f]) ts)"

definition exact_inv :: "'f pool \<Rightarrow> bool" where
  "exact_inv s \<longleftrightarrow> ((\<forall>t. \<not> tk_cancelled (objects s t)) \<longrightarrow> called s = funcs s (completed s))"

lemma funcs_objects: "objects s' = objects s \<Longrightarrow> funcs s' ts = funcs s ts"
  by (simp add: funcs_def)

lemma exact_inv_same:
  "exact_inv s \<Longrightarrow> objects s' = objects s \<Longrightarrow> called s' = called s \<Longrightarrow> completed s' = completed s \<Longrightarrow> exact_inv s'"
  by (simp add: exact_inv_def funcs_objects [of s' s])

lemma exact_inv_worker: "worker_step w s s' \<Longrightarrow> exact_inv s \<Longrightarrow> exact_inv s'"
proof (erule worker_stepE, goal_cases)
  case (6 t)
  then show ?case by (auto simp: exact_inv_def funcs_def task_execute_def split: option.splits)
qed (auto intro: exact_inv_same)

lemma exact_inv_client: "client_step s s' \<Longrightarrow> exact_inv s \<Longrightarrow> exact_inv s'"
proof (erule client_stepE, goal_cases)
  case (4 t)
  then have "tk_cancelled (objects s' t)" by (simp add: task_cancel_def)
  then show ?case by (auto simp: exact_inv_def)
qed (auto intro: exact_inv_same)

lemma exact_inv_reachable: "pool_reachable n s \<Longrightarrow> exact_inv s"
proof (induction rule: pool_reachable.induct)
  case (pr_new objs)
  show ?case by (simp add: exact_inv_def funcs_def ThreadPool_new_def)
next
  case (pr_step s s')
  from pr_step(2,3) show ?case
  proof cases
    case (ps_spurious w)
    then show ?thesis using exact_inv_same [OF pr_step(3)] by simp
  qed (use exact_inv_worker exact_inv_client in auto)
qed

lemma mset_funcs: "mset xs = mset ys \<Longrightarrow> mset (funcs s xs) = mset (funcs s ys)"
proof -
  have "mset (funcs s zs) = \<Sum>\<^sub># (image_mset (\<lambda>t. mset (case tk_func (objects s t) of None \<Rightarrow> [] | Some f \<Rightarrow> [f])) (mset zs))" for zs
    by (induction zs) (simp_all add: funcs_def)
  then show "mset xs = mset ys \<Longrightarrow> ?thesis" by simp
qed

text \<open>
  When the queue is empty, no worker is executing and nothing was dropped, every function that was
  submitted has been called exactly once.
\<close>

lemma pool_calls_each_once:
  assumes "pool_reachable n s" "\<And>t. \<not> tk_cancelled (objects s t)" "queue s = []" "hands (workers s) = {#}" "dropped s = []"
  shows "mset (called s) = mset (funcs s (early s @ late s))"
proof -
  have "mset (early s @ late s) = mset (completed s)"
    using task_inv_reachable [OF assms(1)] assms(3-5) by (simp add: task_inv_def)
  moreover have "called s = funcs s (completed s)"
    using exact_inv_reachable [OF assms(1)] assms(2) by (simp add: exact_inv_def)
  ultimately show ?thesis using mset_funcs by metis
qed

lemma funcs_eq: "map (\<lambda>t. tk_func (objects s t)) ts = map Some fs \<Longrightarrow> funcs s ts = fs"
  by (induction ts arbitrary: fs) (auto simp: funcs_def)

section \<open>Runs\<close>

text \<open>A pool of one worker that runs one appended task, and is shut down.\<close>

definition busy_pool :: "'f \<Rightarrow> 'f pool" where
  "busy_pool f = ThreadPool_new 1 (\<lambda>_. Task_new (Some f) NORMAL)"

definition busy_idle :: "'f \<Rightarrow> 'f pool" where
  "busy_idle f = (busy_pool f)\<lparr>notify_due := 1, called := [f], completed := [7], early := [7]\<rparr>"

definition busy_done :: "'f \<Rightarrow> 'f pool" where
  "busy_done f = (busy_idle f)\<lparr>stop := True, stopper := Shutdown_Done, workers := [Exited]\<rparr>"

lemmas busy_defs = busy_idle_def busy_pool_def ThreadPool_new_def set_worker_def Task_new_def task_execute_def

lemma busy_idle_reachable: "fut_reach 1 (busy_idle f, [7 \<mapsto> (f, Is_Ready)])"
proof -
  let ?s1 = "(busy_pool f)\<lparr>queue := [7], notify_due := 1, early := [7]\<rparr>"
  let ?s2 = "?s1\<lparr>holder := Some 0, workers := [Testing]\<rparr>"
  let ?s3 = "?s1\<lparr>queue := [], workers := [Executing 7]\<rparr>"
  let ?pr = "[7 \<mapsto> (f, Pending)]"
  have 0: "fut_reach 1 (busy_pool f, Map.empty)" unfolding busy_pool_def by (rule fr_new)
  have 1: "fut_step (busy_pool f, Map.empty) (?s1, ?pr)"
    using fs_append [of "busy_pool f" 7 Map.empty f] by (simp add: busy_defs pool_append_def fun_upd_idem)
  have 2: "fut_step (?s1, ?pr) (?s2, ?pr)" using fs_worker [OF ws_lock [of 0 ?s1], of ?pr] by (simp add: busy_defs)
  have 3: "fut_step (?s2, ?pr) (?s3, ?pr)" using fs_worker [OF ws_take [of 0 ?s2], of _ _ ?pr] by (simp add: busy_defs)
  have 4: "fut_step (?s3, ?pr) (busy_idle f, [7 \<mapsto> (f, Is_Ready)])"
    using fs_execute [OF ws_execute [of 0 ?s3 7], of 7 ?pr] by (simp add: busy_defs is_cancelled_def set_future_def)
  show ?thesis by (rule fr_step [OF fr_step [OF fr_step [OF fr_step [OF 0 1] 2] 3] 4])
qed

lemma busy_done_reachable: "fut_reach 1 (busy_done f, [7 \<mapsto> (f, Is_Ready)])"
proof -
  let ?s5 = "(busy_idle f)\<lparr>stop := True, stopper := Stop_Stored\<rparr>"
  let ?s6 = "(busy_idle f)\<lparr>stop := True, stopper := Joining\<rparr>"
  let ?s7 = "?s6\<lparr>holder := Some 0, workers := [Testing]\<rparr>"
  let ?s8 = "?s6\<lparr>workers := [Exited]\<rparr>"
  let ?pr = "[7 \<mapsto> (f, Is_Ready)]"
  have 5: "fut_step (busy_idle f, ?pr) (?s5, ?pr)" using fs_client [OF cs_stop [of "busy_idle f"], of ?pr] by (simp add: busy_defs)
  have 6: "fut_step (?s5, ?pr) (?s6, ?pr)" using fs_client [OF cs_notify_all [of ?s5], of ?pr] by (simp add: busy_defs)
  have 7: "fut_step (?s6, ?pr) (?s7, ?pr)" using fs_worker [OF ws_lock [of 0 ?s6], of ?pr] by (simp add: busy_defs)
  have 8: "fut_step (?s7, ?pr) (?s8, ?pr)" using fs_worker [OF ws_exit [of 0 ?s7], of ?pr] by (simp add: busy_defs)
  have 9: "fut_step (?s8, ?pr) (busy_done f, ?pr)" using fs_client [OF cs_joined [of ?s8], of ?pr] by (simp add: busy_defs busy_done_def)
  from fr_step [OF fr_step [OF fr_step [OF fr_step [OF fr_step [OF busy_idle_reachable 5] 6] 7] 8] 9] show ?thesis .
qed

section \<open>Properties\<close>

text \<open>
  C22: No future is left pending by a pool that has been stopped: in every reachable state of the pool and its futures, when
  \<open>shutdown\<close> or \<open>shutdown_now\<close> of a pool with at least one thread has returned, the future of every task that was appended
  before the stop flag was set is ready or broken; after \<open>shutdown\<close> it is ready. At any time, a ready future means that its function has been called,
  and only a task that \<open>shutdown_now\<close> took out of the queue has a broken future.
\<close>

theorem futures_settle:
  assumes "fut_reach n (s, pr)" "pr t = Some (f, st)"
  shows "(stopper s \<in> {Shutdown_Done, Now_Done} \<and> t \<in> set (early s) \<and> workers s \<noteq> [] \<longrightarrow>
      st \<noteq> Pending \<and> (stopper s = Shutdown_Done \<longrightarrow> st = Is_Ready)) \<and>
    (st = Is_Ready \<longrightarrow> f \<in> set (called s)) \<and> (st = Broken \<longrightarrow> t \<in> set (dropped s))"
proof -
  have r: "pool_reachable n s" using fut_pool_reachable [OF assms(1)] by simp
  have i: "count (mset (early s) + mset (late s)) t = 1" "objects s t = Task_new (Some f) NORMAL" "t \<in># place st s"
    using fut_inv_reachable [OF assms(1)] assms(2) by (auto simp: fut_inv_def)
  have "f \<in> set (called s)" if "st = Is_Ready"
    using called_inv_reachable [OF r] i(2,3) that by (auto simp: called_inv_def Task_new_def place_def)
  moreover have "t \<in> set (dropped s)" if "st = Broken" using i(3) that by (simp add: place_def)
  moreover have "st \<noteq> Pending" if "stopper s \<in> {Shutdown_Done, Now_Done}" "t \<in> set (early s)" "workers s \<noteq> []"
  proof
    assume "st = Pending"
    have "t \<in># mset (completed s) + mset (dropped s)"
      using early_settled [OF r that(1,3)] that(2) by (metis mset_subset_eqD set_mset_mset)
    then have "1 \<le> count (mset (completed s) + mset (dropped s)) t" by (simp add: Suc_le_eq)
    moreover have "1 \<le> count (mset (queue s) + hands (workers s)) t"
      using i(3) \<open>st = Pending\<close> by (simp add: place_def Suc_le_eq)
    ultimately show False using i(1) arg_cong [OF task_inv_reachable [OF r, unfolded task_inv_def], of "\<lambda>M. count M t"] by simp
  qed
  ultimately show ?thesis using dropped_empty [OF r] by (cases st) auto
qed

theorem futures_settle_witness:
  "fut_reach 1 (busy_done (42 :: nat), [7 \<mapsto> (42, Is_Ready)]) \<and> stopper (busy_done (42 :: nat)) = Shutdown_Done \<and>
   7 \<in> set (early (busy_done (42 :: nat))) \<and> 42 \<in> set (called (busy_done (42 :: nat)))"
  using futures_settle [OF busy_done_reachable [of "42 :: nat"], of 7 42 Is_Ready] busy_done_reachable [of "42 :: nat"]
  by (simp add: busy_done_def busy_idle_def)

text \<open>
  A pool without threads returns from \<open>shutdown\<close> at once, and the future of an appended task stays pending.
\<close>

theorem no_threads_future_pending:
  "\<exists>s pr. fut_reach 0 (s, pr) \<and> stopper s = Shutdown_Done \<and> early s = [7] \<and> pr 7 = Some (42 :: nat, Pending)"
proof -
  let ?s0 = "ThreadPool_new 0 (\<lambda>_. Task_new (Some 42) NORMAL) :: nat pool" and ?pr = "[7 \<mapsto> (42 :: nat, Pending)]"
  let ?s1 = "pool_append 7 42 ?s0"
  let ?s2 = "?s1\<lparr>stop := True, stopper := Stop_Stored\<rparr>"
  let ?s3 = "?s2\<lparr>workers := map wake (workers ?s2), stopper := Joining\<rparr>"
  let ?s4 = "?s3\<lparr>stopper := Shutdown_Done\<rparr>"
  note d = pool_append_def ThreadPool_new_def
  have 1: "fut_step (?s0, Map.empty) (?s1, ?pr)" by (rule fs_append) (simp_all add: d)
  have 2: "fut_step (?s1, ?pr) (?s2, ?pr)" by (rule fs_client [OF cs_stop]) (simp_all add: d)
  have 3: "fut_step (?s2, ?pr) (?s3, ?pr)" by (rule fs_client [OF cs_notify_all]) (simp_all add: d)
  have 4: "fut_step (?s3, ?pr) (?s4, ?pr)" by (rule fs_client [OF cs_joined]) (simp_all add: d)
  have "fut_reach 0 (?s4, ?pr)" by (rule fr_step [OF fr_step [OF fr_step [OF fr_step [OF fr_new 1] 2] 3] 4])
  then show ?thesis by (intro exI [of _ ?s4] exI [of _ ?pr]) (simp add: d)
qed

end
