(* ===== verification/Pool_Progress.thy ===== *)
theory Pool_Progress
  imports Pool_Futures
begin

text \<open>
  Progress of a running \<open>ThreadPool\<close> (\<open>src/core/threadpool/thread_pool.cpp\<close>): no wake-up for a task
  is lost, so the workers serve everything that is queued, after boundedly many steps and
  whatever their interleaving. The lost wake-up of \<open>shutdown\<close> concerns the stop flag only.
\<close>

section \<open>No wake-up for a task is lost\<close>

text \<open>
  A worker about to sleep still holds the mutex and has seen the queue empty. A task that waits
  has a notification on its way or a worker that will look at the queue again.
\<close>

definition wakeup_inv :: "'f pool \<Rightarrow> bool" where
  "wakeup_inv s \<longleftrightarrow> (Falling_Asleep \<in> set (workers s) \<longrightarrow> queue s = []) \<and>
     (\<not> stop s \<longrightarrow> queue s \<noteq> [] \<longrightarrow> workers s \<noteq> [] \<longrightarrow>
        0 < notify_due s \<or> \<not> set (workers s) \<subseteq> {Asleep, Falling_Asleep})"

lemma append_priority_nonempty: "append_priority pri t q \<noteq> []"
  using mset_append_priority [of pri t q] by (metis empty_not_add_mset mset.simps(1))

lemma wakeup_inv_awake:
  assumes "wakeup_inv s" "w < length (workers s)" "workers s' = (workers s)[w := st]"
    "st \<notin> {Asleep, Falling_Asleep}" "queue s = [] \<Longrightarrow> queue s' = []"
  shows "wakeup_inv s'"
  using assms in_set_update [of Falling_Asleep "workers s" w st] set_update_memI [of w "workers s" st]
  by (auto simp: wakeup_inv_def)

lemma wakeup_inv_worker:
  assumes "worker_step w s s'" "wakeup_inv s"
  shows "wakeup_inv s'"
  using assms(1)
proof (rule worker_stepE, goal_cases)
  case 3
  then have "Falling_Asleep \<in> set (workers s)" by (metis nth_mem)
  with 3 assms(2) show ?case by (simp add: wakeup_inv_def)
qed (use assms(2) in \<open>auto intro: wakeup_inv_awake, simp_all add: wakeup_inv_def\<close>)

lemma wakeup_inv_client:
  assumes "client_step s s'" "lock_inv s" "exit_inv s" "wakeup_inv s"
  shows "wakeup_inv s'"
  using assms(1)
proof (rule client_stepE, goal_cases)
  case (1 t)
  then show ?case using no_falling_asleep [OF assms(2)] by (simp add: wakeup_inv_def)
next
  case (2 w)
  then show ?case using assms(4) by (auto intro: wakeup_inv_awake)
next
  case 3
  show ?case
  proof (cases "queue s = [] \<or> stop s \<or> workers s = []")
    case False
    then have "Falling_Asleep \<notin> set (workers s)" using assms(4) by (auto simp: wakeup_inv_def)
    with 3 False assms(4) show ?thesis by (cases "workers s") (auto simp: wakeup_inv_def)
  qed (use 3 assms(4) in \<open>auto simp: wakeup_inv_def\<close>)
next
  case 6
  then show ?case using assms(3,4) by (auto simp: wakeup_inv_def exit_inv_def)
next
  case 10
  then show ?case using assms(3,4) by (auto simp: wakeup_inv_def exit_inv_def)
qed (use assms(4) in \<open>auto simp: wakeup_inv_def\<close>)

lemma wakeup_inv_reachable: "pool_reachable n s \<Longrightarrow> wakeup_inv s"
proof (induction rule: pool_reachable.induct)
  case (pr_step s s')
  note inv = lock_inv_reachable [OF pr_step(1)] exit_inv_reachable [OF pr_step(1)] pr_step(3)
  from pr_step(2) show ?case
  proof cases
    case (ps_spurious w)
    then show ?thesis using pr_step(3) by (auto intro: wakeup_inv_awake)
  qed (use inv wakeup_inv_worker wakeup_inv_client in blast)+
qed (simp add: wakeup_inv_def ThreadPool_new_def)

section \<open>Serving the queue\<close>

text \<open>
  The steps that a running pool takes on its own: those of the workers, and the notifications of
  threads that have queued a task.
\<close>

inductive serve_step :: "'f pool \<Rightarrow> 'f pool \<Rightarrow> bool" where
  sv_worker: "worker_step w s s' \<Longrightarrow> serve_step s s'"
| sv_notify: "0 < notify_due s \<Longrightarrow> w < length (workers s) \<Longrightarrow> workers s ! w = Asleep \<Longrightarrow>
    serve_step s (set_worker w Wants_Lock (s\<lparr>notify_due := notify_due s - 1\<rparr>))"
| sv_notify_nobody: "0 < notify_due s \<Longrightarrow> Asleep \<notin> set (workers s) \<Longrightarrow>
    serve_step s (s\<lparr>notify_due := notify_due s - 1\<rparr>)"

lemma serve_pool_step: "serve_step s s' \<Longrightarrow> pool_step s s'"
  by (induction rule: serve_step.induct) (blast intro: ps_worker ps_client cs_notify cs_notify_nobody)+

lemma serve_reachable: "serve_step\<^sup>*\<^sup>* s s' \<Longrightarrow> pool_reachable n s \<Longrightarrow> pool_reachable n s'"
  by (induction rule: rtranclp_induct) (auto intro: pr_step serve_pool_step)

fun steps_of :: "worker \<Rightarrow> nat" where
  "steps_of (Executing t) = 4"
| "steps_of Wants_Lock = 3"
| "steps_of Testing = 2"
| "steps_of Falling_Asleep = 1"
| "steps_of _ = 0"

definition serve_work :: "'f pool \<Rightarrow> nat" where
  "serve_work s = sum_list (map steps_of (workers s)) + 5 * length (queue s) + 4 * notify_due s"

lemma serve_work_decreases: "serve_step s s' \<Longrightarrow> serve_work s' < serve_work s"
proof (induction rule: serve_step.induct)
  case (sv_worker w s s')
  then show ?case
  proof (rule worker_stepE, goal_cases)
    case 1
    then show ?case using sum_list_map_update [of w "workers s" steps_of Testing] by (simp add: serve_work_def set_worker_def)
  next
    case 2
    then show ?case using sum_list_map_update [of w "workers s" steps_of Falling_Asleep] by (simp add: serve_work_def set_worker_def)
  next
    case 3
    then show ?case using sum_list_map_update [of w "workers s" steps_of Asleep] by (simp add: serve_work_def set_worker_def)
  next
    case 4
    then show ?case using sum_list_map_update [of w "workers s" steps_of Exited] by (simp add: serve_work_def set_worker_def)
  next
    case (5 t q)
    then show ?case using sum_list_map_update [of w "workers s" steps_of "Executing t"] by (simp add: serve_work_def set_worker_def)
  next
    case (6 t)
    then show ?case using sum_list_map_update [of w "workers s" steps_of Wants_Lock] by (simp add: serve_work_def set_worker_def)
  qed
next
  case (sv_notify s w)
  then show ?case using sum_list_map_update [of w "workers s" steps_of Wants_Lock] by (simp add: serve_work_def set_worker_def)
qed (simp add: serve_work_def)

lemma serve_steps_bound: "(serve_step ^^ k) s s' \<Longrightarrow> serve_step\<^sup>*\<^sup>* s s' \<and> serve_work s' + k \<le> serve_work s"
proof (induction k arbitrary: s')
  case (Suc k)
  then obtain t where t: "(serve_step ^^ k) s t" "serve_step t s'" by auto
  with Suc.IH [OF t(1)] serve_work_decreases [OF t(2)] show ?case by auto
qed simp

text \<open>A pool that cannot take another step has nothing left to do.\<close>

definition at_rest :: "'f pool \<Rightarrow> bool" where
  "at_rest s \<longleftrightarrow> queue s = [] \<and> hands (workers s) = {#} \<and> notify_due s = 0 \<and> set (workers s) \<subseteq> {Asleep}"

lemma hands_none: "(\<And>st. st \<in> set ws \<Longrightarrow> hand st = {#}) \<Longrightarrow> hands ws = {#}"
  by (induction ws) (auto simp: hands_def)

lemma worker_can_move:
  assumes "lock_inv s" "\<not> stop s" "w < length (workers s)" "workers s ! w \<notin> {Asleep, Exited}"
  shows "\<exists>s'. serve_step s s'"
proof -
  have held: "\<exists>s'. serve_step s s'" if "v < length (workers s)" "workers s ! v \<in> {Testing, Falling_Asleep}" for v
  proof (cases "workers s ! v = Testing")
    case True
    with that(1) assms(2) show ?thesis by (cases "queue s") (blast intro: sv_worker ws_wait ws_take)+
  qed (use that in \<open>blast intro: sv_worker ws_sleep\<close>)
  consider "workers s ! w = Wants_Lock" | "workers s ! w \<in> {Testing, Falling_Asleep}" | t where "workers s ! w = Executing t"
    using assms(4) by (cases "workers s ! w") auto
  then show ?thesis
  proof cases
    case 1
    show ?thesis
    proof (cases "holder s")
      case None
      with 1 assms(3) show ?thesis by (blast intro: sv_worker ws_lock)
    next
      case (Some v)
      with assms(1) have "v < length (workers s)" "workers s ! v \<in> {Testing, Falling_Asleep}"
        by (auto simp: lock_inv_def)
      then show ?thesis by (rule held)
    qed
  qed (use assms(3) held in \<open>blast intro: sv_worker ws_execute\<close>)+
qed

lemma serve_progress:
  assumes "pool_reachable n s" "\<not> stop s" "workers s \<noteq> []" "\<not> at_rest s"
  shows "\<exists>s'. serve_step s s'"
proof (cases "0 < notify_due s \<or> set (workers s) \<subseteq> {Asleep}")
  case True
  have "queue s = [] \<and> hands (workers s) = {#}" if "set (workers s) \<subseteq> {Asleep}" "notify_due s = 0"
  proof -
    have "hands (workers s) = {#}" using that by (intro hands_none) auto
    moreover have "set (workers s) \<subseteq> {Asleep, Falling_Asleep}" using that by blast
    ultimately show ?thesis
      using wakeup_inv_reachable [OF assms(1)] assms(2,3) that by (auto simp: wakeup_inv_def)
  qed
  with True assms(4) have "0 < notify_due s" by (auto simp: at_rest_def)
  show ?thesis
  proof (cases "Asleep \<in> set (workers s)")
    case True
    then obtain w where "w < length (workers s)" "workers s ! w = Asleep" by (auto simp: in_set_conv_nth)
    with \<open>0 < notify_due s\<close> show ?thesis by (blast intro: sv_notify)
  qed (use \<open>0 < notify_due s\<close> in \<open>blast intro: sv_notify_nobody\<close>)
next
  case False
  then obtain w where w: "w < length (workers s)" "workers s ! w \<noteq> Asleep"
    by (metis in_set_conv_nth singletonI subsetI)
  moreover have "workers s ! w \<noteq> Exited"
    using exit_inv_reachable [OF assms(1)] assms(2) nth_mem [OF w(1)] by (auto simp: exit_inv_def)
  ultimately show ?thesis using lock_inv_reachable [OF assms(1)] assms(2) by (intro worker_can_move) auto
qed

lemma serve_keeps: "serve_step s s' \<Longrightarrow> stop s' = stop s \<and> length (workers s') = length (workers s) \<and>
    objects s' = objects s \<and> early s' = early s \<and> late s' = late s \<and> dropped s' = dropped s"
  by (induction rule: serve_step.induct) (auto elim: worker_stepE)

lemma serve_run_keeps: "serve_step\<^sup>*\<^sup>* s s' \<Longrightarrow> stop s' = stop s \<and> length (workers s') = length (workers s) \<and>
    objects s' = objects s \<and> early s' = early s \<and> late s' = late s \<and> dropped s' = dropped s"
  by (induction rule: rtranclp_induct) (auto dest: serve_keeps)

lemma no_late_worker: "worker_step w s s' \<Longrightarrow> stop s' = stop s \<and> late s' = late s"
  by (erule worker_stepE) simp_all

lemma no_late_reachable: "pool_reachable n s \<Longrightarrow> \<not> stop s \<Longrightarrow> late s = []"
proof (induction rule: pool_reachable.induct)
  case (pr_step s s')
  from pr_step(2) show ?case
  proof cases
    case ps_client
    then show ?thesis using pr_step(3,4) by (auto elim!: client_stepE)
  next
    case (ps_worker w)
    then show ?thesis using pr_step(3,4) no_late_worker [of w s s'] by simp
  qed (use pr_step(3,4) in auto)
qed (simp add: ThreadPool_new_def)

lemma serve_finishes:
  assumes "pool_reachable n s" "\<not> stop s" "workers s \<noteq> []"
  shows "\<exists>s'. serve_step\<^sup>*\<^sup>* s s' \<and> at_rest s'"
  using assms
proof (induction "serve_work s" arbitrary: s rule: less_induct)
  case less
  show ?case
  proof (cases "at_rest s")
    case False
    then obtain t where t: "serve_step s t" using serve_progress less.prems by blast
    then have "pool_reachable n t" "\<not> stop t" "workers t \<noteq> []"
      using less.prems serve_keeps [OF t] by (auto intro: pr_step serve_pool_step)
    with less.hyps [OF serve_work_decreases [OF t]] t show ?thesis by (meson converse_rtranclp_into_rtranclp)
  qed blast
qed

lemma served_all:
  assumes "pool_reachable n s" "\<not> stop s" "serve_step\<^sup>*\<^sup>* s s'" "at_rest s'"
  shows "mset (completed s') = mset (early s)"
    and "\<forall>t. \<not> tk_cancelled (objects s t) \<Longrightarrow> mset (called s') = mset (funcs s (early s))"
proof -
  note reach = serve_reachable [OF assms(3,1)] and keep = serve_run_keeps [OF assms(3)]
  have late: "late s = []" by (rule no_late_reachable [OF assms(1,2)])
  have dropped: "dropped s' = []"
    using done_inv_reachable [OF reach] exit_inv_reachable [OF reach] keep assms(2)
    by (auto simp: done_inv_def exit_inv_def)
  show "mset (completed s') = mset (early s)"
    using task_inv_reachable [OF reach] assms(4) dropped late keep by (simp add: task_inv_def at_rest_def)
  assume "\<forall>t. \<not> tk_cancelled (objects s t)"
  then show "mset (called s') = mset (funcs s (early s))"
    using pool_calls_each_once [OF reach] assms(4) dropped late keep funcs_objects [of s' s] by (simp add: at_rest_def)
qed

text \<open>A pool of one worker with one appended task.\<close>

lemma busy_appended:
  "pool_reachable 1 (pool_append 7 f (busy_pool f))" "\<not> stop (pool_append 7 f (busy_pool f))"
  "workers (pool_append 7 f (busy_pool f)) \<noteq> []" "\<not> tk_cancelled (objects (pool_append 7 f (busy_pool f)) t)"
  "early (pool_append 7 f (busy_pool f)) = [7]" "tk_func (objects (pool_append 7 f (busy_pool f)) 7) = Some f"
proof -
  have "client_step (busy_pool f) (pool_append 7 f (busy_pool f))"
    by (rule pool_append_step) (simp_all add: busy_pool_def ThreadPool_new_def)
  then show "pool_reachable 1 (pool_append 7 f (busy_pool f))" unfolding busy_pool_def by (blast intro: pr_step pr_new ps_client)
qed (simp_all add: pool_append_def busy_pool_def ThreadPool_new_def Task_new_def)

section \<open>Property\<close>

text \<open>
  C4: Whatever is queued is served. From every reachable state of a pool with at least one thread
  that is not being stopped, the workers and the notifications still due take at most \<open>serve_work\<close> steps in every
  interleaving, another step is possible as long as the pool is not at rest, and they do bring
  it to rest: the queue empty, nobody executing, all workers asleep. There, every task ever queued has been
  completed, and, if none was cancelled, the functions called are those of the queued tasks, once each.
\<close>

theorem pool_drains:
  assumes "pool_reachable n s" "\<not> stop s" "workers s \<noteq> []"
  shows "(\<exists>s'. serve_step\<^sup>*\<^sup>* s s' \<and> at_rest s') \<and>
    (\<forall>k s'. (serve_step ^^ k) s s' \<longrightarrow> k \<le> serve_work s \<and> (at_rest s' \<or> (\<exists>s''. serve_step s' s''))) \<and>
    (\<forall>s'. serve_step\<^sup>*\<^sup>* s s' \<and> at_rest s' \<longrightarrow> mset (completed s') = mset (early s) \<and>
      ((\<forall>t. \<not> tk_cancelled (objects s t)) \<longrightarrow> mset (called s') = mset (funcs s (early s))))"
proof (intro conjI allI impI)
  show "\<exists>s'. serve_step\<^sup>*\<^sup>* s s' \<and> at_rest s'" by (rule serve_finishes [OF assms])
next
  fix k s' assume "(serve_step ^^ k) s s'"
  from serve_steps_bound [OF this] have r: "serve_step\<^sup>*\<^sup>* s s'" "serve_work s' + k \<le> serve_work s" by blast+
  then show "k \<le> serve_work s" by simp
  have "pool_reachable n s'" "\<not> stop s'" "workers s' \<noteq> []"
    using serve_reachable [OF r(1) assms(1)] serve_run_keeps [OF r(1)] assms(2,3) by auto
  then show "at_rest s' \<or> (\<exists>s''. serve_step s' s'')" using serve_progress by blast
next
  fix s' assume "serve_step\<^sup>*\<^sup>* s s' \<and> at_rest s'"
  then show "mset (completed s') = mset (early s)" using served_all(1) [OF assms(1,2)] by simp
next
  fix s' assume "serve_step\<^sup>*\<^sup>* s s' \<and> at_rest s'" "\<forall>t. \<not> tk_cancelled (objects s t)"
  then show "mset (called s') = mset (funcs s (early s))" using served_all(2) [OF assms(1,2)] by simp
qed

theorem pool_drains_witness:
  "\<exists>s'. serve_step\<^sup>*\<^sup>* (pool_append 7 (42 :: nat) (busy_pool 42)) s' \<and> at_rest s' \<and> called s' = [42]"
proof -
  let ?s = "pool_append 7 (42 :: nat) (busy_pool 42)"
  note drains = pool_drains [OF busy_appended(1-3) [of "42 :: nat"]]
  from conjunct1 [OF drains] obtain s' where s': "serve_step\<^sup>*\<^sup>* ?s s'" "at_rest s'" by blast
  have "mset (called s') = mset (funcs ?s (early ?s))"
    using conjunct2 [OF conjunct2 [OF drains], rule_format, of s'] s' busy_appended(4) [of "42 :: nat"] by simp
  moreover have "funcs ?s (early ?s) = [42]" by (simp add: funcs_def busy_appended(5,6))
  ultimately show ?thesis using s' by auto
qed

end
