(* ===== verification/Gateway.thy ===== *)
theory Gateway
  imports Tcp_Server Tcp_Client Router Session Decimal Pool_Progress
begin

text \<open>
  The gateway program (\<open>src/example/gateway/gateway.cpp\<close>), which puts the server, the router, the
  session table and the business handlers together. Each packet of any session becomes a task of the thread
  pool that routes it; the router's mutex lets one task run at a time, in an order that the
  workers decide. None of the three handlers calls the router.
\<close>

section \<open>State and handlers\<close>

datatype business = Handle_Login | Handle_Logout | Handle_Data

record gateway =
  gw_server :: tcp_server
  gw_sessions :: session_mgr
  gw_router :: "business router"

definition gateway_router :: "business router" where
  "gateway_router =
     router_reg CMD_DATA Handle_Data (router_reg CMD_LOGOUT Handle_Logout (router_reg CMD_LOGIN Handle_Login Router_new))"

definition login_ok :: "byte list" where
  "login_ok = [0x6C, 0x6F, 0x67, 0x69, 0x6E, 0x5F, 0x6F, 0x6B]"

definition handle_login :: "bool \<Rightarrow> int \<Rightarrow> byte list \<Rightarrow> gateway \<Rightarrow> gateway" where
  "handle_login le sid data g = g\<lparr>gw_server := snd (server_send_to le sid CMD_LOGIN login_ok (gw_server g))\<rparr>"

definition handle_data :: "bool \<Rightarrow> int \<Rightarrow> byte list \<Rightarrow> gateway \<Rightarrow> gateway" where
  "handle_data le sid data g = g\<lparr>gw_server := snd (server_send_to le sid CMD_DATA data (gw_server g))\<rparr>"

definition handle_logout :: "int \<Rightarrow> byte list \<Rightarrow> gateway \<Rightarrow> gateway" where
  "handle_logout sid data g = g\<lparr>gw_sessions := session_remove sid (gw_sessions g)\<rparr>"

fun business_call :: "bool \<Rightarrow> business \<times> int \<times> byte list \<Rightarrow> gateway \<Rightarrow> gateway" where
  "business_call le (Handle_Login, sid, data) g = handle_login le sid data g"
| "business_call le (Handle_Logout, sid, data) g = handle_logout sid data g"
| "business_call le (Handle_Data, sid, data) g = handle_data le sid data g"

text \<open>
  The message handler: it appends a task to the pool, a closure over the session number and the
  packet, which are what the model keeps of it. \<open>t\<close> is the address of the new task object.
\<close>

type_synonym request = "int \<times> proto_packet"

definition gateway_message :: "nat \<Rightarrow> int \<Rightarrow> proto_packet \<Rightarrow> request pool \<Rightarrow> request pool" where
  "gateway_message t sid pkt s = pool_append t (sid, pkt) s"

text \<open>The body of the task, and a run of tasks.\<close>

definition gateway_task :: "bool \<Rightarrow> request \<Rightarrow> gateway \<Rightarrow> gateway" where
  "gateway_task le req g =
     (let (sid, pkt) = req in
      case route (\<lambda>_. False) sid pkt (gw_router g) of
        Deadlock \<Rightarrow> g
      | Finished calls \<Rightarrow> fold (business_call le) calls g)"

definition gateway_tasks :: "bool \<Rightarrow> request list \<Rightarrow> gateway \<Rightarrow> gateway" where
  "gateway_tasks le reqs g = fold (gateway_task le) reqs g"

text \<open>The handlers of the server: the connected handler adds a session, the close handler removes it.\<close>

definition gateway_connected :: "u64 \<Rightarrow> int \<Rightarrow> gateway \<Rightarrow> gateway" where
  "gateway_connected tick sid g = g\<lparr>gw_sessions := snd (session_add sid ''0.0.0.0'' 0 tick (gw_sessions g))\<rparr>"

definition gateway_closed :: "int \<Rightarrow> gateway \<Rightarrow> gateway" where
  "gateway_closed sid g = g\<lparr>gw_sessions := session_remove sid (gw_sessions g)\<rparr>"

definition gateway_new :: "int \<Rightarrow> gateway" where
  "gateway_new port =
     \<lparr>gw_server = set_idle_timeout 30000 (set_heartbeat_interval 10000 (set_close_handler True
        (set_connected_handler True (set_message_handler True (TcpServer_new port 8 30000))))),
      gw_sessions = SessionMgr_new, gw_router = gateway_router\<rparr>"

text \<open>
  The rest of \<open>main\<close>: the port from the command line (with the program name as its first word), the
  start (\<open>Inl\<close> is the exit code), the status that the main loop logs, and the signal handler, whose
  effects are those of the server's \<open>stop\<close>; it then shuts the pool down and exits.
\<close>

definition gateway_port :: "string list \<Rightarrow> int option" where
  "gateway_port argv = (if length argv > 1 then atoi (argv ! 1) else Some 8888)"

definition gateway_main :: "int \<Rightarrow> int \<Rightarrow> int \<Rightarrow> int + gateway" where
  "gateway_main port sock bound =
     (let g = gateway_new port; (ok, sv) = server_start sock bound (gw_server g)
      in if ok then Inr (g\<lparr>gw_server := sv\<rparr>) else Inl 1)"

definition gateway_status :: "gateway \<Rightarrow> nat \<Rightarrow> nat \<times> nat" where
  "gateway_status g queued = (server_session_count (gw_server g), queued)"

definition gateway_signal :: "gateway \<Rightarrow> server_effect list \<times> gateway" where
  "gateway_signal g = (let (es, sv) = server_stop (gw_server g) in (es, g\<lparr>gw_server := sv\<rparr>))"

section \<open>Replies\<close>

definition reply :: "proto_packet \<Rightarrow> proto_packet list" where
  "reply pkt =
     (if p_cmd pkt = CMD_LOGIN then [\<lparr>p_cmd = CMD_LOGIN, p_data = login_ok\<rparr>]
      else if p_cmd pkt = CMD_DATA then [\<lparr>p_cmd = CMD_DATA, p_data = p_data pkt\<rparr>]
      else [])"

lemma reply_encodable: "encodable pkt \<Longrightarrow> q \<in> set (reply pkt) \<Longrightarrow> encodable q"
  by (auto simp: reply_def encodable_def login_ok_def split: if_splits)

lemma find_gateway_router:
  "um_find (r_handlers gateway_router) cmd =
     (if cmd = CMD_DATA then Some Handle_Data else if cmd = CMD_LOGOUT then Some Handle_Logout
      else if cmd = CMD_LOGIN then Some Handle_Login else None)"
  by (simp add: gateway_router_def router_reg_def Router_new_def)

lemma cmd_distinct: "CMD_DATA \<noteq> CMD_LOGOUT" "CMD_DATA \<noteq> CMD_LOGIN" "CMD_LOGOUT \<noteq> CMD_LOGIN"
  by (simp_all add: CMD_DATA_def CMD_LOGOUT_def CMD_LOGIN_def)

definition serves :: "int \<Rightarrow> tcp_connection \<Rightarrow> gateway \<Rightarrow> bool" where
  "serves sid c g \<longleftrightarrow> gw_router g = gateway_router \<and> sid \<in> set (sv_connections (gw_server g)) \<and>
     sv_objects (gw_server g) sid = Some c"

text \<open>The requests of one session.\<close>

definition requests_of :: "int \<Rightarrow> request list \<Rightarrow> proto_packet list" where
  "requests_of sid reqs = map snd (filter (\<lambda>r. fst r = sid) reqs)"

lemma requests_of_simps [simp]:
  "requests_of sid [] = []"
  "requests_of sid ((k, pkt) # reqs) = (if k = sid then [pkt] else []) @ requests_of sid reqs"
  "requests_of sid (xs @ ys) = requests_of sid xs @ requests_of sid ys"
  by (simp_all add: requests_of_def)

lemma mset_requests_of: "mset (requests_of sid reqs) = image_mset snd (filter_mset (\<lambda>r. fst r = sid) (mset reqs))"
  by (simp add: requests_of_def)

lemma gateway_task_serves:
  assumes "serves sid c g"
  shows "serves sid (send_packets le (concat (map reply (requests_of sid [(k, pkt)]))) c) (gateway_task le (k, pkt) g)"
proof (cases "k = sid")
  case True
  then show ?thesis
    using assms cmd_distinct
    by (auto simp: serves_def gateway_task_def route_def find_gateway_router reply_def handle_login_def
        handle_data_def handle_logout_def server_send_to_def split_beta)
next
  case False
  then show ?thesis
    using assms
    by (auto simp: serves_def gateway_task_def route_def find_gateway_router handle_login_def
        handle_data_def handle_logout_def server_send_to_def split_beta split: option.splits)
qed

lemma gateway_tasks_serves:
  "serves sid c g \<Longrightarrow> serves sid (send_packets le (concat (map reply (requests_of sid reqs))) c) (gateway_tasks le reqs g)"
proof (induction reqs arbitrary: c g)
  case (Cons r reqs)
  obtain k pkt where r: "r = (k, pkt)" by (cases r)
  have "send_packets le (qs @ rs) d = send_packets le rs (send_packets le qs d)" for qs rs d
    by (induction qs arbitrary: d) simp_all
  with Cons.IH [OF gateway_task_serves [OF Cons.prems, of le k pkt]] show ?case
    by (simp add: gateway_tasks_def r)
qed (simp add: gateway_tasks_def)

section \<open>The pool of the gateway\<close>

text \<open>
  \<open>gateway_pool ms s\<close>: the read threads have handed the requests \<open>ms\<close> to the message handler, in this order, while the eight workers
  and the notifications went on. Address \<open>t\<close> is where the task for \<open>at t\<close> will be made; nobody cancels these tasks.
\<close>

inductive gateway_pool :: "request list \<Rightarrow> request pool \<Rightarrow> bool" where
  gp_start: "gateway_pool [] (ThreadPool_new 8 (\<lambda>t. Task_new (Some (at t)) NORMAL))"
| gp_message: "gateway_pool ms s \<Longrightarrow> holder s = None \<Longrightarrow> objects s t = Task_new (Some (sid, pkt)) NORMAL \<Longrightarrow>
    gateway_pool (ms @ [(sid, pkt)]) (gateway_message t sid pkt s)"
| gp_serve: "gateway_pool ms s \<Longrightarrow> serve_step s s' \<Longrightarrow> gateway_pool ms s'"

lemma gateway_pool_reachable:
  "gateway_pool ms s \<Longrightarrow> pool_reachable 8 s \<and> \<not> stop s \<and> length (workers s) = 8 \<and> (\<forall>t. \<not> tk_cancelled (objects s t)) \<and>
     funcs s (early s) = ms"
proof (induction rule: gateway_pool.induct)
  case (gp_start at)
  show ?case by (simp add: pr_new) (simp add: ThreadPool_new_def Task_new_def funcs_def)
next
  case (gp_message ms s t sid pkt)
  let ?s = "gateway_message t sid pkt s"
  have "client_step s ?s" unfolding gateway_message_def using gp_message by (intro pool_append_step)
  moreover have o: "objects ?s = objects s" using gp_message(3) by (auto simp: gateway_message_def pool_append_def fun_eq_iff)
  then have "funcs ?s (early ?s) = ms @ [(sid, pkt)]"
    using gp_message by (simp add: funcs_objects [OF o]) (simp add: gateway_message_def pool_append_def funcs_def Task_new_def)
  ultimately show ?case using gp_message o by (auto simp: gateway_message_def pool_append_def intro: pr_step ps_client)
next
  case (gp_serve ms s s')
  then show ?case using serve_keeps [OF gp_serve.hyps(2)] pr_step serve_pool_step funcs_objects [of s' s] by metis
qed

lemma gateway_pool_called:
  assumes "gateway_pool ms s"
  shows "mset (called s) \<subseteq># mset ms" and "at_rest s \<Longrightarrow> mset (called s) = mset ms"
proof -
  note p = gateway_pool_reachable [OF assms]
  have called: "called s = funcs s (completed s)" using exact_inv_reachable [of 8 s] p by (simp add: exact_inv_def)
  have "late s = []" using no_late_reachable [of 8 s] p by blast
  moreover have "dropped s = []"
    using done_inv_reachable [of 8 s] exit_inv_reachable [of 8 s] p by (auto simp: done_inv_def exit_inv_def)
  ultimately have all: "mset (early s) = mset (completed s) + (mset (queue s) + hands (workers s))"
    using task_inv_reachable [of 8 s] p by (simp add: task_inv_def ac_simps)
  obtain rest where "mset rest = mset (queue s) + hands (workers s)" by (metis ex_mset)
  then have "mset (early s) = mset (completed s @ rest)" using all by simp
  then have "mset ms = mset (called s) + mset (funcs s rest)"
    using mset_funcs [of "early s" "completed s @ rest" s] p called by (simp add: funcs_def)
  then show "mset (called s) \<subseteq># mset ms" by simp
  assume "at_rest s"
  then have "mset (early s) = mset (completed s)" using all by (simp add: at_rest_def)
  then show "mset (called s) = mset ms" using mset_funcs [of "early s" "completed s" s] p called by simp
qed

section \<open>The gateway's session table\<close>

text \<open>The gateway's reaction to the effects of its server, in order; \<open>tick\<close> is the clock.\<close>

fun gateway_effect :: "u64 \<Rightarrow> server_effect \<Rightarrow> gateway \<Rightarrow> gateway" where
  "gateway_effect tick (Conn sid (On_Connected k)) g = gateway_connected tick sid g"
| "gateway_effect tick (Server_Close_Handler sid) g = gateway_closed sid g"
| "gateway_effect tick _ g = g"

lemma gateway_effects_sessions:
  "connected_calls es = [] \<Longrightarrow> sessions (gw_sessions g) = [] \<Longrightarrow>
   sessions (gw_sessions (fold (gateway_effect tick) es g)) = []"
proof (induction es arbitrary: g)
  case (Cons e es)
  have e: "connected_calls es = []" "\<not> (\<exists>sid k. e = Conn sid (On_Connected k))"
    using Cons.prems(1) by (auto simp: connected_calls_def split: if_splits)
  have "sessions (gw_sessions (gateway_effect tick e g)) = []"
  proof (cases e)
    case (Conn sid ce)
    with e(2) Cons.prems(2) show ?thesis by (cases ce) auto
  qed (use Cons.prems(2) in \<open>simp_all add: gateway_closed_def session_remove_def\<close>)
  with Cons.IH [OF e(1)] show ?case by simp
qed simp

section \<open>Shutting down\<close>

lemma gateway_server_ok: "server_ok (gw_server (gateway_new port))"
  by (simp add: gateway_new_def server_ok_def TcpServer_new_def set_message_handler_def set_close_handler_def
      set_connected_handler_def set_heartbeat_interval_def set_idle_timeout_def)

lemma gateway_server_closed: "obj_closed (gw_server (gateway_new port)) sid = 0"
  by (simp add: gateway_new_def obj_closed_def TcpServer_new_def set_message_handler_def set_close_handler_def
      set_connected_handler_def set_heartbeat_interval_def set_idle_timeout_def)

text \<open>
  The signal handler of the gateway leaves no connection open: whatever the server did before,
  after it every session in the table has had its socket closed exactly once over the whole run, the
  table is empty and the listening socket is closed. Each call of \<open>close\<close> is one step here;
  \<open>Close_Race\<close> treats calls that overlap.
\<close>

theorem gateway_signal_closes_all:
  assumes "server_trace le ops (gw_server (gateway_new port)) = (es, gw_server g)" "sv_running (gw_server g)"
    and "gateway_signal g = (es', g')"
  shows "sv_connections (gw_server g') = [] \<and> sv_server_sock (gw_server g') = INVALID_SOCKET \<and>
    (\<forall>sid\<in>set (sv_connections (gw_server g)). closed_count sid (es @ es') = 1)"
proof -
  have 1: "step_ok (gw_server (gateway_new port)) (es, gw_server g)"
    using step_ok_server_trace [OF gateway_server_ok, of port le ops] assms(1) by simp
  then have ok: "server_ok (gw_server g)" by (simp add: step_ok_def)
  have st: "server_stop (gw_server g) = (es', gw_server g')"
    using assms(3) by (auto simp: gateway_signal_def split_beta)
  have 2: "step_ok (gw_server g) (es', gw_server g')" using step_ok_stop [OF ok] st by simp
  note stop = server_stop_closes_all [OF ok assms(2) st]
  have "closed_count sid (es @ es') = 1" if "sid \<in> set (sv_connections (gw_server g))" for sid
  proof -
    have "obj_closed (gw_server g') sid = 1" using stop that by (auto simp: obj_closed_def)
    then show ?thesis using 1 2 gateway_server_closed [of port sid] by (auto simp: step_ok_def)
  qed
  with stop show ?thesis by simp
qed

theorem gateway_signal_closes_all_witness:
  "\<exists>g es es' g'. server_trace True [Sv_Start 3 0, Sv_Accept 7 5] (gw_server (gateway_new 80)) = (es, gw_server g) \<and>
     gateway_signal g = (es', g') \<and> closed_count 1 (es @ es') = 1"
proof -
  let ?r = "server_trace True [Sv_Start 3 0, Sv_Accept 7 5] (gw_server (gateway_new 80))"
  let ?g = "(gateway_new 80)\<lparr>gw_server := snd ?r\<rparr>"
  obtain es' g' where e: "gateway_signal ?g = (es', g')" by fastforce
  have r: "?r = (fst ?r, gw_server ?g)" by simp
  have "sv_running (gw_server ?g)" "1 \<in> set (sv_connections (gw_server ?g))"
    by (simp_all add: gateway_new_def server_start_def TcpServer_new_def INVALID_SOCKET_def accept_one_def Let_def
        set_message_handler_def set_close_handler_def set_connected_handler_def set_heartbeat_interval_def set_idle_timeout_def)
  then have "closed_count 1 (fst ?r @ es') = 1"
    using gateway_signal_closes_all [OF r _ e] by blast
  with r e show ?thesis by blast
qed

end
