(* ===== verification/Server_Example.thy ===== *)
theory Server_Example
  imports Gateway
begin

text \<open>
  The server example (\<open>src/example/server/main.cpp\<close>): its set-up, the task made for a packet, which only
  logs, and the signal handler, which both example programs run on whatever thread the
  signal interrupts.
\<close>

section \<open>The program\<close>

definition example_port :: "string list \<Rightarrow> int option" where
  "example_port argv = (if length argv > 1 then atoi (argv ! 1) else Some 8080)"

definition example_server :: "int \<Rightarrow> tcp_server" where
  "example_server port =
     set_idle_timeout 30000 (set_heartbeat_interval 10000 (set_close_handler True
       (set_connected_handler True (set_message_handler True (TcpServer_new port 4 30000)))))"

definition example_main :: "int \<Rightarrow> int \<Rightarrow> int \<Rightarrow> int + tcp_server" where
  "example_main port sock bound =
     (let (ok, sv) = server_start sock bound (example_server port) in if ok then Inr sv else Inl 1)"

text \<open>What the task of a packet logs: session, command and length of the data.\<close>

definition example_task :: "int \<Rightarrow> proto_packet \<Rightarrow> int \<times> u16 \<times> nat" where
  "example_task sid pkt = (sid, p_cmd pkt, length (p_data pkt))"

section \<open>Signals\<close>

text \<open>
  The main thread as a program over \<open>conn_mutex_\<close>: a status report takes the mutex in \<open>session_count\<close>, the
  handler takes it in \<open>stop\<close>. \<open>at\<close> is the point of the body of \<open>session_count\<close> at which the signal
  arrives, \<open>None\<close> between two reports.
\<close>

definition count_body :: "tcp_server action list" where
  "count_body = [Act (\<lambda>s. s)]"

definition stop_scope :: "tcp_server \<Rightarrow> tcp_server" where
  "stop_scope s = (snd (close_objects (sv_connections s) s))\<lparr>sv_connections := []\<rparr>"

definition signal_program :: "tcp_server stmt list" where
  "signal_program = [Guarded [Act stop_scope]]"

definition main_thread :: "nat option \<Rightarrow> tcp_server stmt list" where
  "main_thread at =
     (case at of
        None \<Rightarrow> Guarded count_body # signal_program
      | Some k \<Rightarrow> [Guarded (take k count_body @ while_locked signal_program @ drop k count_body)])"

section \<open>Properties\<close>

text \<open>
  A signal that arrives while the main thread reports its status can hang the server: if
  it interrupts \<open>session_count\<close>, which holds the mutex of the connections, \<open>stop\<close> waits for that mutex
  forever and no other thread gets it again. If it arrives between two reports, the programs of all
  threads can always go on until they are finished.
\<close>

theorem signal_in_status_deadlocks:
  fixes others :: "nat \<Rightarrow> tcp_server stmt list"
  assumes "\<And>u. plain (others u)" "\<And>u. m \<le> u \<Longrightarrow> others u = []" "0 < m"
  shows "(\<forall>k. \<exists>n s. lock_reach (others(0 := main_thread (Some k))) x n s \<and>
      (\<forall>s'. (\<lambda>s s'. \<exists>u. lock_step u s s')\<^sup>*\<^sup>* s s' \<longrightarrow> owner s' = Some 0 \<and> (\<forall>s''. \<not> lock_step 0 s' s''))) \<and>
    (\<forall>n s. lock_reach (others(0 := main_thread None)) x n s \<longrightarrow>
      (\<exists>u s'. lock_step u s s') \<or> (\<forall>u. threads s u = Outside []))"
proof (intro conjI allI impI)
  fix k
  have "(others(0 := main_thread (Some k))) 0 =
      Guarded (map Act (take k [\<lambda>s. s]) @ Relock # Act stop_scope # drop k count_body) # []"
    by (simp add: main_thread_def count_body_def signal_program_def take_map [symmetric])
  from relock_reached [of "others(0 := main_thread (Some k))" 0, OF this]
  show "\<exists>n s. lock_reach (others(0 := main_thread (Some k))) x n s \<and>
      (\<forall>s'. (\<lambda>s s'. \<exists>u. lock_step u s s')\<^sup>*\<^sup>* s s' \<longrightarrow> owner s' = Some 0 \<and> (\<forall>s''. \<not> lock_step 0 s' s''))" .
next
  fix n s
  let ?l = "others(0 := main_thread None)"
  assume "lock_reach ?l x n s"
  moreover have "plain (?l u)" for u
    using assms(1) by (simp add: main_thread_def count_body_def signal_program_def)
  moreover have "?l u = []" if "m \<le> u" for u using assms(2,3) that by simp
  ultimately show "(\<exists>u s'. lock_step u s s') \<or> (\<forall>u. threads s u = Outside [])"
    using plain_threads_finish [of ?l m x n s] by (metis order_le_less)
qed

theorem signal_in_status_deadlocks_witness:
  "\<exists>n s. lock_reach ((\<lambda>_. [])(0 := main_thread (Some 1))) (example_server 80) n s \<and> owner s = Some 0"
  using signal_in_status_deadlocks [of "\<lambda>_. []" 1 "example_server 80"] by fastforce

end
