(* ===== verification/Close_Race.thy ===== *)
theory Close_Race
  imports Tcp_Connection
begin

text \<open>
  \<open>TcpConnection::close\<close> (\<open>src/network/tcp/tcp_connection.cpp\<close>) statement by statement. The read thread
  calls it without a lock, the heartbeat, \<open>stop\<close> and \<open>close_session\<close> of the server call it under
  \<open>conn_mutex_\<close>, and the flag \<open>closed_\<close> is a plain \<open>bool\<close>. Memory accesses are taken one at a
  time in program order. The descriptors of the process are part of the state, because a
  number that was closed is given to the next socket.
\<close>

section \<open>States and steps\<close>

text \<open>Where a thread is: before the test of \<open>closed_\<close>, before each further statement, or done.\<close>

datatype close_pc =
    Outside
  | At_Test
  | At_Store
  | At_Status
  | At_Load
  | At_Close int
  | At_Invalid
  | Left

text \<open>
  Thread 0 is the read thread of the connection, the others are threads of the server. \<open>cr_open\<close>
  gives the socket behind each open descriptor: 0 is the connection's own. \<open>cr_log\<close> records for
  every call of the system's \<open>close\<close> what it closed, \<open>None\<close> when the number was not open.
\<close>

record close_state =
  cr_conn :: tcp_connection
  cr_mutex :: "nat option"
  cr_pc :: "nat \<Rightarrow> close_pc"
  cr_open :: "int \<Rightarrow> nat option"
  cr_log :: "nat option list"

definition close_start :: "tcp_connection \<Rightarrow> (int \<Rightarrow> nat option) \<Rightarrow> close_state" where
  "close_start c fds =
     \<lparr>cr_conn = c, cr_mutex = None, cr_pc = (\<lambda>t. Outside), cr_open = fds(t_sock c := Some 0), cr_log = []\<rparr>"

definition go :: "nat \<Rightarrow> close_pc \<Rightarrow> close_state \<Rightarrow> close_state" where
  "go t p s = s\<lparr>cr_pc := (cr_pc s)(t := p)\<rparr>"

text \<open>A server thread gives the mutex back when its call is over.\<close>

definition leave :: "nat \<Rightarrow> close_state \<Rightarrow> close_state" where
  "leave t s = go t Left (if t = 0 then s else s\<lparr>cr_mutex := None\<rparr>)"

text \<open>\<open>close_socket\<close> of the platform layer calls the system unless the handle is invalid.\<close>

definition close_call :: "int \<Rightarrow> close_state \<Rightarrow> close_state" where
  "close_call fd s =
     (if fd = INVALID_SOCKET then s
      else s\<lparr>cr_log := cr_log s @ [cr_open s fd], cr_open := (cr_open s)(fd := None)\<rparr>)"

inductive close_step :: "nat \<Rightarrow> close_state \<Rightarrow> close_state \<Rightarrow> bool" for t s where
  cr_read: "t = 0 \<Longrightarrow> cr_pc s t = Outside \<Longrightarrow> close_step t s (go t At_Test s)"
| cr_lock: "t \<noteq> 0 \<Longrightarrow> cr_pc s t = Outside \<Longrightarrow> cr_mutex s = None \<Longrightarrow>
    close_step t s (go t At_Test (s\<lparr>cr_mutex := Some t\<rparr>))"
| cr_closed: "cr_pc s t = At_Test \<Longrightarrow> t_closed (cr_conn s) \<Longrightarrow> close_step t s (leave t s)"
| cr_not_closed: "cr_pc s t = At_Test \<Longrightarrow> \<not> t_closed (cr_conn s) \<Longrightarrow> close_step t s (go t At_Store s)"
| cr_store: "cr_pc s t = At_Store \<Longrightarrow>
    close_step t s (go t At_Status (s\<lparr>cr_conn := (cr_conn s)\<lparr>t_closed := True\<rparr>\<rparr>))"
| cr_status: "cr_pc s t = At_Status \<Longrightarrow>
    close_step t s (go t At_Load (s\<lparr>cr_conn := (cr_conn s)\<lparr>t_status := CLOSED\<rparr>\<rparr>))"
| cr_load: "cr_pc s t = At_Load \<Longrightarrow> close_step t s (go t (At_Close (t_sock (cr_conn s))) s)"
| cr_close: "cr_pc s t = At_Close fd \<Longrightarrow> close_step t s (go t At_Invalid (close_call fd s))"
| cr_invalid: "cr_pc s t = At_Invalid \<Longrightarrow>
    close_step t s (leave t (s\<lparr>cr_conn := (cr_conn s)\<lparr>t_sock := INVALID_SOCKET\<rparr>\<rparr>))"
| cr_again: "t \<noteq> 0 \<Longrightarrow> cr_pc s t = Left \<Longrightarrow> close_step t s (go t Outside s)"

inductive_cases close_stepE: "close_step t s s'"

text \<open>Meanwhile other parts of the process open sockets, which get numbers that are free.\<close>

inductive close_reach :: "tcp_connection \<Rightarrow> close_state \<Rightarrow> bool" for c where
  cr_start: "(\<forall>n. fds n \<noteq> Some 0) \<Longrightarrow> close_reach c (close_start c fds)"
| cr_step: "close_reach c s \<Longrightarrow> close_step t s s' \<Longrightarrow> close_reach c s'"
| cr_opened: "close_reach c s \<Longrightarrow> cr_open s fd = None \<Longrightarrow> owner \<noteq> 0 \<Longrightarrow>
    close_reach c (s\<lparr>cr_open := (cr_open s)(fd := Some owner)\<rparr>)"

lemma go_fields [simp]:
  "cr_pc (go t p s) = (cr_pc s)(t := p)" "cr_conn (go t p s) = cr_conn s" "cr_mutex (go t p s) = cr_mutex s"
  "cr_open (go t p s) = cr_open s" "cr_log (go t p s) = cr_log s"
  by (simp_all add: go_def)

lemma leave_fields [simp]:
  "cr_pc (leave t s) = (cr_pc s)(t := Left)" "cr_conn (leave t s) = cr_conn s"
  "cr_mutex (leave t s) = (if t = 0 then cr_mutex s else None)"
  "cr_open (leave t s) = cr_open s" "cr_log (leave t s) = cr_log s"
  by (simp_all add: leave_def)

lemma close_call_fields [simp]:
  "cr_pc (close_call fd s) = cr_pc s" "cr_conn (close_call fd s) = cr_conn s" "cr_mutex (close_call fd s) = cr_mutex s"
  by (simp_all add: close_call_def)

section \<open>Invariants\<close>

text \<open>A thread that has passed the test and has yet to call \<open>close_socket\<close>.\<close>

definition owes :: "close_pc \<Rightarrow> bool" where
  "owes p \<longleftrightarrow> p \<in> {At_Store, At_Status, At_Load} \<or> (\<exists>fd. p = At_Close fd)"

definition closers :: "close_state \<Rightarrow> nat set" where
  "closers s = {t. owes (cr_pc s t)}"

definition busy :: "close_pc \<Rightarrow> bool" where
  "busy p \<longleftrightarrow> p \<noteq> Outside \<and> p \<noteq> Left"

definition mutex_inv :: "close_state \<Rightarrow> bool" where
  "mutex_inv s \<longleftrightarrow> (\<forall>t. t \<noteq> 0 \<longrightarrow> busy (cr_pc s t) = (cr_mutex s = Some t)) \<and> cr_mutex s \<noteq> Some 0"

lemma pc_simps [simp]:
  "\<not> owes Outside" "\<not> owes At_Test" "owes At_Store" "owes At_Status" "owes At_Load" "owes (At_Close fd)"
  "\<not> owes At_Invalid" "\<not> owes Left"
  "\<not> busy Outside" "busy At_Test" "busy At_Store" "busy At_Status" "busy At_Load" "busy (At_Close fd)"
  "busy At_Invalid" "\<not> busy Left"
  by (simp_all add: owes_def busy_def)

lemma owes_busy: "owes p \<Longrightarrow> busy p"
  by (auto simp: owes_def)

text \<open>A step moves one thread, and the mutex changes hands only where the thread enters or leaves.\<close>

lemma close_step_frame:
  assumes "close_step t s s'"
  shows "cr_pc s' = (cr_pc s)(t := cr_pc s' t)"
    and "cr_mutex s' = (if t = 0 \<or> busy (cr_pc s t) = busy (cr_pc s' t) then cr_mutex s
      else if busy (cr_pc s' t) then Some t else None)"
    and "t \<noteq> 0 \<Longrightarrow> busy (cr_pc s' t) \<Longrightarrow> \<not> busy (cr_pc s t) \<Longrightarrow> cr_mutex s = None"
  using assms by (cases rule: close_stepE; simp)+

lemma mutex_inv_step:
  assumes "close_step t s s'" "mutex_inv s"
  shows "mutex_inv s'"
proof -
  have "busy (cr_pc s' u) = (cr_mutex s' = Some u)" if "u \<noteq> 0" for u
  proof (cases "u = t")
    case True
    with that close_step_frame(2) [OF assms(1)] assms(2) show ?thesis by (auto simp: mutex_inv_def)
  next
    case False
    then have pc: "cr_pc s' u = cr_pc s u" using close_step_frame(1) [OF assms(1)] by (metis fun_upd_apply)
    have old: "busy (cr_pc s v) = (cr_mutex s = Some v)" if "v \<noteq> 0" for v using assms(2) that by (simp add: mutex_inv_def)
    show ?thesis
      using False pc old [OF that] old [of t] close_step_frame(2,3) [OF assms(1)] by (auto split: if_splits)
  qed
  moreover have "cr_mutex s' \<noteq> Some 0" using close_step_frame(2) [OF assms(1)] assms(2) by (auto simp: mutex_inv_def)
  ultimately show ?thesis by (simp add: mutex_inv_def)
qed

lemma closers_two: "mutex_inv s \<Longrightarrow> finite (closers s) \<and> card (closers s) \<le> 2"
proof -
  assume inv: "mutex_inv s"
  have "closers s \<subseteq> {0, the (cr_mutex s)}"
  proof
    fix t assume "t \<in> closers s"
    then have "busy (cr_pc s t)" by (simp add: closers_def owes_busy)
    with inv show "t \<in> {0, the (cr_mutex s)}" by (cases "t = 0") (auto simp: mutex_inv_def)
  qed
  moreover have "card {0, the (cr_mutex s)} \<le> 2" by (simp add: card_insert_if)
  ultimately show ?thesis by (meson card_mono finite.emptyI finite.insertI finite_subset order_trans)
qed

lemma closers_step:
  assumes "close_step t s s'"
  shows "closers s' = (if owes (cr_pc s' t) then insert t (closers s) else closers s - {t})"
proof -
  obtain p where "cr_pc s' = (cr_pc s)(t := p)" using close_step_frame(1) [OF assms] by blast
  then show ?thesis by (auto simp: closers_def)
qed

text \<open>
  \<open>fd\<close> is the connection's descriptor. Until the flag is set nobody is past its store; until the
  first call of the system's \<open>close\<close> the descriptor is the connection's; afterwards the
  connection's socket is gone for good.
\<close>

definition close_inv :: "int \<Rightarrow> close_state \<Rightarrow> bool" where
  "close_inv fd s \<longleftrightarrow>
     (\<not> t_closed (cr_conn s) \<longrightarrow> cr_log s = [] \<and> (\<forall>t. owes (cr_pc s t) \<longrightarrow> cr_pc s t = At_Store)) \<and>
     length (cr_log s) + card (closers s) \<le> 2 \<and>
     (t_closed (cr_conn s) \<longrightarrow> cr_log s \<noteq> [] \<or> 0 < card (closers s)) \<and>
     t_sock (cr_conn s) \<in> {fd, INVALID_SOCKET} \<and>
     (\<forall>t n. cr_pc s t = At_Close n \<longrightarrow> n \<in> {fd, INVALID_SOCKET}) \<and>
     (cr_log s = [] \<longrightarrow> t_sock (cr_conn s) = fd \<and> cr_open s fd = Some 0 \<and>
        (\<forall>t. cr_pc s t \<noteq> At_Invalid \<and> cr_pc s t \<noteq> At_Close INVALID_SOCKET)) \<and>
     (\<forall>n. n \<noteq> fd \<or> cr_log s \<noteq> [] \<longrightarrow> cr_open s n \<noteq> Some 0) \<and>
     (cr_log s \<noteq> [] \<longrightarrow> hd (cr_log s) = Some 0 \<and> Some 0 \<notin> set (tl (cr_log s)))"

lemma close_inv_start:
  assumes "\<not> t_closed c" "\<forall>n. fds n \<noteq> Some 0"
  shows "close_inv (t_sock c) (close_start c fds)"
  using assms by (simp add: close_inv_def close_start_def closers_def)

lemma card_closers_step:
  assumes "close_step t s s'" "mutex_inv s"
  shows "card (closers s') + (if owes (cr_pc s t) then 1 else 0) = card (closers s) + (if owes (cr_pc s' t) then 1 else 0)"
proof -
  have fin: "finite (closers s)" using closers_two [OF assms(2)] by blast
  have mem: "t \<in> closers s \<longleftrightarrow> owes (cr_pc s t)" by (simp add: closers_def)
  show ?thesis
    using closers_step [OF assms(1)] fin mem card_Suc_Diff1 [OF fin, of t]
    by (auto simp: insert_absorb)
qed

lemma close_inv_past_store:
  "close_inv fd s \<Longrightarrow> cr_pc s t \<in> {At_Status, At_Load, At_Invalid} \<or> (\<exists>n. cr_pc s t = At_Close n) \<Longrightarrow> t_closed (cr_conn s)"
  unfolding close_inv_def by (metis close_pc.distinct empty_iff insert_iff pc_simps(4-6))

lemma close_inv_step:
  assumes "close_step t s s'" "mutex_inv s" "close_inv fd s" "fd \<noteq> INVALID_SOCKET"
  shows "close_inv fd s'"
proof -
  note card = card_closers_step [OF assms(1,2)] and two = closers_two [OF mutex_inv_step [OF assms(1,2)]]
    and inv = assms(3) [unfolded close_inv_def]
  from assms(1) show ?thesis
  proof (rule close_stepE, goal_cases)
    case (8 n)
    then have closed: "t_closed (cr_conn s)" using close_inv_past_store [OF assms(3), of t] by simp
    show ?case
    proof (cases "n = INVALID_SOCKET")
      case True
      with 8 inv have "cr_log s \<noteq> []" by blast
      with 8 True closed card inv show ?thesis unfolding close_inv_def by (intro conjI) (simp_all add: close_call_def)
    next
      case False
      with 8(2) inv have n: "n = fd" by blast
      have gone: "cr_open s fd = Some 0 \<longleftrightarrow> cr_log s = []" "\<forall>m. m \<noteq> fd \<longrightarrow> cr_open s m \<noteq> Some 0" using inv by blast+
      show ?thesis
      proof (cases "cr_log s = []")
        case True
        with 8 n False closed card inv gone show ?thesis unfolding close_inv_def
          by (intro conjI) (simp_all add: close_call_def)
      next
        case False
        then have len: "0 < length (cr_log s)" by simp
        from 8 card inv have sum: "length (cr_log s) + Suc (card (closers s')) \<le> 2" by simp
        with len have "length (cr_log s) = 1" and none: "card (closers s') = 0" by linarith+
        then have "cr_log s = [Some 0]" using inv by (cases "cr_log s") auto
        moreover then have "Some 0 \<noteq> cr_open s fd" using gone(1) by (metis list.distinct(1))
        ultimately show ?thesis using 8 n \<open>n \<noteq> INVALID_SOCKET\<close> closed none inv unfolding close_inv_def
          by (intro conjI) (simp_all add: close_call_def)
      qed
    qed
  next
    case 5
    then have "t \<in> closers s'" by (simp add: closers_def)
    then have "0 < card (closers s')" using two card_gt_0_iff by blast
    with 5 card inv show ?case unfolding close_inv_def by (intro conjI) simp_all
  next
    case 7
    then have "t_closed (cr_conn s)" using close_inv_past_store [OF assms(3), of t] by simp
    with 7 card inv assms(4) show ?case unfolding close_inv_def by (intro conjI) simp_all
  next
    case 9
    then have "cr_log s \<noteq> []" using inv by blast
    with 9 card inv show ?case unfolding close_inv_def by (intro conjI) simp_all
  next
    case 6
    then have "t_closed (cr_conn s)" using close_inv_past_store [OF assms(3), of t] by simp
    with 6 card inv show ?case unfolding close_inv_def by (intro conjI) simp_all
  qed (use card two inv in \<open>unfold close_inv_def, intro conjI, simp_all\<close>)
qed

lemma close_inv_opened:
  assumes "close_inv fd s" "cr_open s n = None" "owner \<noteq> 0"
  shows "close_inv fd (s\<lparr>cr_open := (cr_open s)(n := Some owner)\<rparr>)"
proof -
  have "fd = n \<longrightarrow> cr_log s \<noteq> []" using assms(1,2) by (auto simp: close_inv_def)
  with assms show ?thesis unfolding close_inv_def closers_def by (intro conjI) simp_all
qed

lemma close_inv_reach:
  assumes "close_reach c s" "\<not> t_closed c" "t_sock c \<noteq> INVALID_SOCKET"
  shows "mutex_inv s \<and> close_inv (t_sock c) s"
  using assms(1)
proof (induction rule: close_reach.induct)
  case (cr_start fds)
  then show ?case using close_inv_start [OF assms(2)] by (simp add: mutex_inv_def close_start_def)
next
  case (cr_step s t s')
  then show ?case
    using mutex_inv_step [OF cr_step.hyps(2)] close_inv_step [OF cr_step.hyps(2) _ _ assms(3)] by simp
next
  case (cr_opened s n owner)
  then show ?case using close_inv_opened [of "t_sock c" s n owner] by (simp add: mutex_inv_def)
qed

section \<open>A call on its own\<close>

text \<open>
  Without another thread in between, a call of \<open>close\<close> is the function \<open>conn_close\<close> of the
  sequential model.
\<close>

lemma close_alone:
  assumes "cr_pc s t = At_Test"
  shows "\<exists>s'. (close_step t)\<^sup>*\<^sup>* s s' \<and> cr_pc s' = (cr_pc s)(t := Left) \<and> cr_conn s' = fst (conn_close (cr_conn s)) \<and>
    cr_log s' = cr_log s @ (if snd (conn_close (cr_conn s)) = [] then [] else [cr_open s (t_sock (cr_conn s))])"
proof (cases "t_closed (cr_conn s)")
  case True
  have "close_step t s (leave t s)" using assms True by (rule cr_closed)
  moreover have "conn_close (cr_conn s) = (cr_conn s, [])" using True by (simp add: conn_close_def)
  ultimately show ?thesis by (intro exI [of _ "leave t s"]) auto
next
  case False
  let ?c = "cr_conn s"
  let ?s1 = "go t At_Store s"
  let ?s2 = "go t At_Status (?s1\<lparr>cr_conn := (cr_conn ?s1)\<lparr>t_closed := True\<rparr>\<rparr>)"
  let ?s3 = "go t At_Load (?s2\<lparr>cr_conn := (cr_conn ?s2)\<lparr>t_status := CLOSED\<rparr>\<rparr>)"
  let ?s4 = "go t (At_Close (t_sock (cr_conn ?s3))) ?s3"
  let ?s5 = "go t At_Invalid (close_call (t_sock ?c) ?s4)"
  let ?s6 = "leave t (?s5\<lparr>cr_conn := (cr_conn ?s5)\<lparr>t_sock := INVALID_SOCKET\<rparr>\<rparr>)"
  have "close_step t s ?s1" using assms False by (rule cr_not_closed)
  moreover have "close_step t ?s1 ?s2" by (rule cr_store) simp
  moreover have "close_step t ?s2 ?s3" by (rule cr_status) simp
  moreover have "close_step t ?s3 ?s4" by (rule cr_load) simp
  moreover have "close_step t ?s4 ?s5" by (rule cr_close) simp
  moreover have "close_step t ?s5 ?s6" by (rule cr_invalid) simp
  ultimately have "(close_step t)\<^sup>*\<^sup>* s ?s6" by (meson converse_rtranclp_into_rtranclp rtranclp.rtrancl_refl)
  moreover have "cr_conn ?s6 = fst (conn_close ?c)" using False by (simp add: conn_close_def)
  moreover have "cr_log ?s6 = cr_log s @ (if snd (conn_close ?c) = [] then [] else [cr_open s (t_sock ?c)])"
    using False by (simp add: conn_close_def close_socket_def close_call_def)
  moreover have "cr_pc ?s6 = (cr_pc s)(t := Left)" by simp
  ultimately show ?thesis by blast
qed

section \<open>Two calls at once\<close>

text \<open>
  The read thread and a server thread both find the connection open. The reader closes the socket,
  its number is given to a new socket, and the server thread closes that one.
\<close>

definition raced :: "tcp_connection \<Rightarrow> nat \<Rightarrow> close_state" where
  "raced c owner =
     \<lparr>cr_conn = c\<lparr>t_closed := True, t_status := CLOSED\<rparr>, cr_mutex = Some 1,
      cr_pc = (\<lambda>t. Outside)(0 := At_Invalid, 1 := At_Invalid), cr_open = (\<lambda>n. None),
      cr_log = [Some 0, Some owner]\<rparr>"

lemma raced_reach:
  assumes "\<not> t_closed c" "t_sock c \<noteq> INVALID_SOCKET" "owner \<noteq> 0"
  shows "close_reach c (raced c owner)"
proof -
  let ?s0 = "close_start c (\<lambda>n. None)" and ?fd = "t_sock c"
  let ?s1 = "go 0 At_Store (go 0 At_Test ?s0)"
  let ?s2 = "go 1 At_Store (go 1 At_Test (?s1\<lparr>cr_mutex := Some 1\<rparr>))"
  let ?s3 = "go 0 At_Status (?s2\<lparr>cr_conn := (cr_conn ?s2)\<lparr>t_closed := True\<rparr>\<rparr>)"
  let ?s4 = "go 0 At_Load (?s3\<lparr>cr_conn := (cr_conn ?s3)\<lparr>t_status := CLOSED\<rparr>\<rparr>)"
  let ?s5 = "go 1 At_Status (?s4\<lparr>cr_conn := (cr_conn ?s4)\<lparr>t_closed := True\<rparr>\<rparr>)"
  let ?s6 = "go 1 At_Load (?s5\<lparr>cr_conn := (cr_conn ?s5)\<lparr>t_status := CLOSED\<rparr>\<rparr>)"
  let ?s7 = "go 0 (At_Close (t_sock (cr_conn ?s6))) ?s6"
  let ?s8 = "go 1 (At_Close (t_sock (cr_conn ?s7))) ?s7"
  let ?s9 = "go 0 At_Invalid (close_call ?fd ?s8)"
  let ?s10 = "?s9\<lparr>cr_open := (cr_open ?s9)(?fd := Some owner)\<rparr>"
  let ?s11 = "go 1 At_Invalid (close_call ?fd ?s10)"
  note start = close_start_def
  have "close_reach c ?s0" by (rule cr_start) simp
  then have "close_reach c (go 0 At_Test ?s0)" by (rule cr_step [OF _ cr_read]) (simp_all add: start)
  then have "close_reach c ?s1" by (rule cr_step [OF _ cr_not_closed]) (simp_all add: start assms(1))
  then have "close_reach c (go 1 At_Test (?s1\<lparr>cr_mutex := Some 1\<rparr>))"
    by (rule cr_step [OF _ cr_lock]) (simp_all add: start)
  then have "close_reach c ?s2" by (rule cr_step [OF _ cr_not_closed]) (simp_all add: start assms(1))
  then have "close_reach c ?s3" by (rule cr_step [OF _ cr_store]) simp
  then have "close_reach c ?s4" by (rule cr_step [OF _ cr_status]) simp
  then have "close_reach c ?s5" by (rule cr_step [OF _ cr_store]) simp
  then have "close_reach c ?s6" by (rule cr_step [OF _ cr_status]) simp
  then have "close_reach c ?s7" by (rule cr_step [OF _ cr_load]) simp
  then have "close_reach c ?s8" by (rule cr_step [OF _ cr_load]) simp
  then have "close_reach c ?s9" by (rule cr_step [OF _ cr_close]) (simp add: start)
  then have "close_reach c ?s10" by (rule cr_opened) (simp_all add: close_call_def assms(2,3))
  then have "close_reach c ?s11" by (rule cr_step [OF _ cr_close]) (simp add: start)
  moreover have "?s11 = raced c owner"
    using assms(2) by (simp add: raced_def start close_call_def go_def fun_upd_twist [of 1 0])
  ultimately show ?thesis by simp
qed

section \<open>Properties\<close>

text \<open>
  C7: Whatever the interleaving of the read thread with the threads of the server, and whatever sockets
  are opened meanwhile, \<open>close\<close> calls the system at most twice for a connection; the first call closes
  the connection's own socket, which is never closed again, and once the flag is set and no call is under
  way that has happened. A call that meets no other has the effect of the sequential
  \<open>conn_close\<close>.
\<close>

theorem close_interleaved:
  assumes "close_reach c s" "\<not> t_closed c" "t_sock c \<noteq> INVALID_SOCKET"
  shows "length (cr_log s) \<le> 2 \<and> (cr_log s \<noteq> [] \<longrightarrow> hd (cr_log s) = Some 0) \<and>
    count_list (cr_log s) (Some 0) \<le> 1 \<and>
    (t_closed (cr_conn s) \<and> (\<forall>t. \<not> busy (cr_pc s t)) \<longrightarrow> count_list (cr_log s) (Some 0) = 1) \<and>
    (\<forall>t. cr_pc s t = At_Test \<longrightarrow> (\<exists>s'. (close_step t)\<^sup>*\<^sup>* s s' \<and> cr_pc s' = (cr_pc s)(t := Left) \<and>
      cr_conn s' = fst (conn_close (cr_conn s))))"
proof -
  from close_inv_reach [OF assms] have inv: "close_inv (t_sock c) s" by blast
  have cnt: "count_list (cr_log s) (Some 0) = (if cr_log s = [] then 0 else 1)"
    using inv by (cases "cr_log s") (auto simp: close_inv_def count_list_0_iff)
  have some: "cr_log s \<noteq> []" if "t_closed (cr_conn s)" "\<forall>t. \<not> busy (cr_pc s t)"
  proof -
    have "closers s = {}" using that(2) owes_busy by (auto simp: closers_def)
    with inv that(1) show ?thesis by (auto simp: close_inv_def)
  qed
  have "\<exists>s'. (close_step t)\<^sup>*\<^sup>* s s' \<and> cr_pc s' = (cr_pc s)(t := Left) \<and> cr_conn s' = fst (conn_close (cr_conn s))"
    if "cr_pc s t = At_Test" for t using close_alone [OF that] by blast
  with inv cnt some show ?thesis by (auto simp: close_inv_def)
qed

theorem close_interleaved_witness:
  "length (cr_log (raced (TcpConnection_new 5 1 0) 9)) \<le> 2 \<and>
   count_list (cr_log (raced (TcpConnection_new 5 1 0) 9)) (Some 0) \<le> 1"
proof -
  have "\<not> t_closed (TcpConnection_new 5 1 0)" "t_sock (TcpConnection_new 5 1 0) \<noteq> INVALID_SOCKET"
    by (simp_all add: TcpConnection_new_def INVALID_SOCKET_def)
  with close_interleaved [OF raced_reach [of "TcpConnection_new 5 1 0" 9]] show ?thesis by simp
qed

text \<open>
  The second call can hit a stranger: every open connection has a run in which \<open>close\<close> closes the socket of
  any other part of the process that was given the connection's number in between.
\<close>

theorem close_race_hits_stranger:
  assumes "\<not> t_closed c" "t_sock c \<noteq> INVALID_SOCKET" "owner \<noteq> 0"
  shows "\<exists>s. close_reach c s \<and> cr_log s = [Some 0, Some owner]"
  using raced_reach [OF assms] by (auto simp: raced_def)

theorem close_race_hits_stranger_witness:
  "\<exists>s. close_reach (TcpConnection_new 5 1 0) s \<and> cr_log s = [Some 0, Some 9]"
  by (rule close_race_hits_stranger) (simp_all add: TcpConnection_new_def INVALID_SOCKET_def)

end
