(* ===== verification/Nonblocking.thy ===== *)
theory Nonblocking
  imports Tcp_Server Event_Loop
begin

text \<open>
  The loops of \<open>TcpConnection\<close> on the sockets that \<open>TcpServer::accept_loop\<close> gives them
  (\<open>src/network/tcp/tcp_server.cpp\<close>): every accepted socket is made non-blocking, and it is added to
  the epoll set for reading and writing. The system side of a socket, which the other
  theories leave open, is a state here: what has arrived, what the send buffer still takes, and
  which descriptors an \<open>epoll_wait\<close> reports. Its behaviour is that of the documented calls.
\<close>

section \<open>Receiving\<close>

record ksock =
  k_in :: "byte list"
  k_eof :: bool
  k_nonblock :: bool

text \<open>\<open>set_nonblocking(client_sock)\<close> in the accept loop.\<close>

definition make_nonblocking :: "ksock \<Rightarrow> ksock" where
  "make_nonblocking k = k\<lparr>k_nonblock := True\<rparr>"

text \<open>
  \<open>recv\<close> with the 8192 bytes of \<open>tmp\<close>. With nothing to read it reports the end of the stream, or, on
  a non-blocking socket, fails with \<open>EAGAIN\<close>; otherwise the thread waits (\<open>None\<close>). At the end of
  the stream \<open>errno\<close> is whatever an earlier call left, \<open>stale\<close> says whether that is \<open>EINTR\<close>.
\<close>

definition recv_call :: "bool \<Rightarrow> u64 \<Rightarrow> ksock \<Rightarrow> read_event option \<times> ksock" where
  "recv_call stale tick k =
     (if k_in k \<noteq> [] then (Some (Recv (take 8192 (k_in k)) tick), k\<lparr>k_in := drop 8192 (k_in k)\<rparr>)
      else if k_eof k then (Some (Recv_Nothing stale), k)
      else if k_nonblock k then (Some (Recv_Nothing False), k)
      else (None, k))"

text \<open>What happens at a socket, in order: bytes arrive, the peer closes, the read thread calls \<open>recv\<close>.\<close>

datatype net_event = Arrive "byte list" | Peer_Closes | Recv_Call bool u64

fun net_run :: "net_event list \<Rightarrow> ksock \<Rightarrow> read_event list \<times> ksock" where
  "net_run [] k = ([], k)"
| "net_run (Arrive d # evs) k = net_run evs (k\<lparr>k_in := k_in k @ d\<rparr>)"
| "net_run (Peer_Closes # evs) k = net_run evs (k\<lparr>k_eof := True\<rparr>)"
| "net_run (Recv_Call stale tick # evs) k =
     (let (r, k1) = recv_call stale tick k; (rs, k2) = net_run evs k1
      in ((case r of None \<Rightarrow> [] | Some ev \<Rightarrow> [ev]) @ rs, k2))"

definition arrived :: "net_event list \<Rightarrow> byte list" where
  "arrived evs = concat (map (\<lambda>ev. case ev of Arrive d \<Rightarrow> d | _ \<Rightarrow> []) evs)"

lemma arrived_simps [simp]:
  "arrived [] = []" "arrived (Arrive d # evs) = d @ arrived evs" "arrived (Peer_Closes # evs) = arrived evs"
  "arrived (Recv_Call b t # evs) = arrived evs"
  by (simp_all add: arrived_def)

lemma net_run_append:
  "net_run (xs @ ys) k = (let (rs, k1) = net_run xs k; (rs', k2) = net_run ys k1 in (rs @ rs', k2))"
proof (induction xs arbitrary: k)
  case (Cons ev xs)
  then show ?case by (cases ev) (simp_all add: split_beta Let_def)
qed simp

lemma recv_events_simps [simp]:
  "recv_events [] = []" "recv_events (x # cs) = Recv (fst x) (snd x) # recv_events cs"
  "recv_events (cs @ ds) = recv_events cs @ recv_events ds"
  by (simp_all add: recv_events_def split_beta)

lemma recv_events_Cons: "ev # evs = recv_events cs \<longleftrightarrow> (\<exists>d t ds. cs = (d, t) # ds \<and> ev = Recv d t \<and> evs = recv_events ds)"
  by (cases cs) (auto simp: recv_events_def)

text \<open>Calls that all found data have read what had arrived, and left the rest in the socket.\<close>

lemma net_run_bytes:
  "net_run evs k = (recv_events cs, k') \<Longrightarrow> concat (map fst cs) @ k_in k' = k_in k @ arrived evs"
proof (induction evs arbitrary: k cs)
  case (Cons ev evs)
  show ?case
  proof (cases ev)
    case (Recv_Call stale tick)
    then show ?thesis
      using Cons.prems Cons.IH [of "snd (recv_call stale tick k)"]
      by (auto simp: recv_call_def recv_events_Cons split_beta Let_def prod_eq_iff split: if_splits)
  qed (use Cons in auto)
qed (simp add: recv_events_def)

lemma net_run_flags: "k_nonblock (snd (net_run evs k)) = k_nonblock k"
proof (induction evs arbitrary: k)
  case (Cons ev evs)
  then show ?case by (cases ev) (simp_all add: recv_call_def split_beta Let_def)
qed simp

section \<open>The read loop in pieces\<close>

lemma read_loop_append:
  "read_loop le (xs @ ys) c =
     (case read_loop le xs c of
        Out_Of_Bounds \<Rightarrow> Out_Of_Bounds
      | Done (True, c', e) \<Rightarrow> Done (True, c', e)
      | Done (False, c', e) \<Rightarrow>
          (case read_loop le ys c' of
             Out_Of_Bounds \<Rightarrow> Out_Of_Bounds
           | Done (fin, c'', e') \<Rightarrow> Done (fin, c'', e @ e')))"
proof (induction xs arbitrary: c)
  case Nil
  show ?case
  proof (cases "t_closed c")
    case True
    then show ?thesis by (cases ys) (simp_all add: split_beta Let_def)
  qed (simp split: access.splits)
next
  case (Cons ev xs)
  show ?case by (cases ev) (auto simp: Cons.IH split_beta Let_def split: access.splits bool.splits)
qed

lemma read_pause:
  "\<not> t_closed c \<Longrightarrow> t_on_close c \<Longrightarrow> t_sock c \<noteq> INVALID_SOCKET \<Longrightarrow> read_loop le (Recv_Nothing False # evs) c =
   Done (True, c\<lparr>t_closed := True, t_status := CLOSED, t_sock := INVALID_SOCKET\<rparr>,
     [Close_Socket (t_sock c), On_Close (t_session_id c)])"
  by (simp add: read_exit_def conn_close_def close_socket_def)

section \<open>Sending\<close>

text \<open>
  The results of \<open>send\<close> for one message on a non-blocking socket whose buffer has \<open>room\<close> bytes left:
  what fits is taken, and with a full buffer the call fails with \<open>EAGAIN\<close>.
\<close>

definition send_calls :: "nat \<Rightarrow> byte list \<Rightarrow> send_result list" where
  "send_calls room msg =
     (if length msg \<le> room then [Sent (length msg)]
      else if room = 0 then [Send_Failed False] else [Sent room, Send_Failed False])"

text \<open>The calls for a queue of messages while the peer reads nothing.\<close>

fun send_turns :: "nat \<Rightarrow> byte list list \<Rightarrow> send_result list list" where
  "send_turns room [] = []"
| "send_turns room (msg # q) = send_calls room msg # send_turns (room - length msg) q"

lemma send_calls_loop:
  "msg \<noteq> [] \<Longrightarrow> send_loop msg (send_calls room msg) = Some (length msg \<le> room, take room msg)"
proof (cases "length msg \<le> room \<or> room = 0")
  case True
  assume "msg \<noteq> []"
  with True show ?thesis by (cases msg) (auto simp: send_calls_def)
next
  case False
  assume "msg \<noteq> []"
  moreover obtain b bs where "drop room msg = b # bs" using False by (cases "drop room msg") auto
  ultimately show ?thesis using False by (cases msg) (auto simp: send_calls_def)
qed

lemma write_loop_room:
  assumes "\<not> t_closed c" "t_status c = CONNECTED" "[] \<notin> set q" "t_write_queue c = q"
  shows "\<exists>c'. write_loop (send_turns room q) c = Some (length (concat q) \<le> room, c', take room (concat q)) \<and>
    \<not> t_closed c' \<and> (length (concat q) \<le> room \<longrightarrow> t_write_queue c' = [])"
  using assms
proof (induction q arbitrary: c room)
  case (Cons m q)
  let ?c = "c\<lparr>t_write_queue := q\<rparr>"
  have m: "m \<noteq> []" using Cons.prems(3) by auto
  have turn: "write_turn c (send_calls room m) = Some (length m \<le> room, ?c, take room m)"
    using Cons.prems m send_calls_loop [OF m, of room] by (simp add: write_turn_def send_raw_def Let_def)
  show ?case
  proof (cases "length m \<le> room")
    case True
    obtain c' where "write_loop (send_turns (room - length m) q) ?c =
        Some (length (concat q) \<le> room - length m, c', take (room - length m) (concat q))"
      "\<not> t_closed c'" "length (concat q) \<le> room - length m \<longrightarrow> t_write_queue c' = []"
      using Cons.IH [of ?c "room - length m"] Cons.prems by auto
    with turn True Cons.prems(1) show ?thesis by (intro exI [of _ c']) auto
  next
    case False
    with turn Cons.prems(1) show ?thesis by (intro exI [of _ ?c]) auto
  qed
qed simp

section \<open>Waiting\<close>

text \<open>
  The epoll set of the accept loop: the listening socket for reading, and every accepted socket
  for reading and writing, both level-triggered.
\<close>

definition listen_interest :: "int \<Rightarrow> (int \<times> u32) list" where
  "listen_interest server_sock = [(server_sock, EPOLLIN)]"

definition add_client :: "int \<Rightarrow> (int \<times> u32) list \<Rightarrow> (int \<times> u32) list" where
  "add_client client_sock ep = ep @ [(client_sock, EPOLLIN OR EPOLLOUT)]"

text \<open>What \<open>epoll_wait\<close> reports, at most 64 descriptors; it waits only while it has nothing to report.\<close>

definition epoll_ready :: "(int \<Rightarrow> bool) \<Rightarrow> (int \<Rightarrow> bool) \<Rightarrow> (int \<times> u32) list \<Rightarrow> int list" where
  "epoll_ready readable writable ep =
     take 64 (map fst (filter (\<lambda>(fd, ev). ev AND EPOLLIN \<noteq> 0 \<and> readable fd \<or> ev AND EPOLLOUT \<noteq> 0 \<and> writable fd) ep))"

text \<open>
  One turn of the accept loop; \<open>sock\<close> and \<open>tick\<close> belong to the \<open>accept\<close> it may make. The sockets that the turn registers join the
  list of interest.
\<close>

fun register :: "server_effect \<Rightarrow> (int \<times> u32) list \<Rightarrow> (int \<times> u32) list" where
  "register (server_effect.Epoll_Add epfd fd) ep = add_client fd ep"
| "register _ ep = ep"

definition epoll_turn :: "(int \<Rightarrow> bool) \<Rightarrow> (int \<Rightarrow> bool) \<Rightarrow> int \<Rightarrow> u64 \<Rightarrow> tcp_server \<times> (int \<times> u32) list \<Rightarrow>
    server_effect list \<times> tcp_server \<times> (int \<times> u32) list" where
  "epoll_turn readable writable sock tick se =
     (let (s, ep) = se;
          fds = epoll_ready readable writable ep;
          (e, s') = accept_ready (map (\<lambda>fd. (fd, sock, tick)) fds) s
      in (e, s', fold register e ep))"

lemma accept_ready_clients:
  "\<forall>ev\<in>set evs. fst ev \<noteq> sv_server_sock s \<Longrightarrow> accept_ready evs s = ([], s)"
  by (induction evs) auto

lemma client_ready:
  assumes "(fd, EPOLLIN OR EPOLLOUT) \<in> set ep" "writable fd"
  shows "epoll_ready readable writable ep \<noteq> []"
proof -
  have "(fd, EPOLLIN OR EPOLLOUT) \<in> set (filter (\<lambda>(fd, ev). ev AND EPOLLIN \<noteq> 0 \<and> readable fd \<or> ev AND EPOLLOUT \<noteq> 0 \<and> writable fd) ep)"
    using assms by (simp add: epoll_defs)
  then have "filter (\<lambda>(fd, ev). ev AND EPOLLIN \<noteq> 0 \<and> readable fd \<or> ev AND EPOLLOUT \<noteq> 0 \<and> writable fd) ep \<noteq> []"
    by (metis empty_iff empty_set)
  then show ?thesis by (simp only: epoll_ready_def take_eq_Nil map_is_Nil_conv) simp
qed

section \<open>Properties\<close>

text \<open>
  C16: A connection ends at the first pause of its client. Bytes arrive in any portions and the read
  thread has read all of them, \<open>burst\<close>; its next \<open>recv\<close> finds nothing, fails with \<open>EAGAIN\<close>, and the loop
  takes that for an error. The packets received completely until then have been delivered, the socket is closed
  and the close callback called, whatever the client sends later (\<open>rest\<close>). On a blocking
  socket the same events keep the connection open.
\<close>

theorem nonblocking_closes_at_pause:
  assumes "net_run burst k = (recv_events cs, k')" "k_in k' = []" "\<not> k_eof k'"
    and "\<forall>p\<in>set ps. encodable p" "k_in k @ arrived burst @ unsent = concat (map (proto_encode le') ps)"
    and "t_read_buf c = []" "t_on_message c" "t_on_close c" "\<not> t_closed c" "t_sock c \<noteq> INVALID_SOCKET"
  shows "\<exists>recvd todo b time. ps = recvd @ todo \<and> b @ unsent = concat (map (proto_encode le') todo) \<and>
    (todo \<noteq> [] \<longrightarrow> length b < length (proto_encode le' (hd todo))) \<and>
    (k_nonblock k \<longrightarrow> read_loop le (fst (net_run (burst @ Recv_Call stale tick # rest) k)) c =
      Done (True, c\<lparr>t_read_buf := b, t_last_recv_time := time, t_closed := True, t_status := CLOSED, t_sock := INVALID_SOCKET\<rparr>,
        map (On_Message (t_session_id c)) recvd @ [Close_Socket (t_sock c), On_Close (t_session_id c)])) \<and>
    (\<not> k_nonblock k \<longrightarrow> read_loop le (fst (net_run (burst @ [Recv_Call stale tick]) k)) c =
      Done (False, c\<lparr>t_read_buf := b, t_last_recv_time := time\<rparr>, map (On_Message (t_session_id c)) recvd))"
proof -
  have "concat (map fst cs) = k_in k @ arrived burst" using net_run_bytes [OF assms(1)] assms(2) by simp
  then have "concat (map fst cs) @ unsent = concat (map (proto_encode le') ps)" using assms(5) by simp
  then obtain recvd todo b where
    d: "ps = recvd @ todo" "b @ unsent = concat (map (proto_encode le') todo)"
      "todo \<noteq> [] \<longrightarrow> length b < length (proto_encode le' (hd todo))"
      "feed (conn_drain le) [] (map fst cs) = Done (map (\<lambda>p. p) recvd, b)"
    using conn.feed_exact [OF assms(4), of "map fst cs" unsent le' le] by blast
  define time where "time = (if cs = [] then t_last_recv_time c else snd (last cs))"
  let ?c = "c\<lparr>t_read_buf := b, t_last_recv_time := time\<rparr>"
  have first: "read_loop le (recv_events cs) c = Done (False, ?c, map (On_Message (t_session_id c)) recvd)"
    using read_loop_feed [OF assms(7,9), of le cs] assms(6) d(4) by (simp add: time_def)
  have nb: "k_nonblock k' = k_nonblock k" using net_run_flags [of burst k] assms(1) by simp
  have pause: "recv_call stale tick k' = (if k_nonblock k then (Some (Recv_Nothing False), k') else (None, k'))"
    using assms(2,3) nb by (simp add: recv_call_def)
  have "read_loop le (fst (net_run (burst @ Recv_Call stale tick # rest) k)) c =
      Done (True, ?c\<lparr>t_closed := True, t_status := CLOSED, t_sock := INVALID_SOCKET\<rparr>,
        map (On_Message (t_session_id c)) recvd @ [Close_Socket (t_sock c), On_Close (t_session_id c)])" if "k_nonblock k"
  proof -
    have "fst (net_run (burst @ Recv_Call stale tick # rest) k) =
        recv_events cs @ Recv_Nothing False # fst (net_run rest k')"
      using assms(1) pause that by (simp add: net_run_append split_beta Let_def)
    then show ?thesis
      using first read_pause [of ?c le "fst (net_run rest k')"] assms(8-10)
      by (simp add: read_loop_append del: read_loop.simps)
  qed
  moreover have "fst (net_run (burst @ [Recv_Call stale tick]) k) = recv_events cs" if "\<not> k_nonblock k"
    using assms(1) pause that by (simp add: net_run_append)
  ultimately show ?thesis
    using d(1-3) first by (intro exI [of _ recvd] exI [of _ todo] exI [of _ b] exI [of _ time]) simp
qed

theorem nonblocking_closes_at_pause_witness:
  defines "p \<equiv> \<lparr>p_cmd = 4, p_data = [7]\<rparr>"
    and "c \<equiv> TcpConnection_new 5 1 0\<lparr>t_on_message := True, t_on_close := True\<rparr>"
    and "k \<equiv> make_nonblocking \<lparr>k_in = [], k_eof = False, k_nonblock = False\<rparr>"
  shows "\<exists>c'. t_closed c' \<and> read_loop True (fst (net_run
      ([Arrive [0, 0, 0, 7, 0, 4, 7], Recv_Call False 3] @ Recv_Call False 4 # [Arrive [0, 0, 0, 7, 0, 4, 7], Recv_Call False 5]) k)) c =
    Done (True, c', [On_Message 1 p, Close_Socket 5, On_Close 1])"
proof -
  have "net_run [Arrive [0, 0, 0, 7, 0, 4, 7], Recv_Call False 3] k =
      (recv_events [([0, 0, 0, 7, 0, 4, 7], 3)], k)"
    by (simp add: k_def make_nonblocking_def recv_call_def)
  note pause = nonblocking_closes_at_pause [OF this, of "[p]" "[]" True c True False 4 "[Arrive [0, 0, 0, 7, 0, 4, 7], Recv_Call False 5]"]
  have k: "k_in k = []" "\<not> k_eof k" "k_nonblock k" by (simp_all add: k_def make_nonblocking_def)
  have c: "t_read_buf c = []" "t_on_message c" "t_on_close c" "\<not> t_closed c" "t_sock c = 5" "t_session_id c = 1"
    by (simp_all add: c_def TcpConnection_new_def)
  have "\<forall>q\<in>set [p]. encodable q" by (simp add: p_def encodable_def)
  moreover have "concat (map (proto_encode True) [p]) = [0, 0, 0, 7, 0, 4, 7]"
    by (simp add: p_def wire be32_def be16_def)
  ultimately obtain recvd todo b time where
    r: "[p] = recvd @ todo" "b = concat (map (proto_encode True) todo)" "todo \<noteq> [] \<longrightarrow> length b < length (proto_encode True (hd todo))" and
    loop: "read_loop True (fst (net_run ([Arrive [0, 0, 0, 7, 0, 4, 7], Recv_Call False 3] @ Recv_Call False 4 # [Arrive [0, 0, 0, 7, 0, 4, 7], Recv_Call False 5]) k)) c =
      Done (True, c\<lparr>t_read_buf := b, t_last_recv_time := time, t_closed := True, t_status := CLOSED, t_sock := INVALID_SOCKET\<rparr>,
        map (On_Message 1) recvd @ [Close_Socket 5, On_Close 1])"
    using pause k c by (auto simp: INVALID_SOCKET_def)
  have "todo = []" using r by (cases todo) auto
  with r(1) loop show ?thesis by auto
qed

text \<open>
  A client that has sent nothing by the time its read thread makes the first call is thrown out: its socket
  is closed, and the end of the reader takes the session out of the table.
\<close>

theorem silent_client_is_dropped:
  assumes "server_ok s" "sock \<noteq> INVALID_SOCKET" "accept_one sock tick s = (e, s1)" "k_in k = []" "\<not> k_eof k"
  shows "\<exists>c c'. sv_objects s1 (sv_next_session_id s) = Some c \<and> t_closed c' \<and>
    read_loop le (fst (net_run (Recv_Call stale now # rest) (make_nonblocking k))) c =
      Done (True, c', [Close_Socket sock, On_Close (sv_next_session_id s)]) \<and>
    sv_next_session_id s \<notin> set (sv_connections (snd (reader_ends (sv_next_session_id s) s1)))"
proof -
  let ?sid = "sv_next_session_id s"
  let ?c = "set_on_close True (set_on_message (sv_on_message s) (TcpConnection_new sock ?sid tick))"
  let ?k = "make_nonblocking k"
  have obj: "sv_objects s1 ?sid = Some ?c" using assms(2,3) by (auto simp: accept_one_def Let_def)
  have c: "\<not> t_closed ?c" "t_on_close ?c" "t_sock ?c = sock" "t_session_id ?c = ?sid"
    by (simp_all add: TcpConnection_new_def set_on_close_def set_on_message_def)
  have "recv_call stale now ?k = (Some (Recv_Nothing False), ?k)"
    using assms(4,5) by (simp add: recv_call_def make_nonblocking_def)
  then have "fst (net_run (Recv_Call stale now # rest) ?k) = Recv_Nothing False # fst (net_run rest ?k)"
    by (simp add: split_beta Let_def)
  moreover have "?sid \<notin> set (sv_connections (snd (reader_ends ?sid s1)))"
    using obj by (simp add: reader_ends_def session_closed_def close_object_table split_beta Let_def)
  ultimately show ?thesis
    using read_pause [OF c(1,2), of le "fst (net_run rest ?k)"] c(3,4) assms(2) obj
    by (intro exI [of _ ?c] exI [of _ "?c\<lparr>t_closed := True, t_status := CLOSED, t_sock := INVALID_SOCKET\<rparr>"])
      (simp del: read_loop.simps net_run.simps)
qed

theorem silent_client_is_dropped_witness:
  "\<exists>c c'. sv_objects (snd (accept_one 7 5 (TcpServer_new 80 4 30))) 1 = Some c \<and> t_closed c' \<and>
    read_loop True (fst (net_run [Recv_Call False 6, Arrive [1]] (make_nonblocking \<lparr>k_in = [], k_eof = False, k_nonblock = False\<rparr>))) c =
      Done (True, c', [Close_Socket 7, On_Close 1])"
  using silent_client_is_dropped [OF server_ok_new, of 7 5 80 4 30 "fst (accept_one 7 5 (TcpServer_new 80 4 30))"
      "snd (accept_one 7 5 (TcpServer_new 80 4 30))" "\<lparr>k_in = [], k_eof = False, k_nonblock = False\<rparr>" True False 6 "[Arrive [1]]"]
  by (simp add: INVALID_SOCKET_def TcpServer_new_def del: read_loop.simps net_run.simps) blast

text \<open>
  C24: A client that reads slowly silences its connection. While the peer takes nothing, the write thread hands
  over exactly what the send buffer has room for, cutting a packet in two, and ends for good as soon
  as the queue is longer than that, with the connection left open; \<open>send_packet\<close> then still
  reports success for packets that nobody sends.
\<close>

theorem full_buffer_ends_writer:
  assumes "\<not> t_closed c" "t_status c = CONNECTED" "t_write_queue c = []"
    and "room < length (concat (map (proto_encode le) ps))"
  shows "\<exists>c'. write_loop (send_turns room (map (proto_encode le) ps)) (send_packets le ps c) =
      Some (False, c', take room (concat (map (proto_encode le) ps))) \<and>
    \<not> t_closed c' \<and> fst (send_packet le cmd data c')"
proof -
  let ?c = "send_packets le ps c"
  have c: "\<not> t_closed ?c" "t_status ?c = CONNECTED" "t_write_queue ?c = map (proto_encode le) ps"
    using assms(1-3) by (simp_all add: send_packets_queue)
  have "proto_encode le p \<noteq> []" for p using length_proto_encode [of le p] by (metis add_gr_0 length_greater_0_conv zero_less_numeral)
  then have "[] \<notin> set (map (proto_encode le) ps)" by (metis ex_map_conv)
  from write_loop_room [OF c(1,2) this c(3), of room] assms(4) show ?thesis by (auto simp: send_packet_def)
qed

theorem full_buffer_ends_writer_witness:
  defines "p \<equiv> \<lparr>p_cmd = 4, p_data = [7]\<rparr>"
  shows "\<exists>c'. write_loop (send_turns 9 (map (proto_encode True) [p, p])) (send_packets True [p, p] (TcpConnection_new 5 1 0)) =
      Some (False, c', [0, 0, 0, 7, 0, 4, 7, 0, 0]) \<and> \<not> t_closed c'"
proof -
  have "concat (map (proto_encode True) [p, p]) = [0, 0, 0, 7, 0, 4, 7, 0, 0, 0, 7, 0, 4, 7]"
    by (simp add: p_def wire be32_def be16_def)
  with full_buffer_ends_writer [of "TcpConnection_new 5 1 0" 9 True "[p, p]"] show ?thesis
    by (auto simp: TcpConnection_new_def simp del: write_loop.simps send_turns.simps send_packets.simps list.map concat.simps)
qed

text \<open>
  The accept loop spins: as long as one accepted socket has room in its send buffer, \<open>epoll_wait\<close> never
  waits, and with nobody connecting its turns do nothing.
\<close>

theorem accept_loop_spins:
  assumes "(fd, EPOLLIN OR EPOLLOUT) \<in> set ep" "writable fd" "\<not> readable (sv_server_sock s)"
    and "\<And>n ev. (n, ev) \<in> set ep \<Longrightarrow> n = sv_server_sock s \<Longrightarrow> ev = EPOLLIN"
  shows "epoll_ready readable writable ep \<noteq> [] \<and> epoll_turn readable writable sock tick (s, ep) = ([], s, ep)"
proof -
  have no: "sv_server_sock s \<notin> set (epoll_ready readable writable ep)"
  proof
    assume "sv_server_sock s \<in> set (epoll_ready readable writable ep)"
    then obtain ev where ev: "(sv_server_sock s, ev) \<in> set ep"
      "ev AND EPOLLIN \<noteq> 0 \<and> readable (sv_server_sock s) \<or> ev AND EPOLLOUT \<noteq> 0 \<and> writable (sv_server_sock s)"
      by (auto simp: epoll_ready_def dest!: in_set_takeD)
    with assms(3) assms(4) [OF ev(1)] show False by (simp add: epoll_defs)
  qed
  then have "accept_ready (map (\<lambda>fd. (fd, sock, tick)) (epoll_ready readable writable ep)) s = ([], s)"
    by (intro accept_ready_clients) auto
  with no client_ready [of fd ep writable readable, OF assms(1,2)] show ?thesis by (simp add: epoll_turn_def)
qed

theorem accept_loop_spins_witness:
  "epoll_turn (\<lambda>n. False) (\<lambda>n. True) 9 3
     (TcpServer_new 80 4 30\<lparr>sv_server_sock := 4\<rparr>, add_client 7 (listen_interest 4)) =
   ([], TcpServer_new 80 4 30\<lparr>sv_server_sock := 4\<rparr>, add_client 7 (listen_interest 4))"
  using accept_loop_spins [of 7 "add_client 7 (listen_interest 4)" "\<lambda>n. True" "\<lambda>n. False" "TcpServer_new 80 4 30\<lparr>sv_server_sock := 4\<rparr>"]
  by (auto simp: add_client_def listen_interest_def)

end
