(* ===== verification/Lifetimes.thy ===== *)
theory Lifetimes
  imports Tcp_Server Tcp_Client Thread_Pool Monitor Logger Session Db_Pool Object_Pool Timer_Loop
begin

text \<open>
  The ends of objects: the destructors of the classes under \<open>src/\<close>, each of which calls the operation that
  stops its object, and the threads that may still use an object then. \<open>TcpServer\<close> starts its accept
  and heartbeat threads detached and never waits for them (\<open>src/network/tcp/tcp_server.cpp\<close>).
\<close>

section \<open>Destructors\<close>

definition conn_destroy :: "tcp_connection \<Rightarrow> tcp_connection \<times> conn_effect list" where
  "conn_destroy c = conn_close c"

definition server_destroy :: "tcp_server \<Rightarrow> server_effect list \<times> tcp_server" where
  "server_destroy s = server_stop s"

definition client_destroy :: "bool \<Rightarrow> tcp_client \<Rightarrow> (client_effect list \<times> tcp_client) option" where
  "client_destroy woken c = cl_disconnect woken c"

definition logger_destroy :: "log_env \<Rightarrow> bool \<Rightarrow> logger \<Rightarrow> log_out list \<times> logger" where
  "logger_destroy env drains s = log_shutdown env drains s"

definition monitor_destroy :: "services \<Rightarrow> services" where
  "monitor_destroy v = stop_http_server (stop_logging v)"

definition session_mgr_destroy :: "session_mgr \<Rightarrow> session_mgr" where
  "session_mgr_destroy s = session_shutdown s"

definition db_pool_destroy :: "db_pool \<Rightarrow> db_pool" where
  "db_pool_destroy s = db_close s"

definition object_pool_destroy :: "object_pool \<Rightarrow> object_pool" where
  "object_pool_destroy s = obj_clear s"

definition timer_loop_destroy :: "'c timer_loop \<Rightarrow> 'c timer_loop" where
  "timer_loop_destroy s = tl_stop s"

text \<open>
  The destructor of the thread pool starts a \<open>shutdown\<close> unless the stop flag is set. If the flag is set by a stop
  that is still under way on another thread, the vector of threads is destroyed with threads in
  it that nobody has joined, which terminates the program.
\<close>

datatype pool_end = Shuts_Down | Clean | Terminates

definition pool_destroy :: "'f pool \<Rightarrow> pool_end" where
  "pool_destroy s =
     (if \<not> stop s then Shuts_Down
      else if stopper s \<in> {Shutdown_Done, Now_Done} \<or> workers s = [] then Clean else Terminates)"

lemma pool_destroy_after_stop:
  "pool_reachable n s \<Longrightarrow> stopper s \<in> {Shutdown_Done, Now_Done} \<Longrightarrow> pool_destroy s = Clean"
  using exit_inv_reachable by (fastforce simp: pool_destroy_def exit_inv_def)

lemma server_stopped: "\<not> sv_running (snd (server_stop s))"
  by (simp add: server_stop_def split_beta Let_def)

lemma client_stopped: "cl_disconnect woken c = Some (es, c') \<Longrightarrow> \<not> cl_running c'"
  by (auto simp: cl_disconnect_def cl_read_exit_def split_beta Let_def split: if_splits)

section \<open>Threads of the server\<close>

text \<open>
  Where the accept and the heartbeat thread are: the accept thread before it creates its epoll
  descriptor, before the test of \<open>running_\<close>, in a call of the
  system that uses nothing of the server (\<open>epoll_wait\<close> and \<open>sleep_ms\<close>), before the rest of the
  loop body, or at their end.
\<close>

datatype loop_pc = Starting | At_Running | In_System | At_Body | Ended

text \<open>
  \<open>lt_alive\<close> says whether the server object exists, \<open>lt_readers\<close> how many read threads have
  yet to run the close callback, which uses the server. \<open>lt_fault\<close> records that a thread has
  used the object after its end.
\<close>

record server_life =
  lt_alive :: bool
  lt_running :: bool
  lt_accept :: loop_pc
  lt_heartbeat :: loop_pc
  lt_readers :: nat
  lt_fault :: bool

definition life_start :: server_life where
  "life_start = \<lparr>lt_alive = True, lt_running = True, lt_accept = Starting, lt_heartbeat = At_Running,
     lt_readers = 0, lt_fault = False\<rparr>"

definition touch :: "server_life \<Rightarrow> server_life" where
  "touch s = s\<lparr>lt_fault := lt_fault s \<or> \<not> lt_alive s\<rparr>"

text \<open>
  Where the calls of the system can lead. The accept thread stores the new epoll descriptor in the server and ends if
  it could not be created; \<open>epoll_wait\<close> reports ready descriptors, is interrupted and called again, or fails, as after
  \<open>stop\<close> has closed the descriptor, and ends the thread.
\<close>

fun accept_next :: "bool \<Rightarrow> loop_pc \<Rightarrow> loop_pc list" where
  "accept_next running Starting = [At_Running, Ended]"
| "accept_next running At_Running = (if running then [In_System] else [Ended])"
| "accept_next running In_System = [At_Body, At_Running, Ended]"
| "accept_next running At_Body = [At_Running]"
| "accept_next running Ended = []"

fun heartbeat_next :: "bool \<Rightarrow> loop_pc \<Rightarrow> loop_pc list" where
  "heartbeat_next running At_Running = (if running then [In_System] else [Ended])"
| "heartbeat_next running In_System = [At_Body]"
| "heartbeat_next running At_Body = [At_Running]"
| "heartbeat_next running _ = []"

definition touch_at :: "loop_pc \<Rightarrow> server_life \<Rightarrow> server_life" where
  "touch_at pc s = (if pc = In_System then s else touch s)"

text \<open>The destructor calls \<open>stop\<close> and waits for nobody.\<close>

inductive life_step :: "server_life \<Rightarrow> server_life \<Rightarrow> bool" for s where
  life_accept: "pc \<in> set (accept_next (lt_running s) (lt_accept s)) \<Longrightarrow>
    life_step s ((touch_at (lt_accept s) s)\<lparr>lt_accept := pc\<rparr>)"
| life_heartbeat: "pc \<in> set (heartbeat_next (lt_running s) (lt_heartbeat s)) \<Longrightarrow>
    life_step s ((touch_at (lt_heartbeat s) s)\<lparr>lt_heartbeat := pc\<rparr>)"
| life_session: "lt_accept s = At_Body \<Longrightarrow> life_step s ((touch s)\<lparr>lt_readers := lt_readers s + 1\<rparr>)"
| life_reader: "0 < lt_readers s \<Longrightarrow> life_step s ((touch s)\<lparr>lt_readers := lt_readers s - 1\<rparr>)"
| life_stop: "lt_alive s \<Longrightarrow> life_step s (s\<lparr>lt_running := False\<rparr>)"
| life_destroy: "lt_alive s \<Longrightarrow> life_step s (s\<lparr>lt_running := False, lt_alive := False\<rparr>)"

inductive life_reach :: "server_life \<Rightarrow> bool" where
  life_init: "life_reach life_start"
| life_next: "life_reach s \<Longrightarrow> life_step s s' \<Longrightarrow> life_reach s'"

section \<open>Properties\<close>

text \<open>
  A destructor after the operation that stops the object has nothing left to do: no descriptor is closed
  and no callback called a second time, the service threads of the monitor have been joined, and the thread pool
  is destroyed cleanly after either kind of stop has returned.
\<close>

theorem destructors_after_stop:
  assumes "services_ok v" "pool_reachable n s" "stopper s \<in> {Shutdown_Done, Now_Done}" "cl_disconnect woken cl = Some (es, cl')"
  shows "snd (conn_destroy (fst (conn_close c))) = [] \<and> fst (server_destroy (snd (server_stop sv))) = [] \<and>
    client_destroy woken cl' = Some ([], cl') \<and>
    \<not> sv_logging_joinable (monitor_destroy v) \<and> \<not> sv_http_joinable (monitor_destroy v) \<and> pool_destroy s = Clean"
  using services_stopped [OF assms(1)] pool_destroy_after_stop [OF assms(2,3)] server_stopped [of sv] client_stopped [OF assms(4)]
  by (auto simp: conn_destroy_def conn_close_def server_destroy_def client_destroy_def monitor_destroy_def
      server_stop_def [of "snd (server_stop sv)"] cl_disconnect_def [of woken cl'])

theorem destructors_after_stop_witness:
  "\<not> sv_logging_joinable (monitor_destroy services_new) \<and> pool_destroy lone_done = Clean"
  using destructors_after_stop [of services_new 1 lone_done True "TcpClient_new ''h'' 80" "[]" "TcpClient_new ''h'' 80"] lone_done_reachable
  by (simp add: services_ok_def services_new_def lone_done_def cl_disconnect_def TcpClient_new_def)

text \<open>
  A pool destroyed while \<open>shutdown_now\<close> is still joining on another thread terminates the program.
\<close>

theorem pool_destroyed_during_stop: "\<exists>s::nat pool. pool_reachable 1 s \<and> pool_destroy s = Terminates"
  using lone_now_reachable by (intro exI [of _ lone_now]) (simp add: lone_now_def lone_defs pool_destroy_def)

text \<open>
  The threads of a server can outlive it. The destructor stops the server and does not wait, so there is a run
  in which the heartbeat thread, asleep at that moment, uses the destroyed object when it wakes up.
\<close>

theorem server_threads_outlive_server: "\<exists>s. life_reach s \<and> lt_fault s"
proof -
  let ?s1 = "(touch_at At_Running life_start)\<lparr>lt_heartbeat := In_System\<rparr>"
  let ?s2 = "?s1\<lparr>lt_running := False, lt_alive := False\<rparr>"
  let ?s3 = "?s2\<lparr>lt_heartbeat := At_Body\<rparr>"
  let ?s4 = "(touch_at At_Body ?s3)\<lparr>lt_heartbeat := At_Running\<rparr>"
  have "life_step life_start ?s1" using life_heartbeat [of In_System life_start] by (simp add: life_start_def)
  then have 1: "life_reach ?s1" by (rule life_next [OF life_init])
  have "life_step ?s1 ?s2" by (rule life_destroy) (simp add: life_start_def touch_at_def touch_def)
  with 1 have 2: "life_reach ?s2" by (rule life_next)
  have "life_step ?s2 ?s3" using life_heartbeat [of At_Body ?s2] by (simp add: touch_at_def)
  with 2 have 3: "life_reach ?s3" by (rule life_next)
  have "life_step ?s3 ?s4" using life_heartbeat [of At_Running ?s3] by simp
  with 3 have "life_reach ?s4" by (rule life_next)
  moreover have "lt_fault ?s4" by (simp add: touch_at_def touch_def life_start_def)
  ultimately show ?thesis by blast
qed

end
