(* ===== verification/Transport.thy ===== *)
theory Transport
  imports Tcp_Client
begin

text \<open>
  The two directions of a connection, end to end, for any results of \<open>recv\<close> and \<open>send\<close>: the read loop of the server's connection
  delivers exactly the packets that it has received completely, and the read loop of the client delivers a prefix of what
  the server queued, all of it once the write thread has emptied the queue and the bytes have arrived. The
  programs built on the server use these two lemmas.
\<close>

section \<open>From the client to the server\<close>

text \<open>The data that the read loop takes in: what \<open>recv\<close> returns until the loop ends.\<close>

fun chunks :: "read_event list \<Rightarrow> byte list list" where
  "chunks [] = []"
| "chunks (Recv d t # evs) = d # chunks evs"
| "chunks (Recv_Nothing eintr # evs) = (if eintr then chunks evs else [])"
| "chunks (Closed_Elsewhere # evs) = []"

abbreviation received :: "read_event list \<Rightarrow> byte list" where
  "received evs \<equiv> concat (chunks evs)"

lemma chunks_recv_events [simp]: "chunks (recv_events cs) = map fst cs"
  by (induction cs) (auto simp: recv_events_def)

lemma read_exit_messages:
  "messages (snd (read_exit c)) = [] \<and> t_read_buf (fst (read_exit c)) = t_read_buf c \<and>
   t_write_queue (fst (read_exit c)) = t_write_queue c \<and> t_session_id (fst (read_exit c)) = t_session_id c"
  by (simp add: read_exit_def conn_close_def close_socket_def)

lemma read_loop_closed: "t_closed c \<Longrightarrow> read_loop le evs c = Done (True, fst (read_exit c), snd (read_exit c))"
  by (cases evs) (simp_all add: split_beta)

text \<open>A connection that has changed in nothing but its reading.\<close>

definition read_only :: "tcp_connection \<Rightarrow> tcp_connection \<Rightarrow> bool" where
  "read_only c c' \<longleftrightarrow> t_write_queue c' = t_write_queue c \<and> t_session_id c' = t_session_id c"

lemma read_loop_chunks:
  assumes "t_on_message c" "\<not> t_closed c" "feed (conn_drain le) (t_read_buf c) (chunks evs) = Done (ps, b)"
  shows "\<exists>fin c' es. read_loop le evs c = Done (fin, c', es) \<and> messages es = ps \<and> t_read_buf c' = b \<and> read_only c c'"
  using assms
proof (induction evs arbitrary: c ps rule: chunks.induct)
  case (2 d t evs)
  obtain ps1 b1 where d: "conn_drain le (t_read_buf c @ d) = Done (ps1, b1)"
    using "2.prems"(3) by (auto split: access.splits)
  then obtain ps2 where f: "feed (conn_drain le) b1 (chunks evs) = Done (ps2, b)" and ps: "ps = ps1 @ ps2"
    using "2.prems"(3) by (auto simp: add_msgs_def split: access.splits)
  let ?c = "c\<lparr>t_last_recv_time := t, t_read_buf := b1\<rparr>"
  obtain fin c' es where "read_loop le evs ?c = Done (fin, c', es)" "messages es = ps2" "t_read_buf c' = b" "read_only ?c c'"
    using "2.IH" [of ?c ps2] "2.prems"(1,2) f by auto
  with d "2.prems"(1,2) ps show ?case by (simp add: process_all_drain read_only_def)
next
  case (3 eintr evs)
  then show ?case using read_exit_messages [of c] by (cases eintr; cases "read_exit c") (auto simp: read_only_def)
next
  case (4 evs)
  obtain c' e where c': "conn_close c = (c', e)" by fastforce
  then have "t_closed c'" "messages e = []" "t_read_buf c' = t_read_buf c" "read_only c c'"
    using "4.prems"(2) by (auto simp: conn_close_def close_socket_def read_only_def)
  with c' "4.prems" read_loop_closed [of c' le evs] read_exit_messages [of c'] show ?case
    by (cases "read_exit c'") (auto simp: read_only_def)
qed (auto simp: read_only_def)

lemma requests_reach_server:
  assumes "\<forall>p\<in>set ps. encodable p" "received evs @ unread = concat (map (proto_encode lc) ps)"
    and "t_read_buf c = []" "t_on_message c" "\<not> t_closed c"
  obtains fin c1 es later where "read_loop ls evs c = Done (fin, c1, es)" "ps = messages es @ later"
    "t_read_buf c1 @ unread = concat (map (proto_encode lc) later)"
    "later \<noteq> [] \<Longrightarrow> length (t_read_buf c1) < length (proto_encode lc (hd later))" "read_only c c1"
proof -
  obtain ps1 ps2 w where d: "ps = ps1 @ ps2" "w @ unread = concat (map (proto_encode lc) ps2)"
    "feed (conn_drain ls) [] (chunks evs) = Done (map (\<lambda>p. p) ps1, w)"
    "ps2 \<noteq> [] \<longrightarrow> length w < length (proto_encode lc (hd ps2))"
    using conn.feed_exact [OF assms(1,2), of ls] by blast
  then have "feed (conn_drain ls) (t_read_buf c) (chunks evs) = Done (ps1, w)" using assms(3) by simp
  from read_loop_chunks [OF assms(4,5) this] d that show ?thesis by blast
qed

section \<open>From the server to the client\<close>

text \<open>Whatever the calls of \<open>send\<close> return, the write loop hands over a prefix of the queue.\<close>

lemma write_turn_prefix:
  assumes "write_turn c rs = Some (False, c', out)"
  shows "\<exists>w. out @ w = concat (t_write_queue c)"
proof (cases "t_write_queue c")
  case (Cons m q)
  show ?thesis
  proof (cases "send_raw (c\<lparr>t_write_queue := q\<rparr>) m rs = Some (False, out)")
    case True
    then have "\<exists>rest. m = out @ rest" using send_loop_False [of m rs out] by (auto simp: send_raw_def split: if_splits)
    with Cons show ?thesis by auto
  next
    case False
    with Cons assms show ?thesis by (auto simp: write_turn_def Let_def split: if_splits option.splits)
  qed
qed (use assms in \<open>auto simp: write_turn_def split: if_splits\<close>)

lemma write_loop_prefix: "write_loop rss c = Some (go, c', out) \<Longrightarrow> \<exists>w. out @ w = concat (t_write_queue c)"
proof (induction rss arbitrary: c out)
  case (Cons rs rss)
  show ?case
  proof (cases "t_closed c")
    case False
    with Cons.prems obtain g1 c1 o1 where 1: "write_turn c rs = Some (g1, c1, o1)" by (auto split: option.splits)
    show ?thesis
    proof (cases g1)
      case True
      with 1 False Cons.prems obtain o2 where 2: "write_loop rss c1 = Some (go, c', o2)" "out = o1 @ o2"
        by (auto split: option.splits)
      from Cons.IH [OF 2(1)] obtain w where "o2 @ w = concat (t_write_queue c1)" ..
      with write_turn_conserves [of c rs c1 o1] 1 True 2(2) show ?thesis by auto
    next
      case g1: False
      with 1 False Cons.prems have "write_turn c rs = Some (False, c', out)" by simp
      then show ?thesis by (rule write_turn_prefix)
    qed
  qed (use Cons.prems in simp)
qed simp

lemma replies_reach_client:
  assumes "\<forall>p\<in>set rs. encodable p" "t_write_queue c = []"
    and "write_loop rss (send_packets ls rs c) = Some (go, c3, out)" "concat ds @ under_way = out"
    and "cl_read_buf d = []" "cl_on_message d" "cl_connected d"
  shows "\<exists>got lost b. rs = got @ lost \<and>
    cl_read_loop lc (map Cl_Recv ds) d = Some (Done (False, d\<lparr>cl_read_buf := b\<rparr>, map (Cl_Message \<circ> p_data) got)) \<and>
    (go \<and> t_write_queue c3 = [] \<and> under_way = [] \<longrightarrow> lost = [] \<and> b = [])"
proof -
  have q: "concat (t_write_queue (send_packets ls rs c)) = concat (map (proto_encode ls) rs)"
    using assms(2) by (simp add: send_packets_queue)
  obtain w where w: "out @ w = concat (map (proto_encode ls) rs)" using write_loop_prefix [OF assms(3)] q by auto
  then have "concat ds @ (under_way @ w) = concat (map (proto_encode ls) rs)" using assms(4) by auto
  then obtain got lost b where r: "rs = got @ lost" "b @ under_way @ w = concat (map (proto_encode ls) lost)"
    "feed (cl_drain lc) [] ds = Done (map p_data got, b)"
    "lost \<noteq> [] \<longrightarrow> length b < length (proto_encode ls (hd lost))"
    using client.feed_exact [OF assms(1), of ds "under_way @ w" ls lc] by blast
  have "cl_read_loop lc (map Cl_Recv ds) d = Some (Done (False, d\<lparr>cl_read_buf := b\<rparr>, map Cl_Message (map p_data got)))"
    using assms(5-7) r(3) by (intro cl_read_feed) simp_all
  moreover have "lost = [] \<and> b = []" if "go" "t_write_queue c3 = []" "under_way = []"
  proof -
    have "out = concat (map (proto_encode ls) rs)"
      using write_loop_conserves [of rss "send_packets ls rs c" c3 out] assms(3) that(1,2) q by simp
    with w that(3) r(2) have "b = concat (map (proto_encode ls) lost)" by simp
    with r(4) show ?thesis by (cases lost) auto
  qed
  ultimately show ?thesis using r(1) by (intro exI [of _ got] exI [of _ lost] exI [of _ b]) auto
qed

lemma send_packets_append: "send_packets le (ps @ qs) c = send_packets le qs (send_packets le ps c)"
  by (induction ps arbitrary: c) simp_all

end
