(* ===== verification/Test_Programs.thy ===== *)
theory Test_Programs
  imports Transport Tcp_Server Pool_Progress
begin

text \<open>
  The programs under \<open>src/test/\<close> that exercise the network and the thread pool: the echo server of
  \<open>tcp_test.cpp\<close> and the counter of \<open>threadpool_test.cpp\<close>. Logging is left out.
\<close>

section \<open>The echo server\<close>

definition echo_prefix :: "byte list" where
  "echo_prefix = [0x65, 0x63, 0x68, 0x6F, 0x3A, 0x20]"

definition echo_server :: tcp_server where
  "echo_server = set_close_handler True (set_message_handler True (set_connected_handler True (TcpServer_new 9999 4 30000)))"

definition echo_main :: "int \<Rightarrow> int \<Rightarrow> int + tcp_server" where
  "echo_main sock bound = (let (ok, s) = server_start sock bound echo_server in if ok then Inr s else Inl 1)"

text \<open>The message handler, which runs on the read thread of the connection.\<close>

definition echo_handler :: "bool \<Rightarrow> int \<Rightarrow> proto_packet \<Rightarrow> tcp_server \<Rightarrow> tcp_server" where
  "echo_handler le sid pkt s = snd (server_send_to le sid (p_cmd pkt) (echo_prefix @ p_data pkt) s)"

definition echo :: "proto_packet \<Rightarrow> proto_packet" where
  "echo pkt = \<lparr>p_cmd = p_cmd pkt, p_data = echo_prefix @ p_data pkt\<rparr>"

lemma echo_handlers:
  assumes "sid \<in> set (sv_connections s)" "sv_objects s sid = Some c"
  shows "sv_objects (fold (echo_handler le sid) ps s) sid = Some (send_packets le (map echo ps) c)"
  using assms
proof (induction ps arbitrary: s c)
  case (Cons p ps)
  let ?s = "echo_handler le sid p s"
  have "sid \<in> set (sv_connections ?s)"
    "sv_objects ?s sid = Some (snd (send_packet le (p_cmd p) (echo_prefix @ p_data p) c))"
    using Cons.prems by (simp_all add: echo_handler_def server_send_to_def send_packet_def)
  from Cons.IH [OF this] show ?case by (simp add: echo_def)
qed simp

section \<open>The counter\<close>

text \<open>
  Task \<open>i\<close> adds one to the counter, so the counter is the number of functions called. \<open>counter_reach k s\<close>: the
  main thread has appended the tasks below \<open>k\<close>, while workers and notifications went on.
\<close>

definition counter_objects :: "nat \<Rightarrow> nat task" where
  "counter_objects i = Task_new (Some i) NORMAL"

definition counter :: "nat pool \<Rightarrow> nat" where
  "counter s = length (called s)"

inductive counter_reach :: "nat \<Rightarrow> nat pool \<Rightarrow> bool" where
  ct_start: "counter_reach 0 (ThreadPool_new 4 counter_objects)"
| ct_append: "counter_reach k s \<Longrightarrow> holder s = None \<Longrightarrow> counter_reach (Suc k) (pool_append k k s)"
| ct_serve: "counter_reach k s \<Longrightarrow> serve_step s s' \<Longrightarrow> counter_reach k s'"

lemma counter_reach_pool:
  "counter_reach k s \<Longrightarrow> pool_reachable 4 s \<and> \<not> stop s \<and> length (workers s) = 4 \<and> objects s = counter_objects \<and> early s = [0..<k]"
proof (induction rule: counter_reach.induct)
  case ct_start
  show ?case by (simp add: pr_new) (simp add: ThreadPool_new_def)
next
  case (ct_append k s)
  then have "client_step s (pool_append k k s)"
    by (intro pool_append_step) (simp_all add: counter_objects_def)
  with ct_append show ?case
    by (auto simp: pool_append_def counter_objects_def fun_eq_iff intro: pr_step ps_client)
next
  case (ct_serve k s s')
  then show ?case using serve_keeps [OF ct_serve.hyps(2)] pr_step serve_pool_step by metis
qed

lemma counter_run: "serve_step\<^sup>*\<^sup>* s s' \<Longrightarrow> counter_reach k s \<Longrightarrow> counter_reach k s'"
  by (induction rule: rtranclp_induct) (auto intro: ct_serve)

lemma counter_funcs: "objects s = counter_objects \<Longrightarrow> funcs s ts = ts"
  by (induction ts) (simp_all add: funcs_def counter_objects_def Task_new_def)

lemma counter_called:
  assumes "counter_reach k s"
  shows "mset (called s) \<subseteq># mset [0..<k]" and "at_rest s \<Longrightarrow> mset (called s) = mset [0..<k]"
proof -
  note p = counter_reach_pool [OF assms]
  have "\<not> tk_cancelled (objects s t)" for t using p by (simp add: counter_objects_def Task_new_def)
  then have called: "called s = completed s"
    using exact_inv_reachable [of 4 s] p counter_funcs [of s "completed s"] by (simp add: exact_inv_def)
  have all: "mset [0..<k] + mset (late s) = mset (queue s) + hands (workers s) + mset (completed s) + mset (dropped s)"
    using task_inv_reachable [of 4 s] p by (simp add: task_inv_def)
  moreover have "late s = []" using no_late_reachable [of 4 s] p by blast
  moreover have "dropped s = []"
    using done_inv_reachable [of 4 s] exit_inv_reachable [of 4 s] p by (auto simp: done_inv_def exit_inv_def)
  ultimately have "mset [0..<k] = mset (queue s) + hands (workers s) + mset (called s)" using called by simp
  then show "mset (called s) \<subseteq># mset [0..<k]" "at_rest s \<Longrightarrow> mset (called s) = mset [0..<k]"
    by (simp_all add: at_rest_def)
qed

section \<open>Properties\<close>

text \<open>
  C17: The echo test, for any results of \<open>recv\<close> and \<open>send\<close>: the handler runs once for each packet that the server has
  received completely, in order, and for no other. From the bytes handed over and arrived so far the client has received a prefix of the
  bodies of these packets in order, each with \<open>echo: \<close> in front, and all of them when the write queue was emptied without an error
  and no byte is under way. The bodies may not exceed what the
  length field of the answer can hold.
\<close>

theorem echo_test_answers:
  assumes "\<forall>p\<in>set ps. encodable p \<and> encodable (echo p)" "received evs @ unread = concat (map (proto_encode lc) ps)"
    and "t_read_buf c = []" "t_write_queue c = []" "t_on_message c" "\<not> t_closed c"
    and "read_loop ls evs c = Done (fin, c1, es)"
    and "t_session_id c \<in> set (sv_connections s)" "sv_objects s (t_session_id c) = Some c1"
    and "sv_objects (fold (echo_handler ls (t_session_id c)) (messages es) s) (t_session_id c) = Some c2"
    and "write_loop rss c2 = Some (go, c3, out)" "concat ds @ under_way = out"
    and "cl_read_buf d = []" "cl_on_message d" "cl_connected d"
  shows "(\<exists>later. ps = messages es @ later \<and> t_read_buf c1 @ unread = concat (map (proto_encode lc) later) \<and>
      (later \<noteq> [] \<longrightarrow> length (t_read_buf c1) < length (proto_encode lc (hd later)))) \<and>
    (\<exists>got lost b. messages es = got @ lost \<and>
      cl_read_loop lc (map Cl_Recv ds) d = Some (Done (False, d\<lparr>cl_read_buf := b\<rparr>, map (\<lambda>p. Cl_Message (echo_prefix @ p_data p)) got)) \<and>
      (go \<and> t_write_queue c3 = [] \<and> under_way = [] \<longrightarrow> lost = [] \<and> b = []))"
proof -
  have enc: "\<forall>p\<in>set ps. encodable p" using assms(1) by blast
  obtain fin' c1' es' later where "read_loop ls evs c = Done (fin', c1', es')" "ps = messages es' @ later"
    "t_read_buf c1' @ unread = concat (map (proto_encode lc) later)"
    "later \<noteq> [] \<Longrightarrow> length (t_read_buf c1') < length (proto_encode lc (hd later))" "read_only c c1'"
    by (rule requests_reach_server [OF enc assms(2,3,5,6)]) blast
  with assms(7) have r: "ps = messages es @ later" "t_read_buf c1 @ unread = concat (map (proto_encode lc) later)"
    "later \<noteq> [] \<Longrightarrow> length (t_read_buf c1) < length (proto_encode lc (hd later))" "t_write_queue c1 = []"
    using assms(4) by (auto simp: read_only_def)
  have c2: "c2 = send_packets ls (map echo (messages es)) c1" using echo_handlers [OF assms(8,9), of ls "messages es"] assms(10) by simp
  have "\<forall>p\<in>set (map echo (messages es)). encodable p" using assms(1) r(1) by auto
  from replies_reach_client [OF this r(4) assms(11) [unfolded c2] assms(12-15), of lc]
  obtain got lost b where g: "map echo (messages es) = got @ lost"
    "cl_read_loop lc (map Cl_Recv ds) d = Some (Done (False, d\<lparr>cl_read_buf := b\<rparr>, map (Cl_Message \<circ> p_data) got))"
    "go \<and> t_write_queue c3 = [] \<and> under_way = [] \<longrightarrow> lost = [] \<and> b = []" by blast
  from g(1) obtain got' lost' where m: "messages es = got' @ lost'" "got = map echo got'" "lost = map echo lost'"
    by (metis map_eq_append_conv)
  then have "map (Cl_Message \<circ> p_data) got = map (\<lambda>p. Cl_Message (echo_prefix @ p_data p)) got'" by (simp add: echo_def)
  with g(2,3) m have "\<exists>got lost b. messages es = got @ lost \<and>
      cl_read_loop lc (map Cl_Recv ds) d = Some (Done (False, d\<lparr>cl_read_buf := b\<rparr>, map (\<lambda>p. Cl_Message (echo_prefix @ p_data p)) got)) \<and>
      (go \<and> t_write_queue c3 = [] \<and> under_way = [] \<longrightarrow> lost = [] \<and> b = [])"
    by (intro exI [of _ got'] exI [of _ lost'] exI [of _ b]) simp
  with r(1-3) show ?thesis by blast
qed

text \<open>
  The thread pool test counts to twenty: in every interleaving of the appends with the workers the counter
  never exceeds the number of appended tasks, and once all twenty are appended the pool
  takes at most \<open>serve_work\<close> further steps to come to rest with the counter at twenty, having run
  each task once. The loop of the test that waits for the counter ends.
\<close>

theorem threadpool_test_counts:
  assumes "counter_reach 20 s"
  shows "(\<exists>s'. serve_step\<^sup>*\<^sup>* s s' \<and> at_rest s') \<and>
    (\<forall>k s'. (serve_step ^^ k) s s' \<longrightarrow> k \<le> serve_work s \<and> counter s' \<le> 20 \<and> (counter s' = 20 \<or> (\<exists>s''. serve_step s' s''))) \<and>
    (\<forall>s'. serve_step\<^sup>*\<^sup>* s s' \<and> at_rest s' \<longrightarrow> counter s' = 20 \<and> set (called s') = {0..<20} \<and> distinct (called s'))"
proof (intro conjI allI impI)
  have p: "pool_reachable 4 s" "\<not> stop s" "workers s \<noteq> []" using counter_reach_pool [OF assms] by auto
  show "\<exists>s'. serve_step\<^sup>*\<^sup>* s s' \<and> at_rest s'" by (rule serve_finishes [OF p])
  fix k s' assume "(serve_step ^^ k) s s'"
  from serve_steps_bound [OF this] have r: "serve_step\<^sup>*\<^sup>* s s'" "k \<le> serve_work s" by auto
  then show "k \<le> serve_work s" by blast
  have c: "counter_reach 20 s'" by (rule counter_run [OF r(1) assms])
  then show "counter s' \<le> 20" using size_mset_mono [OF counter_called(1) [OF c]] by (simp add: counter_def)
  have "pool_reachable 4 s'" "\<not> stop s'" "workers s' \<noteq> []" using counter_reach_pool [OF c] by auto
  moreover have "counter s' = 20" if "at_rest s'"
    using arg_cong [OF counter_called(2) [OF c that], of size] by (simp add: counter_def)
  ultimately show "counter s' = 20 \<or> (\<exists>s''. serve_step s' s'')" using serve_progress by blast
next
  fix s' assume a: "serve_step\<^sup>*\<^sup>* s s' \<and> at_rest s'"
  then have m: "mset (called s') = mset [0..<20]" using counter_called(2) [OF counter_run [OF _ assms]] by blast
  from arg_cong [OF m, of size] show "counter s' = 20" by (simp add: counter_def)
  from arg_cong [OF m, of set_mset] show "set (called s') = {0..<20}" by (simp add: atLeast_upt)
  show "distinct (called s')" using mset_eq_imp_distinct_iff [OF m] by simp
qed

text \<open>All tasks appended before any worker has run.\<close>

lemma counter_appended: "counter_reach k (fold (\<lambda>i. pool_append i i) [0..<k] (ThreadPool_new 4 counter_objects)) \<and>
    holder (fold (\<lambda>i. pool_append i i) [0..<k] (ThreadPool_new 4 counter_objects)) = None"
proof (induction k)
  case 0
  show ?case by (simp add: ct_start) (simp add: ThreadPool_new_def)
next
  case (Suc k)
  have "holder (pool_append k k s) = holder s" for s :: "nat pool" by (simp add: pool_append_def)
  with Suc ct_append show ?case by simp
qed

theorem threadpool_test_counts_witness:
  "\<exists>s'. serve_step\<^sup>*\<^sup>* (fold (\<lambda>i. pool_append i i) [0..<20] (ThreadPool_new 4 counter_objects)) s' \<and> counter s' = 20"
  using threadpool_test_counts [OF conjunct1 [OF counter_appended]] by blast

text \<open>A client that sends the body \<open>a\<close> gets \<open>echo: a\<close> back.\<close>

theorem echo_test_answers_witness:
  defines "p \<equiv> \<lparr>p_cmd = 4, p_data = [0x61]\<rparr>"
    and "c \<equiv> TcpConnection_new 5 1 0\<lparr>t_on_message := True\<rparr>"
    and "d \<equiv> TcpClient_new ''h'' 9999\<lparr>cl_on_message := True, cl_connected := True\<rparr>"
  shows "cl_read_loop True (map Cl_Recv [[0, 0, 0, 13], [0, 4, 0x65, 0x63, 0x68, 0x6F, 0x3A, 0x20, 0x61]]) d =
    Some (Done (False, d, [Cl_Message [0x65, 0x63, 0x68, 0x6F, 0x3A, 0x20, 0x61]]))"
proof -
  let ?cs = "[([0, 0, 0, 7, 0, 4, 0x61 :: byte], 1 :: u64)]"
  let ?c1 = "c\<lparr>t_last_recv_time := 1\<rparr>"
  let ?s = "echo_server\<lparr>sv_connections := [1], sv_objects := [1 \<mapsto> ?c1]\<rparr>"
  let ?out = "[0, 0, 0, 13, 0, 4, 0x65, 0x63, 0x68, 0x6F, 0x3A, 0x20, 0x61] :: byte list"
  have enc: "\<forall>q\<in>set [p]. encodable q \<and> encodable (echo q)" by (simp add: p_def encodable_def echo_def echo_prefix_def)
  have bytes: "concat (map (proto_encode True) [p]) = [0, 0, 0, 7, 0, 4, 0x61]" "proto_encode True (echo p) = ?out"
    by (simp_all add: p_def echo_def echo_prefix_def wire be32_def be16_def)
  have c: "t_read_buf c = []" "t_write_queue c = []" "t_on_message c" "\<not> t_closed c" "t_session_id c = 1"
    by (simp_all add: c_def TcpConnection_new_def)
  have "feed (conn_drain True) [] (map fst ?cs) = Done ([p], [])"
    using conn.feed_all [of "[p]" "map fst ?cs" True True] bytes(1) enc by simp
  then have read: "read_loop True (recv_events ?cs) c = Done (False, ?c1, [On_Message 1 p])"
    using read_loop_feed [OF c(3,4), of True ?cs] c by (simp add: c_def TcpConnection_new_def)
  have "sv_objects (fold (echo_handler True 1) [p] ?s) 1 = Some (send_packets True (map echo [p]) ?c1)"
    by (rule echo_handlers) simp_all
  then have obj: "sv_objects (fold (echo_handler True (t_session_id c)) (messages [On_Message 1 p]) ?s) (t_session_id c) =
      Some (?c1\<lparr>t_write_queue := [?out]\<rparr>)"
    using c bytes(2) by (simp add: send_packets_queue)
  have "write_loop [[Sent 13]] (?c1\<lparr>t_write_queue := [?out]\<rparr>) = Some (True, ?c1, ?out)"
    by (simp add: write_turn_def send_raw_def c_def TcpConnection_new_def Let_def)
  note sent = this
  have recv: "received (recv_events ?cs) @ [] = concat (map (proto_encode True) [p])" using bytes(1) by simp
  note run = echo_test_answers [OF enc recv c(1-4) read _ _ obj sent,
      of "[[0, 0, 0, 13], [0, 4, 0x65, 0x63, 0x68, 0x6F, 0x3A, 0x20, 0x61]]" "[]" d]
  have "\<exists>got lost b. [p] = got @ lost \<and> lost = [] \<and> b = [] \<and>
      cl_read_loop True (map Cl_Recv [[0, 0, 0, 13], [0, 4, 0x65, 0x63, 0x68, 0x6F, 0x3A, 0x20, 0x61]]) d =
        Some (Done (False, d\<lparr>cl_read_buf := b\<rparr>, map (\<lambda>p. Cl_Message (echo_prefix @ p_data p)) got))"
    using run c by (auto simp: d_def TcpClient_new_def c_def TcpConnection_new_def simp del: cl_read_loop.simps)
  then show ?thesis by (auto simp: p_def d_def TcpClient_new_def echo_prefix_def simp del: cl_read_loop.simps)
qed

end
