(* ===== verification/Spec2Isabelle.thy ===== *)
theory Spec2Isabelle
  imports Codec Router Session Timer_Loop Event_Loop Memory_Pool Object_Pool Config_Types Message_Queue Monitor
    Logger Db_Pool Signal_Handler Windows Gateway Server_Example Close_Race Nonblocking Lifetimes Test_Programs
begin

text \<open>
  A model of the C++ server framework under \<open>src/\<close> and the theorems that make its parts
  correct.

  \<^bold>\<open>The program.\<close> A server owns a listening socket and one \<open>TcpConnection\<close> per client. A
  connection's read thread appends received bytes to a buffer and cuts it into packets, its write
  thread drains a queue of encoded packets. Each packet becomes a task of the \<open>ThreadPool\<close>, whose
  workers pass it to the \<open>Router\<close>; the routed handler answers through the server. \<open>SessionMgr\<close>
  keeps the table of sessions and drops idle ones, \<open>TcpClient\<close> is the other end of the wire,
  \<open>Timer\<close>, \<open>TimerLoop\<close> and \<open>EventLoop\<close> run delayed callbacks, and \<open>Monitor\<close>, \<open>Logger\<close>, \<open>Config\<close>,
  the pools and the message queue serve all of them. \<open>Codec\<close> is a second, checksummed frame
  format. \<open>src/example/gateway/gateway.cpp\<close> puts the parts together.

  \<^bold>\<open>Theories and sources.\<close> Each theory models the files it names, with one definition per
  function or method; names follow the source, with a prefix where two classes share one.
  \<^item> \<open>Prelude\<close>: fixed-width integers as words, their bytes in memory on a host of either
    endianness, and reads that may leave their buffer (\<open>access\<close>, with the value
    \<open>Out_Of_Bounds\<close>). \<open>Tables\<close>: \<open>std::unordered_map\<close> as an association list with distinct keys.
    \<open>Std_Heap\<close>: the array algorithms \<open>std::push_heap\<close> and \<open>std::pop_heap\<close>. \<open>Framing\<close>: the contract
    of a stream reader. \<open>Decimal\<close>: \<open>std::stoi\<close>, \<open>atoi\<close> and \<open>std::to_string\<close>.
  \<^item> \<open>Locks\<close>: \<open>base/lock/\<close>, as threads whose memory accesses interleave.
  \<^item> \<open>Byte_Order\<close>, \<open>Crc32\<close>, \<open>Codec\<close>: \<open>network/codec/codec.h\<close> and \<open>codec.cpp\<close>.
  \<^item> \<open>Packet\<close>: \<open>network/protocol/packet.h\<close> and \<open>packet.cpp\<close>. \<open>Tcp_Connection\<close>, \<open>Tcp_Server\<close>,
    \<open>Tcp_Client\<close>: the three classes of \<open>network/tcp/\<close>. \<open>Transport\<close>: both directions between a client and
    a connection. \<open>Close_Race\<close>: \<open>TcpConnection::close\<close> statement by statement. \<open>Nonblocking\<close>: the loops of
    \<open>tcp_connection.cpp\<close> on the non-blocking sockets of \<open>TcpServer::accept_loop\<close>, and its epoll set.
  \<^item> \<open>Router\<close>, \<open>Session\<close>: \<open>business/router/\<close> and \<open>business/session/\<close>.
  \<^item> \<open>Timer\<close>, \<open>Timer_Loop\<close>: \<open>base/timer/\<close>. \<open>Event_Loop\<close>: \<open>base/event/\<close>.
  \<^item> \<open>Windows\<close>: the Windows branches of \<open>base/event/event_loop.cpp\<close> and \<open>network/tcp/tcp_server.cpp\<close>.
  \<^item> \<open>Thread_Pool\<close>: \<open>core/threadpool/\<close> and \<open>core/task/\<close>; \<open>Pool_Futures\<close>: the template \<open>append\<close> and its
    futures; \<open>Pool_Progress\<close>: a running pool serves its queue. \<open>Monitor\<close>: \<open>core/monitor/\<close>.
  \<^item> \<open>Memory_Pool\<close>, \<open>Object_Pool\<close>, \<open>Message_Queue\<close>, \<open>Logger\<close>, \<open>Signal_Handler\<close>: the directories
    of these names under \<open>base/\<close> (\<open>base/process/\<close> for the last). \<open>Config\<close>, \<open>Config_Json\<close>:
    \<open>base/config/\<close>; \<open>Config_Types\<close>: the types of the values that its JSON reader builds.
  \<^item> \<open>Db_Pool\<close>: \<open>db/connection_pool.h\<close> and \<open>connection_pool.cpp\<close>. \<open>Platform\<close>: \<open>adapter/platform.h\<close>,
    \<open>platform.cpp\<close> and \<open>base/time/timestamp.cpp\<close>, with the branches of both systems.
  \<^item> \<open>Gateway\<close>, \<open>Server_Example\<close>: the programs under \<open>example/gateway/\<close> and \<open>example/server/\<close>.
    \<open>Test_Programs\<close>: \<open>test/tcp_test.cpp\<close> and \<open>test/threadpool_test.cpp\<close>. \<open>Lifetimes\<close>: the destructors of all
    classes and the detached threads of the server. This theory: the gateway end to end.

  \<^bold>\<open>State, effects and errors.\<close> A class is a \<open>record\<close> of its members, a method a function from the
  state to the state and its result. What a method does to the outside (a sent packet, a
  callback, a closed descriptor) is a list of events in its result. What it gets from the outside
  (bytes of \<open>recv\<close>, the amount \<open>send\<close> takes, the clock, \<open>malloc\<close>, \<open>epoll_wait\<close>, SQLite, the
  outcome of a callback) is an argument, so theorems hold for every behaviour of it. Exceptions
  and undefined behaviour are values: \<open>Out_Of_Bounds\<close> of \<open>access\<close>, and sums or datatypes of
  outcomes. Integers whose value comes from data, sizes, clocks or settings keep their width, and where a C++ \<open>int\<close> is read
  from a word it is signed. Numbers that only count events upwards by one (the identifiers and counters of \<open>SessionMgr\<close>, \<open>Timer\<close>,
  \<open>TimerLoop\<close>, \<open>EventLoop\<close>, the logger, the pools and the session numbers of \<open>TcpServer\<close>) are unbounded: the theorems speak of runs with fewer than
  \<open>2^63\<close> such events. The 32-bit counters of \<open>Monitor\<close> and \<open>SubscribeHub\<close> are words.

  Code under a mutex is one step, which \<open>Locks\<close> justifies: whatever the interleaving of the single
  memory accesses, a run has the effect of the scopes executed one after the other, in the order in which
  they took the mutex. Where threads interleave between such sections the model is a step relation and its
  invariants are proved by rule induction: \<open>worker_step\<close>, \<open>client_step\<close> and \<open>pool_step\<close> of
  \<open>Thread_Pool\<close>, \<open>mon_reach\<close> of \<open>Monitor\<close> with each compare-and-swap a step of its own, and
  \<open>timer_reachable\<close> of \<open>Timer\<close>, whose callbacks may call the timer again. Under the mutex itself it is
  \<open>lock_step\<close> and \<open>lock_reach\<close> of \<open>Locks\<close>. Code that shares data without a mutex is taken one access at a
  time: \<open>close_step\<close> and \<open>close_reach\<close> of \<open>Close_Race\<close>, \<open>hub_step\<close> of \<open>Message_Queue\<close>, whose callbacks run under the mutex, \<open>life_step\<close> of
  \<open>Lifetimes\<close>. \<open>serve_step\<close> of \<open>Pool_Progress\<close> are the steps a pool takes without its clients, \<open>closing_step\<close> of \<open>Thread_Pool\<close> those
  of a pool being stopped, \<open>fut_step\<close> of \<open>Pool_Futures\<close> adds the shared states of the futures, and
  \<open>gateway_pool\<close> of \<open>Gateway\<close> and \<open>counter_reach\<close> of \<open>Test_Programs\<close> are the runs of the pools of these programs. Tasks of the pool are
  taken to return: an exception that leaves one ends the process, since the workers catch nothing.

  The two platform macros are defined with values, and the sources test them with \<open>#ifdef\<close>, so on every
  host \<open>platform.cpp\<close> compiles its Windows branches and the event loop and the server their Linux
  branches (\<open>Platform.branches_ignore_host\<close>). The model has each branch as it is written and says
  which one a theorem is about.

  \<^bold>\<open>Interfaces.\<close>
  \<^item> \<open>framed_stream\<close> (\<open>Framing\<close>): a reader that consumes what the encoder writes, one frame at a
    time, delivers the same messages however the bytes are cut. Interpreted on the connection and
    on the client.
  \<^item> \<open>std_heap\<close> and its extension \<open>due_loop\<close> (\<open>Std_Heap\<close>): a container with the earliest entry in
    front, and a loop that takes out exactly what is due, in order. Interpreted on the C++ heap
    algorithms and, for the loops, in \<open>Timer\<close>, \<open>Timer_Loop\<close> and \<open>Event_Loop\<close>.
  \<^item> \<open>handler_table\<close> (\<open>Tables\<close>): lookup after registration and removal. Interpreted on \<open>Router\<close>,
    \<open>Codec\<close> and the descriptors of \<open>Event_Loop\<close>.
  \<^item> \<open>allocator\<close> (\<open>Memory_Pool\<close>): blocks handed out are distinct from all that are in use.
    Interpreted on \<open>MemoryPool\<close> and \<open>ObjectPool\<close>, whose free lists run through the blocks themselves.
  \<^item> \<open>fifo\<close> (\<open>Message_Queue\<close>): first in, first out. Interpreted on \<open>MessageQueue\<close>.
  \<^item> \<open>guarded_object\<close> (\<open>Locks\<close>): an object whose operations are bodies of single accesses under
    one guard; every run of its threads is a sequential run of the operations. Interpreted on \<open>SessionMgr\<close>.

  \<^bold>\<open>What is shown.\<close>
  \<^item> Wire formats: encoding and decoding are inverse, with the exact condition on sizes; streams are
    reassembled whatever the chunks, by the checksummed decoder one packet per call; exactly which position the decoder accepts;
    exactly which headers make it read outside its
    buffer or stall; the CRC table computes the bit-serial division and detects every change within 32 consecutive bits.
  \<^item> Transport: when calls of \<open>close\<close> do not overlap, a connection and the server close each descriptor
    once; when they do, the connection's own socket is still closed once, and a second call can close a
    socket of somebody else. Sends deliver everything or a prefix; the client's and the server's loops
    agree, and the accept loops of both systems differ by two system calls per socket.
  \<^item> Non-blocking sockets: a connection ends at the first pause of its client, a full send buffer ends
    the write thread in the middle of a packet, and the accept loop spins while a client is writable.
  \<^item> Lifetimes: a destructor after a stop does nothing more; the threads of a server can outlive it, and a
    pool destroyed during a stop ends the program.
  \<^item> Time: the three timer loops fire exactly the due timers in order of expiry and reschedule the
    repeating ones; the heaps stay heaps.
  \<^item> Mutual exclusion: at most one thread is in a scope, scopes are serializable, and threads that
    do not wait and do not lock twice all finish; a guard inside a guard never ends, which the close callback of
    the Windows branch and the signal handlers of the examples run into.
  \<^item> Concurrency: the pool neither loses nor repeats a task, takes them by priority and, while it runs,
    serves all of them, because no wake-up for a task is lost; a drained
    shutdown has run everything; an immediate one returns, once the running tasks are finished, unless new tasks keep coming; and a shutdown can
    wait forever for a worker that missed its notification;
    either settles the future of every function appended before it, with its result or broken;
    once no update of the monitor is under way its peak is the total of connections.
  \<^item> Storage: the memory and object pools hand out fresh blocks, the former cleared byte by byte; the logger's queue is a bounded
    first-in-first-out queue; the subscriber hub delivers to the subscribers of a type in order, in every interleaving of its threads.
  \<^item> Text: the INI file, the command line, the flat JSON and the status page are read back as
    written; the JSON reader ends on every text without a bracket and does not on a truncated array;
    in the trees it builds every integer is of 64 bits and every node below the root has a value.
  \<^item> Composition: from client to client through the gateway, for any results of \<open>recv\<close> and \<open>send\<close>: the requests received
    completely become tasks, each is called once by a pool that always comes to rest, and the client
    receives a prefix of the replies in order, all of them when every byte got through; the same for the echo test;
    the thread pool test ends with its counter at twenty; a signal closes every connection of the
    gateway; the gateway's session table stays empty, because nothing ever adds to it.

  \<^bold>\<open>Loops and termination.\<close> Loops over finite input are structural recursions or functions with a
  measure; there is no fuel. Four loops of the source may run forever and are partial functions
  into \<open>option\<close>, where \<open>None\<close> is a loop that does not end: \<open>size_class\<close> (doubling a 64-bit size, which
  wraps to zero), \<open>cl_parse\<close> (a length field of zero in front of 4 GiB of data), \<open>array_loop\<close> and
  \<open>json_loop\<close> (the array reader never checks for the end of input). \<open>size_class\<close> is decided for every
  size; \<open>cl_parse\<close> is shown to return on what the encoder writes, however it is cut; the JSON loop
  is shown to return on every text without a bracket.

  \<^bold>\<open>Not modelled.\<close> Functions that pass one system call on and have no logic of their own; the console
  handler of Windows in \<open>SignalHandler::start\<close>; \<open>Config::merge\<close>, \<open>Config::get_value\<close>
  and \<open>EventLoop::update_timer_fd\<close>, declared but never defined; the text of log messages in the
  callers of the logger; conversions to and from floating point (parameters of the JSON
  writer and reader); SQLite (a parameter); \<open>logger_test.cpp\<close>, which logs four lines. Code
  that does not compile as written (\<open>ThreadPool::append\<close>, the callback type of \<open>SubscribeHub\<close>) is modelled
  as it is meant, and the theory says so.
\<close>

section \<open>The gateway end to end\<close>

text \<open>
  C1: Requests and replies across all layers, for any results of \<open>recv\<close> and \<open>send\<close> and any interleaving of the workers. A client
  encodes requests; the read thread of its session delivers exactly those received completely (\<open>messages es\<close>), and the message handler
  makes each of them a task of the pool, among the tasks of other sessions. The workers have called
  \<open>qs\<close> while the session was in the server's table: each request at most once, and, when the pool is at rest, which it
  can always reach, each exactly once. The handlers answer a \<open>LOGIN\<close> with \<open>login_ok\<close> and a \<open>DATA\<close> with its own body; other commands have
  no answer. From the bytes that the write thread has handed over and the network has brought so far, the client's callback has received a prefix
  (\<open>got\<close>) of the replies to \<open>qs\<close>, in the order in which the tasks ran, and all of them when the write queue was emptied without
  an error and no byte is under way. The hosts may differ in endianness.
\<close>

theorem gateway_end_to_end:
  assumes "\<forall>p\<in>set ps. encodable p" "received evs @ unread = concat (map (proto_encode lc) ps)"
    and "t_read_buf c = []" "t_write_queue c = []" "t_on_message c" "\<not> t_closed c" "t_session_id c = sid"
    and "read_loop ls evs c = Done (fin, c1, es)"
    and "gateway_pool ms pool" "requests_of sid ms = messages es" "called pool = qs @ qs'"
    and "serves sid c1 g" "sv_objects (gw_server (gateway_tasks ls qs g)) sid = Some c2"
    and "write_loop rss c2 = Some (ok, c3, out)" "concat ds @ under_way = out"
    and "cl_read_buf d = []" "cl_on_message d" "cl_connected d"
  shows "(\<exists>later. ps = messages es @ later \<and> t_read_buf c1 @ unread = concat (map (proto_encode lc) later) \<and>
      (later \<noteq> [] \<longrightarrow> length (t_read_buf c1) < length (proto_encode lc (hd later)))) \<and>
    mset (requests_of sid qs) \<subseteq># mset (messages es) \<and>
    (at_rest pool \<and> qs' = [] \<longrightarrow> mset (requests_of sid qs) = mset (messages es)) \<and>
    (\<exists>rest. serve_step\<^sup>*\<^sup>* pool rest \<and> at_rest rest) \<and>
    (\<exists>got lost b. concat (map reply (requests_of sid qs)) = got @ lost \<and>
      cl_read_loop lc (map Cl_Recv ds) d = Some (Done (False, d\<lparr>cl_read_buf := b\<rparr>, map (Cl_Message \<circ> p_data) got)) \<and>
      (ok \<and> t_write_queue c3 = [] \<and> under_way = [] \<longrightarrow> lost = [] \<and> b = []))"
proof -
  obtain fin' c1' es' later where "read_loop ls evs c = Done (fin', c1', es')" "ps = messages es' @ later"
    "t_read_buf c1' @ unread = concat (map (proto_encode lc) later)"
    "later \<noteq> [] \<Longrightarrow> length (t_read_buf c1') < length (proto_encode lc (hd later))" "read_only c c1'"
    by (rule requests_reach_server [OF assms(1-3,5,6)]) blast
  with assms(8) have r: "ps = messages es @ later" "t_read_buf c1 @ unread = concat (map (proto_encode lc) later)"
    "later \<noteq> [] \<Longrightarrow> length (t_read_buf c1) < length (proto_encode lc (hd later))" "t_write_queue c1 = []"
    using assms(4) by (auto simp: read_only_def)
  have "mset qs \<subseteq># mset ms" using gateway_pool_called(1) [OF assms(9)] assms(11) by (metis mset_append mset_subset_eq_add_left subset_mset.order_trans)
  then have q: "mset (requests_of sid qs) \<subseteq># mset (messages es)"
    unfolding assms(10) [symmetric] mset_requests_of by (intro image_mset_subseteq_mono multiset_filter_mono)
  have all: "mset (requests_of sid qs) = mset (messages es)" if "at_rest pool" "qs' = []"
    unfolding assms(10) [symmetric] mset_requests_of using gateway_pool_called(2) [OF assms(9) that(1)] assms(11) that(2) by simp
  have c2: "c2 = send_packets ls (concat (map reply (requests_of sid qs))) c1"
    using gateway_tasks_serves [OF assms(12), of ls qs] assms(13) by (simp add: serves_def)
  have "set (requests_of sid qs) \<subseteq> set ps" using set_mset_mono [OF q] r(1) by auto
  then have "\<forall>p\<in>set (concat (map reply (requests_of sid qs))). encodable p" using assms(1) reply_encodable by auto
  from replies_reach_client [OF this r(4) assms(14) [unfolded c2] assms(15-18)]
  have reply: "\<exists>got lost b. concat (map reply (requests_of sid qs)) = got @ lost \<and>
      cl_read_loop lc (map Cl_Recv ds) d = Some (Done (False, d\<lparr>cl_read_buf := b\<rparr>, map (Cl_Message \<circ> p_data) got)) \<and>
      (ok \<and> t_write_queue c3 = [] \<and> under_way = [] \<longrightarrow> lost = [] \<and> b = [])" .
  have "pool_reachable 8 pool" "\<not> stop pool" "workers pool \<noteq> []" using gateway_pool_reachable [OF assms(9)] by auto
  then have "\<exists>rest. serve_step\<^sup>*\<^sup>* pool rest \<and> at_rest rest" by (rule serve_finishes)
  with reply q all r(1-3) show ?thesis by blast
qed

text \<open>A request with one byte of data, on a session that has just been accepted.\<close>

definition sample_request :: proto_packet where
  "sample_request = \<lparr>p_cmd = CMD_DATA, p_data = [7]\<rparr>"

definition sample_connection :: tcp_connection where
  "sample_connection = TcpConnection_new 5 1 0\<lparr>t_on_message := True\<rparr>"

definition sample_gateway :: gateway where
  "sample_gateway = gateway_new 80\<lparr>gw_server := gw_server (gateway_new 80)\<lparr>sv_connections := [1],
     sv_objects := [1 \<mapsto> sample_connection\<lparr>t_last_recv_time := 9\<rparr>]\<rparr>\<rparr>"

definition sample_client :: tcp_client where
  "sample_client = TcpClient_new ''h'' 80\<lparr>cl_on_message := True, cl_connected := True\<rparr>"

lemma sample_bytes: "proto_encode le sample_request = [0, 0, 0, 7, 0, 4, 7]"
  by (simp add: sample_request_def wire be32_def be16_def CMD_DATA_def)

lemma sample_read:
  "read_loop True (recv_events [([0, 0, 0, 7], 1), ([0, 4, 7], 9)]) sample_connection =
   Done (False, sample_connection\<lparr>t_last_recv_time := 9\<rparr>, [On_Message 1 sample_request])"
proof -
  have "encodable sample_request" by (simp add: sample_request_def encodable_def)
  then have "feed (conn_drain True) [] [[0, 0, 0, 7], [0, 4, 7]] = Done ([sample_request], [])"
    using conn.feed_all [of "[sample_request]" "[[0, 0, 0, 7], [0, 4, 7]]" True True] by (simp add: sample_bytes)
  then show ?thesis
    using read_loop_feed [of sample_connection True "[([0, 0, 0, 7], 1), ([0, 4, 7], 9)]"]
    by (simp add: sample_connection_def TcpConnection_new_def)
qed

lemma sample_write:
  "write_loop [[Sent 4, Sent 9]] (send_packets True [sample_request] (sample_connection\<lparr>t_last_recv_time := 9\<rparr>)) =
   Some (True, sample_connection\<lparr>t_last_recv_time := 9\<rparr>, [0, 0, 0, 7, 0, 4, 7])"
  by (simp add: send_packets_queue sample_bytes sample_connection_def TcpConnection_new_def write_turn_def send_raw_def Let_def)

lemma sample_serves: "serves 1 (sample_connection\<lparr>t_last_recv_time := 9\<rparr>) sample_gateway"
  by (simp add: serves_def sample_gateway_def gateway_new_def)

text \<open>The pool of the gateway after it has served the request.\<close>

lemma sample_pool: "\<exists>pool. gateway_pool [(1, sample_request)] pool \<and> at_rest pool \<and> called pool = [(1, sample_request)]"
proof -
  let ?s0 = "ThreadPool_new 8 (\<lambda>_. Task_new (Some (1, sample_request)) NORMAL)"
  let ?s = "gateway_message 7 1 sample_request ?s0"
  have s: "gateway_pool [(1, sample_request)] ?s"
    using gp_message [OF gp_start [of "\<lambda>_. (1, sample_request)"], of 7 1 sample_request] by (simp add: ThreadPool_new_def)
  have "pool_reachable 8 ?s" "\<not> stop ?s" "workers ?s \<noteq> []" using gateway_pool_reachable [OF s] by auto
  then obtain pool where r: "serve_step\<^sup>*\<^sup>* ?s pool" "at_rest pool" using serve_finishes by blast
  from r(1) s have p: "gateway_pool [(1, sample_request)] pool" by (induction rule: rtranclp_induct) (auto intro: gp_serve)
  with gateway_pool_called(2) [OF p r(2)] r(2) show ?thesis by (intro exI [of _ pool]) simp
qed

theorem gateway_end_to_end_witness:
  "cl_read_loop True (map Cl_Recv [[0, 0], [0, 7, 0, 4, 7]]) sample_client =
   Some (Done (False, sample_client, [Cl_Message [7]]))"
proof -
  have reply: "reply sample_request = [sample_request]" by (simp add: reply_def sample_request_def cmd_distinct)
  have objects: "sv_objects (gw_server (gateway_tasks True [(1, sample_request)] sample_gateway)) 1 =
      Some (send_packets True [sample_request] (sample_connection\<lparr>t_last_recv_time := 9\<rparr>))"
    using gateway_tasks_serves [OF sample_serves, of True "[(1, sample_request)]"] reply by (simp add: serves_def)
  obtain pool where pool: "gateway_pool [(1, sample_request)] pool" "called pool = [(1, sample_request)] @ []"
    using sample_pool by auto
  have pre: "\<forall>p\<in>set [sample_request]. encodable p" by (simp add: encodable_def sample_request_def)
  have bytes: "received (recv_events [([0, 0, 0, 7], 1), ([0, 4, 7], 9)]) @ [] = concat (map (proto_encode True) [sample_request])"
    by (simp add: sample_bytes)
  note run = gateway_end_to_end [OF pre bytes _ _ _ _ _ sample_read pool(1) _ pool(2) sample_serves objects sample_write,
      of "[[0, 0], [0, 7, 0, 4, 7]]" "[]" sample_client]
  have "\<exists>got lost b. [sample_request] = got @ lost \<and> lost = [] \<and> b = [] \<and>
      cl_read_loop True (map Cl_Recv [[0, 0], [0, 7, 0, 4, 7]]) sample_client =
        Some (Done (False, sample_client\<lparr>cl_read_buf := b\<rparr>, map (Cl_Message \<circ> p_data) got))"
    using run by (auto simp: reply sample_connection_def TcpConnection_new_def sample_client_def TcpClient_new_def simp del: cl_read_loop.simps)
  then show ?thesis by (auto simp: sample_request_def sample_client_def TcpClient_new_def simp del: cl_read_loop.simps)
qed

text \<open>
  The gateway never knows its clients: no run of its server, whatever is accepted, closed or
  stopped, calls the connected handler, so the gateway's session table stays empty.
\<close>

theorem gateway_sessions_stay_empty:
  "session_count (gw_sessions (fold (gateway_effect tick)
     (fst (server_trace le ops (gw_server (gateway_new port)))) (gateway_new port))) = 0"
proof -
  have "server_ok (gw_server (gateway_new port))"
    by (simp add: server_ok_def gateway_new_def TcpServer_new_def set_connected_handler_def set_close_handler_def
        set_message_handler_def set_heartbeat_interval_def set_idle_timeout_def)
  from step_ok_server_trace [OF this, of le ops]
  have "connected_calls (fst (server_trace le ops (gw_server (gateway_new port)))) = []" by (simp add: step_ok_def)
  from gateway_effects_sessions [OF this, of "gateway_new port" tick] show ?thesis
    by (simp add: session_count_def gateway_new_def SessionMgr_new_def)
qed

end
